(* ===== verification/Prelude.thy ===== *)
theory Prelude
  imports Main "HOL-Library.Word" "HOL-Library.AList" "HOL-Library.Monad_Syntax"
    "HOL-Library.Multiset"
begin

text \<open>
  Shared vocabulary of the development.

  \<^item> Machine integers: a Rust \<open>u64\<close> is a \<open>64 word\<close>. The release profile of the workspace
    (\<^verbatim>\<open>Cargo.toml\<close>, \<^verbatim>\<open>[profile.release]\<close>) does not enable overflow checks, so \<open>+\<close>, \<open>-\<close>
    and \<open>*\<close> wrap, as the operations of \<open>HOL-Library.Word\<close> do. Modules under
    \<^verbatim>\<open>with_checked_arithmetic\<close> abort on overflow; they use the \<open>checked_\<close> operations below.
  \<^item> Panics: the release profile aborts the process on a panic, so no state survives it. An operation
    that may panic returns an \<open>option\<close>, and \<open>None\<close> is the panic. A Rust \<open>Result\<close> is a sum, with
    \<open>Inl\<close> the error.
  \<^item> \<open>HashMap\<close> and \<open>BTreeMap\<close> are association lists with distinct keys; a \<open>BTreeMap\<close> is kept in
    strictly increasing key order, which is its iteration order.
\<close>

named_theorems split_res "case splits of the option and sum types the results are built from"

declare option.splits [split_res] sum.splits [split_res] if_splits [split_res]
  prod.splits [split_res]

type_synonym u64 = "64 word"
type_synonym u32 = "32 word"
type_synonym u16 = "16 word"

section \<open>Panics\<close>

definition panic_unless :: "bool \<Rightarrow> unit option" where
  "panic_unless b = (if b then Some () else None)"

lemma panic_unless_eq_Some [simp]: "panic_unless b = Some u \<longleftrightarrow> b"
  by (simp add: panic_unless_def)

lemma panic_unless_True [simp]: "panic_unless True = Some ()"
  by (simp add: panic_unless_def)

lemma panic_unless_False [simp]: "panic_unless False = None"
  by (simp add: panic_unless_def)

lemma bind_eq_SomeE [elim!]:
  assumes "Option.bind x f = Some z"
  obtains y where "x = Some y" and "f y = Some z"
  using assms by (cases x) auto

section \<open>Results\<close>

text \<open>Rust's \<open>?\<close> on a \<open>Result\<close>, and the \<open>ensure!\<close> family of macros.\<close>

definition and_then :: "'e + 'a \<Rightarrow> ('a \<Rightarrow> 'e + 'b) \<Rightarrow> 'e + 'b" where
  "and_then r f = (case r of Inl e \<Rightarrow> Inl e | Inr x \<Rightarrow> f x)"

definition ensure :: "bool \<Rightarrow> 'e \<Rightarrow> 'e + unit" where
  "ensure b e = (if b then Inr () else Inl e)"

definition ok_or :: "'e \<Rightarrow> 'a option \<Rightarrow> 'e + 'a" where
  "ok_or e x = (case x of None \<Rightarrow> Inl e | Some v \<Rightarrow> Inr v)"

lemma and_then_eq_Inr [simp]:
  "and_then r f = Inr z \<longleftrightarrow> (\<exists>x. r = Inr x \<and> f x = Inr z)"
  by (auto simp: and_then_def split: sum.splits)

lemma and_then_Inr [simp]: "and_then (Inr x) f = f x"
  by (simp add: and_then_def)

lemma and_then_Inl [simp]: "and_then (Inl e) f = Inl e"
  by (simp add: and_then_def)

lemma ensure_eq_Inr [simp]: "ensure b e = Inr u \<longleftrightarrow> b"
  by (simp add: ensure_def)

lemma ensure_True [simp]: "ensure True e = Inr ()"
  by (simp add: ensure_def)

lemma ensure_False [simp]: "ensure False e = Inl e"
  by (simp add: ensure_def)

lemma ok_or_eq_Inr [simp]: "ok_or e x = Inr v \<longleftrightarrow> x = Some v"
  by (auto simp: ok_or_def split: option.splits)

lemma ok_or_simps [simp]: "ok_or e None = Inl e" "ok_or e (Some v) = Inr v"
  by (simp_all add: ok_or_def)

section \<open>Words\<close>

definition saturating_sub :: "'a::len word \<Rightarrow> 'a word \<Rightarrow> 'a word" where
  "saturating_sub a b = (if a < b then 0 else a - b)"

definition saturating_add :: "'a::len word \<Rightarrow> 'a word \<Rightarrow> 'a word" where
  "saturating_add a b = (if unat a + unat b < 2 ^ LENGTH('a) then a + b else - 1)"

definition checked_add :: "'a::len word \<Rightarrow> 'a word \<Rightarrow> 'a word option" where
  "checked_add a b = (if unat a + unat b < 2 ^ LENGTH('a) then Some (a + b) else None)"

definition checked_sub :: "'a::len word \<Rightarrow> 'a word \<Rightarrow> 'a word option" where
  "checked_sub a b = (if b \<le> a then Some (a - b) else None)"

definition checked_mul :: "'a::len word \<Rightarrow> 'a word \<Rightarrow> 'a word option" where
  "checked_mul a b = (if unat a * unat b < 2 ^ LENGTH('a) then Some (a * b) else None)"

lemma word_eq_unatI: "unat (a :: 'a::len word) = unat b \<Longrightarrow> a = b"
  by (simp add: word_unat_eq_iff)

lemma unat_saturating_sub: "unat (saturating_sub a b) = unat a - unat b"
  by (simp add: saturating_sub_def unat_sub word_less_nat_alt word_le_nat_alt)

lemma checked_add_Some_iff:
  "checked_add a b = Some c \<longleftrightarrow>
     unat (a :: 'a::len word) + unat b < 2 ^ LENGTH('a) \<and> unat c = unat a + unat b"
  by (auto simp: checked_add_def unat_word_ariths intro!: word_eq_unatI)

lemma checked_sub_Some_iff:
  "checked_sub a b = Some c \<longleftrightarrow> unat b \<le> unat a \<and> unat c = unat a - unat b"
  by (auto simp: checked_sub_def word_le_nat_alt unat_sub intro!: word_eq_unatI)

lemma checked_mul_Some_iff:
  "checked_mul a b = Some c \<longleftrightarrow>
     unat (a :: 'a::len word) * unat b < 2 ^ LENGTH('a) \<and> unat c = unat a * unat b"
  by (auto simp: checked_mul_def unat_word_ariths intro!: word_eq_unatI)

lemma unat_add_no_wrap:
  "unat (a :: 'a::len word) + unat b < 2 ^ LENGTH('a) \<Longrightarrow> unat (a + b) = unat a + unat b"
  by (simp add: unat_word_ariths)

text \<open>Rust's \<open>iter().sum()\<close> over a slice of words wraps; below the modulus it is the sum of the
  values.\<close>

lemma unat_sum_list:
  fixes ws :: "'a::len word list"
  assumes "sum_list (map unat ws) < 2 ^ LENGTH('a)"
  shows "unat (sum_list ws) = sum_list (map unat ws)"
  using assms
proof (induction ws)
  case (Cons w ws)
  then have "unat (sum_list ws) = sum_list (map unat ws)" by simp
  with Cons.prems show ?case by (simp add: unat_word_ariths)
qed simp

section \<open>Association lists\<close>

lemma map_of_filter_fst:
  "map_of (filter (\<lambda>(k, v). P k) m) = (\<lambda>k. if P k then map_of m k else None)"
  by (induction m) (auto simp: fun_eq_iff)

lemma map_of_SomeI_distinct:
  "distinct (map fst m) \<Longrightarrow> (k, v) \<in> set m \<Longrightarrow> map_of m k = Some v"
  by simp

text \<open>\<open>BTreeMap::insert\<close>: replace the value of a present key, otherwise insert in key order.\<close>

fun bt_insert :: "'k::linorder \<Rightarrow> 'v \<Rightarrow> ('k \<times> 'v) list \<Rightarrow> ('k \<times> 'v) list" where
  "bt_insert k v [] = [(k, v)]"
| "bt_insert k v ((k', v') # m) =
     (if k < k' then (k, v) # (k', v') # m
      else if k = k' then (k, v) # m
      else (k', v') # bt_insert k v m)"

definition bt_wf :: "('k::linorder \<times> 'v) list \<Rightarrow> bool" where
  "bt_wf m \<longleftrightarrow> sorted_wrt (<) (map fst m)"

lemma bt_wf_simps [simp]:
  "bt_wf []"
  "bt_wf ((k, v) # m) \<longleftrightarrow> (\<forall>k' \<in> fst ` set m. k < k') \<and> bt_wf m"
  by (auto simp: bt_wf_def)

lemma bt_wf_distinct: "bt_wf m \<Longrightarrow> distinct (map fst m)"
  by (auto simp: bt_wf_def strict_sorted_iff)

lemma keys_bt_insert [simp]: "fst ` set (bt_insert k v m) = insert k (fst ` set m)"
  by (induction k v m rule: bt_insert.induct) auto

lemma bt_wf_insert [simp]: "bt_wf m \<Longrightarrow> bt_wf (bt_insert k v m)"
  by (induction k v m rule: bt_insert.induct) auto

lemma map_of_bt_insert [simp]: "bt_wf m \<Longrightarrow> map_of (bt_insert k v m) = (map_of m)(k \<mapsto> v)"
proof (induction k v m rule: bt_insert.induct)
  case (2 k v k' v' m)
  then show ?case by (auto simp: fun_eq_iff)
qed simp

text \<open>Collecting an iterator of pairs into a \<open>HashMap\<close>: a later pair replaces an earlier one.\<close>

definition hm_collect :: "('k \<times> 'v) list \<Rightarrow> ('k \<times> 'v) list" where
  "hm_collect kvs = fold (\<lambda>(k, v). AList.update k v) kvs []"

lemma alist_update_append:
  "k \<notin> fst ` set m \<Longrightarrow> AList.update k v m = m @ [(k, v)]"
  by (induction m) auto

lemma set_alist_update_subset: "set (AList.update k v m) \<subseteq> insert (k, v) (set m)"
  by (induction m) auto

lemma ball_alist_update:
  assumes "P (k, v)" "\<forall>x \<in> set m. P x"
  shows "\<forall>x \<in> set (AList.update k v m). P x"
  using set_alist_update_subset [of k v m] assms by auto

lemma fold_alist_update_distinct:
  "distinct (map fst (m @ kvs)) \<Longrightarrow> fold (\<lambda>(k, v). AList.update k v) kvs m = m @ kvs"
proof (induction kvs arbitrary: m)
  case (Cons kv kvs)
  obtain k v where kv: "kv = (k, v)" by (cases kv)
  with Cons.prems have "AList.update k v m = m @ [(k, v)]"
    by (intro alist_update_append) auto
  moreover have "fold (\<lambda>(k, v). AList.update k v) kvs (m @ [(k, v)]) = (m @ [(k, v)]) @ kvs"
    using Cons.prems kv by (intro Cons.IH) auto
  ultimately show ?case using kv by simp
qed simp

lemma hm_collect_distinct: "distinct (map fst kvs) \<Longrightarrow> hm_collect kvs = kvs"
  using fold_alist_update_distinct [of "[]" kvs] by (simp add: hm_collect_def)

lemma find_SomeD: "List.find P xs = Some x \<Longrightarrow> x \<in> set xs \<and> P x"
  by (induction xs) (auto split: if_splits)

section \<open>Binary search\<close>

text \<open>\<open>slice::binary_search_by_key\<close>: the loop halves the window \<open>left..right\<close>; \<open>Inr\<close> is the index
  found, \<open>Inl\<close> the insertion point.\<close>

function binary_search_loop ::
  "('a \<Rightarrow> 'k::linorder) \<Rightarrow> 'a list \<Rightarrow> 'k \<Rightarrow> nat \<Rightarrow> nat \<Rightarrow> nat + nat" where
  "binary_search_loop key xs k left right =
     (if left < right
      then let mid = left + (right - left) div 2; c = key (xs ! mid) in
        if c < k then binary_search_loop key xs k (mid + 1) right
        else if k < c then binary_search_loop key xs k left mid
        else Inr mid
      else Inl left)"
  by pat_completeness auto
termination
  by (relation "measure (\<lambda>(key, xs, k, left, right). right - left)") auto

declare binary_search_loop.simps [simp del]

definition binary_search_by_key ::
  "('a \<Rightarrow> 'k::linorder) \<Rightarrow> 'a list \<Rightarrow> 'k \<Rightarrow> nat + nat" where
  "binary_search_by_key key xs k = binary_search_loop key xs k 0 (length xs)"

lemma binary_search_loop_correct:
  assumes "sorted_wrt (<) (map key xs)" "right \<le> length xs"
    and "\<forall>i < length xs. key (xs ! i) = k \<longrightarrow> left \<le> i \<and> i < right"
  shows "case binary_search_loop key xs k left right of
      Inr i \<Rightarrow> i < length xs \<and> key (xs ! i) = k
    | Inl _ \<Rightarrow> \<forall>i < length xs. key (xs ! i) \<noteq> k"
  using assms
proof (induction key xs k left right rule: binary_search_loop.induct)
  case (1 key xs k left right)
  let ?mid = "left + (right - left) div 2"
  have mono: "key (xs ! i) < key (xs ! j)" if "i < j" "j < length xs" for i j
    using 1(3) that by (simp add: sorted_wrt_iff_nth_less)
  have mid: "?mid < length xs" if "left < right"
    using that 1(4) by linarith
  consider (empty) "\<not> left < right" | (less) "left < right" "key (xs ! ?mid) < k"
    | (greater) "left < right" "k < key (xs ! ?mid)" | (found) "left < right" "key (xs ! ?mid) = k"
    by fastforce
  then show ?case
  proof cases
    case less
    have "\<forall>i < length xs. key (xs ! i) = k \<longrightarrow> ?mid + 1 \<le> i \<and> i < right"
    proof (intro allI impI)
      fix i assume i: "i < length xs" "key (xs ! i) = k"
      have "\<not> i \<le> ?mid"
      proof
        assume "i \<le> ?mid"
        then have "key (xs ! i) \<le> key (xs ! ?mid)"
          using mono [of i ?mid] mid [OF less(1)] by (cases "i = ?mid") (auto intro: less_imp_le)
        with less i show False by simp
      qed
      with i 1(5) show "?mid + 1 \<le> i \<and> i < right" by auto
    qed
    with 1(1) [OF less(1) refl refl less(2) 1(3,4)] less show ?thesis
      by (subst binary_search_loop.simps) (simp add: Let_def)
  next
    case greater
    have "\<forall>i < length xs. key (xs ! i) = k \<longrightarrow> left \<le> i \<and> i < ?mid"
    proof (intro allI impI)
      fix i assume i: "i < length xs" "key (xs ! i) = k"
      have "\<not> ?mid \<le> i"
        using mono [of ?mid i] greater i by (cases "i = ?mid") auto
      with i 1(5) show "left \<le> i \<and> i < ?mid" by auto
    qed
    moreover have "?mid \<le> length xs" "\<not> key (xs ! ?mid) < k"
      using greater 1(4) by auto
    ultimately show ?thesis
      using 1(2) [OF greater(1) refl refl _ greater(2) 1(3)] greater
      by (subst binary_search_loop.simps) (simp add: Let_def)
  next
    case found
    then show ?thesis
      using 1(4) by (subst binary_search_loop.simps) (simp add: Let_def)
  next
    case empty
    then show ?thesis
      using 1(5) by (subst binary_search_loop.simps) fastforce
  qed
qed

lemma binary_search_by_key_fst:
  assumes "bt_wf m"
  shows "case binary_search_by_key fst m k of
      Inr i \<Rightarrow> i < length m \<and> m ! i = (k, snd (m ! i)) \<and> map_of m k = Some (snd (m ! i))
    | Inl _ \<Rightarrow> map_of m k = None"
proof -
  have corr: "case binary_search_by_key fst m k of
      Inr i \<Rightarrow> i < length m \<and> fst (m ! i) = k
    | Inl _ \<Rightarrow> \<forall>i < length m. fst (m ! i) \<noteq> k"
    unfolding binary_search_by_key_def
    using assms by (intro binary_search_loop_correct) (auto simp: bt_wf_def)
  show ?thesis
  proof (cases "binary_search_by_key fst m k")
    case (Inl l)
    with corr have "k \<notin> fst ` set m" by (force simp: in_set_conv_nth image_iff)
    with Inl show ?thesis by (simp add: map_of_eq_None_iff)
  next
    case (Inr i)
    with corr have i: "i < length m" "fst (m ! i) = k" by auto
    then have pair: "m ! i = (k, snd (m ! i))" by (metis prod.collapse)
    with i have "(k, snd (m ! i)) \<in> set m" by (metis nth_mem)
    then have "map_of m k = Some (snd (m ! i))"
      using assms by (simp add: bt_wf_distinct)
    with i pair Inr show ?thesis by simp
  qed
qed

section \<open>Counters of type u64\<close>

text \<open>Rounds, sequence numbers and timestamps are natural numbers below \<open>2 ^ 64\<close>; sums and
  differences wrap.\<close>

definition u64_add :: "nat \<Rightarrow> nat \<Rightarrow> nat" where
  "u64_add a b = (a + b) mod 2 ^ 64"

definition u64_sub :: "nat \<Rightarrow> nat \<Rightarrow> nat" where
  "u64_sub a b = (a + (2 ^ 64 - b)) mod 2 ^ 64"

lemma u64_add_fits: "a + b < 2 ^ 64 \<Longrightarrow> u64_add a b = a + b"
  by (simp add: u64_add_def)

lemma u64_sub_fits: "b \<le> a \<Longrightarrow> a < 2 ^ 64 \<Longrightarrow> u64_sub a b = a - b"
  by (simp add: u64_sub_def le_mod_geq)

section \<open>Weights of sets of voters\<close>

text \<open>The stake held by a set of voters, as an unbounded number.\<close>

lemma sum_map_of_le:
  fixes w :: "'a \<Rightarrow> nat"
  assumes "finite B" and "A \<subseteq> B"
  shows "sum w A \<le> sum w B"
  using assms by (rule sum_mono2) simp

lemma sum_list_distinct_set:
  "distinct xs \<Longrightarrow> sum_list (map f xs) = sum f (set xs)"
  by (simp add: sum_list_distinct_conv_sum_set)

end
