(* ===== verification/Quorums.thy ===== *)
theory Quorums
  imports Prelude
begin

text \<open>
  The interface between a committee and everything that counts votes: a committee has a finite set
  of members with weights, a quorum threshold (\<open>2f + 1\<close>) and a validity threshold (\<open>f + 1\<close>). The
  laws are the arithmetic facts the thresholds are chosen for; they hold for every committee that
  satisfies the invariant its constructor establishes. Both committees of the code base (the
  validator committee of \<^verbatim>\<open>sui-types\<close> and the Narwhal committee of \<^verbatim>\<open>narwhal-config\<close>) are
  instances.
\<close>

locale weighted_quorum =
  fixes invar :: "'c \<Rightarrow> bool"
    and members :: "'c \<Rightarrow> 'a set"
    and weight :: "'c \<Rightarrow> 'a \<Rightarrow> nat"
    and quorum :: "'c \<Rightarrow> nat"
    and validity :: "'c \<Rightarrow> nat"
  assumes finite_members: "invar c \<Longrightarrow> finite (members c)"
    and quorums_overlap: "invar c \<Longrightarrow> sum (weight c) (members c) + validity c \<le> 2 * quorum c"
    and quorum_meets_validity: "invar c \<Longrightarrow> sum (weight c) (members c) < quorum c + validity c"
    and quorum_le_total: "invar c \<Longrightarrow> quorum c \<le> sum (weight c) (members c)"
begin

lemma weight_Int_ge:
  assumes "invar c" "A \<subseteq> members c" "B \<subseteq> members c"
  shows "sum (weight c) A + sum (weight c) B
    \<le> sum (weight c) (members c) + sum (weight c) (A \<inter> B)"
proof -
  have fin: "finite A" "finite B"
    using assms finite_members by (auto intro: finite_subset)
  then have "sum (weight c) A + sum (weight c) B
    = sum (weight c) (A \<union> B) + sum (weight c) (A \<inter> B)"
    by (simp add: sum.union_inter)
  moreover have "sum (weight c) (A \<union> B) \<le> sum (weight c) (members c)"
    using assms finite_members by (intro sum_map_of_le) auto
  ultimately show ?thesis by simp
qed

lemma weight_le_total:
  assumes "invar c" "A \<subseteq> members c"
  shows "sum (weight c) A \<le> sum (weight c) (members c)"
  using assms finite_members by (intro sum_map_of_le) auto

text \<open>Two quorums share at least the validity threshold in stake.\<close>

lemma quorum_intersection:
  assumes "invar c" "A \<subseteq> members c" "B \<subseteq> members c"
    and "quorum c \<le> sum (weight c) A" "quorum c \<le> sum (weight c) B"
  shows "validity c \<le> sum (weight c) (A \<inter> B)"
  using weight_Int_ge [OF assms(1-3)] assms(4,5) quorums_overlap [OF assms(1)] by linarith

text \<open>A set heavier than the faulty members has a correct one.\<close>

lemma heavy_set_has_correct:
  assumes "invar c" "A \<subseteq> members c"
    and "sum (weight c) (F \<inter> members c) < sum (weight c) A"
  obtains a where "a \<in> A" "a \<notin> F"
proof -
  have "\<not> A \<subseteq> F"
  proof
    assume "A \<subseteq> F"
    with assms(2) have "sum (weight c) A \<le> sum (weight c) (F \<inter> members c)"
      using finite_members [OF assms(1)] by (intro sum_map_of_le) auto
    with assms(3) show False by linarith
  qed
  then show thesis using that by auto
qed

text \<open>With less than the validity threshold of stake faulty, two quorums share a correct member.\<close>

lemma quorum_intersection_correct:
  assumes "invar c" "A \<subseteq> members c" "B \<subseteq> members c"
    and "quorum c \<le> sum (weight c) A" "quorum c \<le> sum (weight c) B"
    and "sum (weight c) (F \<inter> members c) < validity c"
  obtains a where "a \<in> A" "a \<in> B" "a \<notin> F"
proof -
  have "sum (weight c) (F \<inter> members c) < sum (weight c) (A \<inter> B)"
    using quorum_intersection [OF assms(1-5)] assms(6) by linarith
  moreover have "A \<inter> B \<subseteq> members c" using assms(2) by auto
  ultimately show thesis
    using heavy_set_has_correct [OF assms(1), of "A \<inter> B" F] that by auto
qed

text \<open>A quorum and a set of validity weight always meet: the step that carries a committed leader
  into the history of every later certificate.\<close>

lemma quorum_meets:
  assumes "invar c" "A \<subseteq> members c" "B \<subseteq> members c"
    and "quorum c \<le> sum (weight c) A" "validity c \<le> sum (weight c) B"
  obtains a where "a \<in> A" "a \<in> B"
proof -
  have "0 < sum (weight c) (A \<inter> B)"
    using weight_Int_ge [OF assms(1-3)] assms(4,5) quorum_meets_validity [OF assms(1)] by linarith
  then have "A \<inter> B \<noteq> {}" by auto
  then show thesis using that by auto
qed

end

text \<open>
  The contract of a vote counter on top of a committee: in every state its operations reach, the
  number it compares with a threshold is covered by the stake of the members it has recorded a vote
  of. Every aggregator of the code base is an instance.
\<close>

locale vote_counter = weighted_quorum invar members weight quorum validity
  for invar :: "'c \<Rightarrow> bool" and members :: "'c \<Rightarrow> 'a set" and weight :: "'c \<Rightarrow> 'a \<Rightarrow> nat"
    and quorum :: "'c \<Rightarrow> nat" and validity :: "'c \<Rightarrow> nat" +
  fixes counter_inv :: "'c \<Rightarrow> 's \<Rightarrow> bool"
    and voters :: "'s \<Rightarrow> 'a set"
    and tally :: "'s \<Rightarrow> nat"
  assumes tally_covered:
    "invar c \<Longrightarrow> counter_inv c s \<Longrightarrow> tally s \<le> sum (weight c) (voters s \<inter> members c)"
begin

lemma tally_le_total:
  assumes "invar c" "counter_inv c s"
  shows "tally s \<le> sum (weight c) (members c)"
  using tally_covered [OF assms] weight_le_total [OF assms(1), of "voters s \<inter> members c"] by simp

text \<open>Two counters over the same committee that both reached the quorum threshold recorded a vote
  of a common correct member.\<close>

lemma full_counters_share_correct:
  assumes "invar c" "counter_inv c s" "counter_inv c t"
    and "quorum c \<le> tally s" "quorum c \<le> tally t"
    and "sum (weight c) (F \<inter> members c) < validity c"
  obtains a where "a \<in> voters s" "a \<in> voters t" "a \<in> members c" "a \<notin> F"
proof -
  have "quorum c \<le> sum (weight c) (voters s \<inter> members c)"
    "quorum c \<le> sum (weight c) (voters t \<inter> members c)"
    using tally_covered [OF assms(1,2)] tally_covered [OF assms(1,3)] assms(4,5) by linarith+
  then show thesis
    using quorum_intersection_correct [OF assms(1), of "voters s \<inter> members c" "voters t \<inter> members c" F]
      assms(6) that by auto
qed

text \<open>A counter at the validity threshold recorded a vote of a correct member.\<close>

lemma validity_counter_has_correct:
  assumes "invar c" "counter_inv c s" "validity c \<le> tally s"
    and "sum (weight c) (F \<inter> members c) < validity c"
  obtains a where "a \<in> voters s" "a \<in> members c" "a \<notin> F"
proof -
  have "sum (weight c) (F \<inter> members c) < sum (weight c) (voters s \<inter> members c)"
    using tally_covered [OF assms(1,2)] assms(3,4) by linarith
  then show thesis
    using heavy_set_has_correct [OF assms(1), of "voters s \<inter> members c" F] that by auto
qed

end

end
