(* ===== verification/Sui_Committee.thy ===== *)
theory Sui_Committee
  imports Quorums
begin

text \<open>
  The validator committee, \<^verbatim>\<open>crates/sui-types/src/committee.rs\<close>: its thresholds, construction,
  index and key tables, weight lookup by binary search and stake-weighted shuffling. Authority names
  and public keys are opaque byte strings of which only equality and order are used; they are
  numbers here. The conversion of a name to a public key (\<^verbatim>\<open>fastcrypto\<close>) and the weighted sampling
  of \<^verbatim>\<open>rand\<close> are arguments of the definitions that use them.
\<close>

type_synonym authority_name = nat
type_synonym authority_public_key = nat
type_synonym epoch_id = u64
type_synonym stake_unit = u64

definition TOTAL_VOTING_POWER :: stake_unit where
  "TOTAL_VOTING_POWER = 10000"

definition QUORUM_THRESHOLD :: stake_unit where
  "QUORUM_THRESHOLD = 6667"

definition VALIDITY_THRESHOLD :: stake_unit where
  "VALIDITY_THRESHOLD = 3334"

lemmas voting_power_defs = TOTAL_VOTING_POWER_def QUORUM_THRESHOLD_def VALIDITY_THRESHOLD_def

record committee =
  committee_epoch :: epoch_id
  voting_rights :: "(authority_name \<times> stake_unit) list"
  expanded_keys :: "(authority_name \<times> authority_public_key) list"
  index_map :: "(authority_name \<times> nat) list"

text \<open>The part of \<^verbatim>\<open>SuiError\<close> that the committee and the vote aggregation raise.\<close>

datatype sui_error =
    InvalidCommittee authority_name nat
  | StakeAggregatorRepeatedSigner authority_name bool
  | InvalidAuthenticator
  | WrongEpoch epoch_id epoch_id
  | InvalidAddress
  | InvalidSignature string
  | UnknownSigner "authority_name option" "u32 option" committee
  | CertificateRequiresQuorum

section \<open>Operations\<close>

definition load_inner ::
  "(authority_name \<Rightarrow> authority_public_key option) \<Rightarrow> (authority_name \<times> stake_unit) list \<Rightarrow>
   ((authority_name \<times> authority_public_key) list \<times> (authority_name \<times> nat) list) option" where
  "load_inner try_into rights =
     do {
       keys \<leftarrow> those (map (\<lambda>(addr, _). map_option (Pair addr) (try_into addr)) rights);
       Some (hm_collect keys,
             hm_collect (map (\<lambda>(index, (addr, _)). (addr, index)) (List.enumerate 0 rights)))
     }"

definition committee_new ::
  "(authority_name \<Rightarrow> authority_public_key option) \<Rightarrow> epoch_id \<Rightarrow>
   (authority_name \<times> stake_unit) list \<Rightarrow> committee option" where
  "committee_new try_into ep rights_map =
     do {
       panic_unless (rights_map \<noteq> []);
       panic_unless (list_ex (\<lambda>(_, s). s \<noteq> 0) rights_map);
       let rights = sort_key fst rights_map;
       panic_unless (sum_list (map snd rights) = TOTAL_VOTING_POWER);
       (keys, index) \<leftarrow> load_inner try_into rights;
       Some \<lparr>committee_epoch = ep, voting_rights = rights,
             expanded_keys = keys, index_map = index\<rparr>
     }"

definition authority_index :: "committee \<Rightarrow> authority_name \<Rightarrow> u32 option" where
  "authority_index c author = map_option word_of_nat (map_of (index_map c) author)"

definition authority_by_index :: "committee \<Rightarrow> u32 \<Rightarrow> authority_name option" where
  "authority_by_index c index =
     (if unat index < length (voting_rights c)
      then Some (fst (voting_rights c ! unat index)) else None)"

definition public_key :: "committee \<Rightarrow> authority_name \<Rightarrow> sui_error + authority_public_key" where
  "public_key c authority =
     (case map_of (expanded_keys c) authority of
        Some v \<Rightarrow> Inr v
      | None \<Rightarrow> Inl (InvalidCommittee authority (length (expanded_keys c))))"

definition quorum_threshold :: "committee \<Rightarrow> stake_unit" where
  "quorum_threshold c = QUORUM_THRESHOLD"

definition validity_threshold :: "committee \<Rightarrow> stake_unit" where
  "validity_threshold c = VALIDITY_THRESHOLD"

definition total_votes :: "committee \<Rightarrow> stake_unit" where
  "total_votes c = TOTAL_VOTING_POWER"

definition threshold :: "bool \<Rightarrow> committee \<Rightarrow> stake_unit" where
  "threshold STRENGTH c = (if STRENGTH then QUORUM_THRESHOLD else VALIDITY_THRESHOLD)"

definition num_members :: "committee \<Rightarrow> nat" where
  "num_members c = length (voting_rights c)"

definition names :: "committee \<Rightarrow> authority_name list" where
  "names c = map fst (voting_rights c)"

definition stakes :: "committee \<Rightarrow> stake_unit list" where
  "stakes c = map snd (voting_rights c)"

definition authority_exists :: "committee \<Rightarrow> authority_name \<Rightarrow> bool" where
  "authority_exists c name =
     (case binary_search_by_key fst (voting_rights c) name of Inr _ \<Rightarrow> True | Inl _ \<Rightarrow> False)"

definition weight :: "committee \<Rightarrow> authority_name \<Rightarrow> stake_unit" where
  "weight c author =
     (case binary_search_by_key fst (voting_rights c) author of
        Inl _ \<Rightarrow> 0
      | Inr idx \<Rightarrow> snd (voting_rights c ! idx))"

definition committee_eq :: "committee \<Rightarrow> committee \<Rightarrow> bool" where
  "committee_eq c d \<longleftrightarrow> committee_epoch c = committee_epoch d \<and> voting_rights c = voting_rights d"

text \<open>\<open>pick\<close> stands for \<^verbatim>\<open>rand\<close>'s \<open>choose_multiple_weighted\<close> on a slice, a count and the state
  of the generator; \<open>None\<close> is its error, which the code unwraps.\<close>

type_synonym 'r weighted_choice =
  "(authority_name \<times> stake_unit) list \<Rightarrow> nat \<Rightarrow> 'r \<Rightarrow> ((authority_name \<times> stake_unit) list \<times> 'r) option"

definition choose_multiple_weighted ::
  "'r weighted_choice \<Rightarrow> (authority_name \<times> stake_unit) list \<Rightarrow> nat \<Rightarrow> 'r \<Rightarrow>
   (authority_name list \<times> 'r) option" where
  "choose_multiple_weighted pick items n rng =
     do {
       (chosen, rng') \<leftarrow> pick items n rng;
       Some (map fst chosen, rng')
     }"

definition sample :: "'r weighted_choice \<Rightarrow> committee \<Rightarrow> 'r \<Rightarrow> authority_name option" where
  "sample pick c rng =
     do {
       (chosen, _) \<leftarrow> choose_multiple_weighted pick (voting_rights c) 1 rng;
       (case chosen of [] \<Rightarrow> None | a # _ \<Rightarrow> Some a)
     }"

definition shuffle_by_stake_with_rng ::
  "'r weighted_choice \<Rightarrow> committee \<Rightarrow> authority_name list option \<Rightarrow> authority_name list option \<Rightarrow>
   'r \<Rightarrow> (authority_name list \<times> 'r) option" where
  "shuffle_by_stake_with_rng pick c preferences restrict_to rng =
     (let restricted = filter (\<lambda>(name, _). case restrict_to of
            Some r \<Rightarrow> List.member r name | None \<Rightarrow> True) (voting_rights c);
          (preferred, rest) = (case preferences of
            Some p \<Rightarrow> partition (\<lambda>(name, _). List.member p name) restricted
          | None \<Rightarrow> ([], restricted))
      in do {
        (first, rng1) \<leftarrow> choose_multiple_weighted pick preferred (length preferred) rng;
        (second, rng2) \<leftarrow> choose_multiple_weighted pick rest (length rest) rng1;
        Some (first @ second, rng2)
      })"

section \<open>The invariant the constructor establishes\<close>

definition committee_wf :: "committee \<Rightarrow> bool" where
  "committee_wf c \<longleftrightarrow> bt_wf (voting_rights c) \<and>
     sum_list (stakes c) = TOTAL_VOTING_POWER \<and>
     index_map c = map (\<lambda>(index, (addr, _)). (addr, index)) (List.enumerate 0 (voting_rights c)) \<and>
     map fst (expanded_keys c) = map fst (voting_rights c)"

text \<open>The sum that \<^verbatim>\<open>Committee::new\<close> compares with the total wraps at \<open>2 ^ 64\<close>. Voting powers are
  basis points, so on chain they are far below; this is the bound that excludes a wrapped sum.\<close>

definition stake_bounded :: "committee \<Rightarrow> bool" where
  "stake_bounded c \<longleftrightarrow> sum_list (map unat (stakes c)) < 2 ^ 64"

lemma those_map_fst:
  assumes "those (map (\<lambda>(a, _). map_option (Pair a) (f a)) xs) = Some ys"
  shows "map fst ys = map fst xs"
  using assms by (induction xs arbitrary: ys) (auto split: option.splits)

lemma map_fst_enumerate_index:
  "map fst (map (\<lambda>(i, (a, _)). (a, i)) (List.enumerate n xs)) = map fst xs"
  by (induction xs arbitrary: n) auto

lemma load_inner_tables:
  assumes "load_inner try_into rights = Some (keys, index)" and "distinct (map fst rights)"
  shows "map fst keys = map fst rights"
    and "index = map (\<lambda>(i, (a, _)). (a, i)) (List.enumerate 0 rights)"
proof -
  from assms(1) obtain ks where ks: "those (map (\<lambda>(a, _). map_option (Pair a) (try_into a)) rights) = Some ks"
    and keys: "keys = hm_collect ks"
    and index: "index = hm_collect (map (\<lambda>(i, (a, _)). (a, i)) (List.enumerate 0 rights))"
    by (auto simp: load_inner_def)
  have fst_ks: "map fst ks = map fst rights" by (rule those_map_fst [OF ks])
  with keys assms(2) show "map fst keys = map fst rights" by (simp add: hm_collect_distinct)
  show "index = map (\<lambda>(i, (a, _)). (a, i)) (List.enumerate 0 rights)"
    unfolding index by (rule hm_collect_distinct) (simp only: map_fst_enumerate_index assms(2))
qed

lemma sort_key_bt_wf: "bt_wf m \<Longrightarrow> sort_key fst m = m"
  by (rule sort_key_id_if_sorted) (auto simp: bt_wf_def strict_sorted_iff)

lemma committee_new_Some:
  assumes "committee_new try_into ep rights = Some c" and "bt_wf rights"
  shows "voting_rights c = rights \<and> committee_epoch c = ep \<and> committee_wf c"
proof -
  have srt: "sort_key fst rights = rights" by (rule sort_key_bt_wf [OF assms(2)])
  from assms(1) obtain keys index where li: "load_inner try_into rights = Some (keys, index)"
    and tot: "sum_list (map snd rights) = TOTAL_VOTING_POWER"
    and c: "c = \<lparr>committee_epoch = ep, voting_rights = rights,
                 expanded_keys = keys, index_map = index\<rparr>"
    by (auto simp: committee_new_def srt Let_def)
  from load_inner_tables [OF li bt_wf_distinct [OF assms(2)]] tot c assms(2) show ?thesis
    by (simp add: committee_wf_def stakes_def)
qed

section \<open>Weight lookup\<close>

lemma weight_map_of:
  assumes "committee_wf c"
  shows "weight c a = (case map_of (voting_rights c) a of None \<Rightarrow> 0 | Some s \<Rightarrow> s)"
  using binary_search_by_key_fst [of "voting_rights c" a] assms
  by (auto simp: weight_def committee_wf_def split: sum.splits)

lemma authority_exists_iff:
  assumes "committee_wf c"
  shows "authority_exists c a \<longleftrightarrow> a \<in> set (names c)"
proof -
  have "authority_exists c a \<longleftrightarrow> map_of (voting_rights c) a \<noteq> None"
    using binary_search_by_key_fst [of "voting_rights c" a] assms
    by (auto simp: authority_exists_def committee_wf_def split: sum.splits)
  then show ?thesis by (auto simp: names_def map_of_eq_None_iff)
qed

lemma weight_nonmember: "committee_wf c \<Longrightarrow> a \<notin> set (names c) \<Longrightarrow> weight c a = 0"
  by (auto simp: weight_map_of names_def map_of_eq_None_iff split: option.splits)
    (metis fst_conv image_eqI map_of_SomeD)

definition stake_of :: "committee \<Rightarrow> authority_name \<Rightarrow> nat" where
  "stake_of c a = unat (weight c a)"

lemma distinct_names: "committee_wf c \<Longrightarrow> distinct (names c)"
  by (simp add: committee_wf_def names_def bt_wf_distinct)

lemma map_weight_names: "committee_wf c \<Longrightarrow> map (weight c) (names c) = stakes c"
proof -
  assume wf: "committee_wf c"
  then have dist: "distinct (map fst (voting_rights c))"
    by (simp add: committee_wf_def bt_wf_distinct)
  have "weight c (fst p) = snd p" if "p \<in> set (voting_rights c)" for p
    using that dist by (simp add: weight_map_of [OF wf] map_of_SomeI_distinct [of _ "fst p" "snd p"])
  then show ?thesis by (simp add: names_def stakes_def)
qed

lemma total_stake:
  assumes "committee_wf c" "stake_bounded c"
  shows "sum (stake_of c) (set (names c)) = 10000"
proof -
  have "sum (stake_of c) (set (names c)) = sum_list (map (stake_of c) (names c))"
    using distinct_names [OF assms(1)] by (simp add: sum_list_distinct_set)
  also have "map (stake_of c) (names c) = map unat (stakes c)"
    by (simp add: stake_of_def flip: map_weight_names [OF assms(1)])
  also have "sum_list (map unat (stakes c)) = unat (sum_list (stakes c))"
    using assms(2) by (intro unat_sum_list [symmetric]) (simp add: stake_bounded_def)
  also have "\<dots> = 10000"
    using assms(1) by (simp add: committee_wf_def TOTAL_VOTING_POWER_def)
  finally show ?thesis .
qed

interpretation sui: weighted_quorum "\<lambda>c. committee_wf c \<and> stake_bounded c" "\<lambda>c. set (names c)"
  stake_of "\<lambda>c. unat (quorum_threshold c)" "\<lambda>c. unat (validity_threshold c)"
  by unfold_locales
    (auto simp: total_stake quorum_threshold_def validity_threshold_def voting_power_defs)


section \<open>Index tables\<close>

lemma enumerate_index_zip:
  "map (\<lambda>(i, (a, _)). (a, i)) (List.enumerate n xs) = zip (map fst xs) [n..<n + length xs]"
  by (induction xs arbitrary: n) (auto simp: upt_rec)

lemma map_of_zip_index:
  assumes "distinct ks"
  shows "map_of (zip ks [0..<length ks]) a = Some i \<longleftrightarrow> i < length ks \<and> ks ! i = a"
proof
  assume "map_of (zip ks [0..<length ks]) a = Some i"
  then have "(a, i) \<in> set (zip ks [0..<length ks])" by (rule map_of_SomeD)
  then show "i < length ks \<and> ks ! i = a" by (auto simp: in_set_zip)
next
  assume i: "i < length ks \<and> ks ! i = a"
  then have "map_of (zip ks [0..<length ks]) (ks ! i) = Some ([0..<length ks] ! i)"
    using assms by (intro map_of_zip_nth) auto
  with i show "map_of (zip ks [0..<length ks]) a = Some i" by simp
qed

lemma authority_index_iff:
  assumes "committee_wf c" "num_members c \<le> 2 ^ 32"
  shows "authority_index c a = Some i \<longleftrightarrow> authority_by_index c i = Some a"
proof -
  have dist: "distinct (map fst (voting_rights c))"
    using assms(1) by (simp add: committee_wf_def bt_wf_distinct)
  have idx: "index_map c = map (\<lambda>(i, (a, _)). (a, i)) (List.enumerate 0 (voting_rights c))"
    using assms(1) by (simp add: committee_wf_def)
  have look: "map_of (index_map c) a = Some k \<longleftrightarrow>
      k < length (voting_rights c) \<and> fst (voting_rights c ! k) = a" for k
    unfolding idx enumerate_index_zip using map_of_zip_index [OF dist, of a k] by auto
  have small: "unat (word_of_nat k :: u32) = k" if "k < length (voting_rights c)" for k
    using that assms(2) by (simp add: unat_of_nat num_members_def)
  show ?thesis
  proof
    assume "authority_index c a = Some i"
    then obtain k where k: "map_of (index_map c) a = Some k" and i: "i = word_of_nat k"
      by (auto simp: authority_index_def)
    from k look have "k < length (voting_rights c)" "fst (voting_rights c ! k) = a" by auto
    with i small show "authority_by_index c i = Some a"
      by (simp add: authority_by_index_def)
  next
    assume "authority_by_index c i = Some a"
    then have "map_of (index_map c) a = Some (unat i)"
      by (auto simp: authority_by_index_def look split: if_splits)
    then show "authority_index c a = Some i"
      by (simp add: authority_index_def)
  qed
qed

section \<open>Shuffling\<close>

lemma map_fst_filter_pair: "map fst (filter (\<lambda>(a, b). P a) xs) = filter P (map fst xs)"
  by (induction xs) auto

lemma choose_multiple_weighted_perm:
  assumes "\<exists>p rng'. pick items (length items) rng = Some (p, rng') \<and> mset p = mset items"
  shows "\<exists>as rng'. choose_multiple_weighted pick items (length items) rng = Some (as, rng') \<and>
    mset as = mset (map fst items)"
  using assms by (auto simp: choose_multiple_weighted_def)

section \<open>Properties\<close>

definition demo_committee :: committee where
  "demo_committee = \<lparr>committee_epoch = 5,
     voting_rights = [(1, 2500), (2, 2500), (3, 2500), (4, 2500)],
     expanded_keys = [(1, 11), (2, 12), (3, 13), (4, 14)],
     index_map = [(1, 0), (2, 1), (3, 2), (4, 3)]\<rparr>"

lemma demo_committee_wf: "committee_wf demo_committee"
  by (simp add: committee_wf_def demo_committee_def stakes_def TOTAL_VOTING_POWER_def)

lemma demo_committee_bounded: "stake_bounded demo_committee"
  by (simp add: stake_bounded_def demo_committee_def stakes_def)

lemma demo_weight: "weight demo_committee a = (if a \<in> {1, 2, 3, 4} then 2500 else 0)"
  by (simp add: weight_map_of [OF demo_committee_wf]) (simp add: demo_committee_def)

lemma demo_names: "names demo_committee = [1, 2, 3, 4]"
  by (simp add: names_def demo_committee_def)

lemma those_eq_None_iff: "those xs = None \<longleftrightarrow> None \<in> set xs"
  by (induction xs) (auto split: option.splits)

lemma load_inner_ok_iff:
  "load_inner try_into rights \<noteq> None \<longleftrightarrow> (\<forall>a \<in> fst ` set rights. try_into a \<noteq> None)"
  using those_eq_None_iff [of "map (\<lambda>(a, _). map_option (Pair a) (try_into a)) rights"]
  by (cases "those (map (\<lambda>(a, _). map_option (Pair a) (try_into a)) rights)")
    (force simp: load_inner_def image_iff)+

text \<open>
  C28. \<^verbatim>\<open>Committee::new\<close> returns (does not panic) exactly when the voting powers sum to
  \<^verbatim>\<open>TOTAL_VOTING_POWER\<close> and every name converts to a public key; the committee it returns has the
  given epoch and voting rights, and its rights are strictly ordered, its index table numbers them in
  order and its key table covers exactly the members.
\<close>

theorem committee_new_correct:
  assumes "bt_wf rights"
  shows "(committee_new try_into ep rights \<noteq> None \<longleftrightarrow>
      sum_list (map snd rights) = TOTAL_VOTING_POWER \<and> (\<forall>a \<in> fst ` set rights. try_into a \<noteq> None)) \<and>
    (\<forall>c. committee_new try_into ep rights = Some c \<longrightarrow>
      voting_rights c = rights \<and> committee_epoch c = ep \<and> committee_wf c)"
proof (intro conjI allI impI)
  show "committee_new try_into ep rights \<noteq> None \<longleftrightarrow>
      sum_list (map snd rights) = TOTAL_VOTING_POWER \<and> (\<forall>a \<in> fst ` set rights. try_into a \<noteq> None)"
    (is "?l \<longleftrightarrow> ?r")
  proof
    assume ?l
    then show ?r
      using load_inner_ok_iff [of try_into rights]
      by (auto simp: committee_new_def sort_key_bt_wf [OF assms] Let_def)
  next
    assume r: ?r
    then obtain li where li: "load_inner try_into rights = Some li"
      using load_inner_ok_iff [of try_into rights] by auto
    have "rights \<noteq> []"
      using r by (auto simp: TOTAL_VOTING_POWER_def)
    moreover have "list_ex (\<lambda>(_, s). s \<noteq> 0) rights"
    proof (rule ccontr)
      assume "\<not> list_ex (\<lambda>(_, s). s \<noteq> 0) rights"
      then have "\<forall>s \<in> set (map snd rights). s = 0" by (auto simp: list_ex_iff)
      then have "sum_list (map snd rights) = 0" by (induction rights) auto
      with r show False by (simp add: TOTAL_VOTING_POWER_def)
    qed
    ultimately show ?l
      using r li by (cases li) (simp add: committee_new_def sort_key_bt_wf [OF assms] Let_def)
  qed
qed (use committee_new_Some [OF _ assms] in auto)

theorem committee_new_correct_witness:
  "bt_wf [(1 :: nat, 2500 :: u64), (2, 2500), (3, 2500), (4, 2500)] \<and>
   committee_new (\<lambda>a. Some (a + 10)) 5 [(1, 2500), (2, 2500), (3, 2500), (4, 2500)] = Some demo_committee \<and>
   committee_wf demo_committee"
proof -
  have wf: "bt_wf [(1 :: nat, 2500 :: u64), (2, 2500), (3, 2500), (4, 2500)]" by simp
  have new: "committee_new (\<lambda>a. Some (a + 10)) 5 [(1, 2500), (2, 2500), (3, 2500), (4, 2500)]
      = Some demo_committee"
    by (simp add: committee_new_def load_inner_def demo_committee_def TOTAL_VOTING_POWER_def
        hm_collect_def)
  with wf show ?thesis using committee_new_correct [OF wf, of "\<lambda>a. Some (a + 10)" 5] by simp
qed

text \<open>
  The binary searches behind \<^verbatim>\<open>Committee::weight\<close> and \<^verbatim>\<open>Committee::authority_exists\<close> return what
  a lookup in the voting rights returns: the recorded power of a member, 0 for anybody else.
\<close>

lemma weight_is_lookup:
  assumes "committee_wf c"
  shows "weight c a = (case map_of (voting_rights c) a of None \<Rightarrow> 0 | Some s \<Rightarrow> s) \<and>
    (authority_exists c a \<longleftrightarrow> a \<in> set (names c))"
  using weight_map_of [OF assms] authority_exists_iff [OF assms] by simp

lemma weight_is_lookup_witness:
  "committee_wf demo_committee \<and> weight demo_committee 3 = 2500 \<and> weight demo_committee 9 = 0 \<and>
   \<not> authority_exists demo_committee 9"
  using weight_is_lookup [OF demo_committee_wf, of 3] weight_is_lookup [OF demo_committee_wf, of 9]
    demo_committee_wf
  by (simp add: demo_committee_def names_def)

text \<open>
  C29. \<^verbatim>\<open>authority_index\<close> and \<^verbatim>\<open>authority_by_index\<close> are inverse to each other on a committee of at
  most \<open>2 ^ 32\<close> members: the indices of a signers bitmap name exactly one authority each.
\<close>

theorem authority_index_roundtrip:
  assumes "committee_wf c" "num_members c \<le> 2 ^ 32"
  shows "authority_index c a = Some i \<longleftrightarrow> authority_by_index c i = Some a"
  using assms by (rule authority_index_iff)

theorem authority_index_roundtrip_witness:
  "committee_wf demo_committee \<and> num_members demo_committee \<le> 2 ^ 32 \<and>
   authority_index demo_committee 3 = Some 2 \<and> authority_by_index demo_committee 2 = Some 3"
proof -
  have n: "num_members demo_committee \<le> 2 ^ 32" by (simp add: num_members_def demo_committee_def)
  have "authority_by_index demo_committee 2 = Some 3"
    by (simp add: authority_by_index_def demo_committee_def)
  with authority_index_roundtrip [OF demo_committee_wf n, of 3 2] n demo_committee_wf
  show ?thesis by simp
qed

text \<open>
  When sampling as many elements as the slice has returns a permutation of the slice (the
  documented behaviour of \<^verbatim>\<open>choose_multiple_weighted\<close>), \<^verbatim>\<open>shuffle_by_stake_with_rng\<close> does not panic and
  returns every allowed authority exactly once, all preferred ones before all others.
\<close>

lemma shuffle_by_stake_permutes:
  assumes "\<forall>items rng. \<exists>p rng'. pick items (length items) rng = Some (p, rng') \<and> mset p = mset items"
  shows "\<exists>first second rng'.
    shuffle_by_stake_with_rng pick c preferences restrict_to rng = Some (first @ second, rng') \<and>
    mset first = mset (filter (\<lambda>a. (case restrict_to of None \<Rightarrow> True | Some r \<Rightarrow> a \<in> set r) \<and>
                                   (case preferences of None \<Rightarrow> False | Some p \<Rightarrow> a \<in> set p)) (names c)) \<and>
    mset second = mset (filter (\<lambda>a. (case restrict_to of None \<Rightarrow> True | Some r \<Rightarrow> a \<in> set r) \<and>
                                   \<not> (case preferences of None \<Rightarrow> False | Some p \<Rightarrow> a \<in> set p)) (names c))"
proof -
  let ?allow = "\<lambda>a. case restrict_to of None \<Rightarrow> True | Some r \<Rightarrow> a \<in> set r"
  let ?like = "\<lambda>a. case preferences of None \<Rightarrow> False | Some p \<Rightarrow> a \<in> set p"
  define preferred where "preferred = filter (\<lambda>(a, _). ?allow a \<and> ?like a) (voting_rights c)"
  define rest where "rest = filter (\<lambda>(a, _). ?allow a \<and> \<not> ?like a) (voting_rights c)"
  obtain first rng1 where f: "choose_multiple_weighted pick preferred (length preferred) rng = Some (first, rng1)"
      "mset first = mset (map fst preferred)"
    using choose_multiple_weighted_perm [of pick preferred rng] assms by blast
  obtain second rng2 where g: "choose_multiple_weighted pick rest (length rest) rng1 = Some (second, rng2)"
      "mset second = mset (map fst rest)"
    using choose_multiple_weighted_perm [of pick rest rng1] assms by blast
  have allow: "filter (\<lambda>(name, _). case restrict_to of Some r \<Rightarrow> List.member r name | None \<Rightarrow> True)
      (voting_rights c) = filter (\<lambda>(a, _). ?allow a) (voting_rights c)"
    by (rule filter_cong) (auto split: option.splits)
  have parts: "(case preferences of
        Some p \<Rightarrow> partition (\<lambda>(name, _). List.member p name) (filter (\<lambda>(a, _). ?allow a) (voting_rights c))
      | None \<Rightarrow> ([], filter (\<lambda>(a, _). ?allow a) (voting_rights c))) = (preferred, rest)"
    by (auto simp: preferred_def rest_def comp_def intro!: filter_cong split: option.splits)
  have "shuffle_by_stake_with_rng pick c preferences restrict_to rng = Some (first @ second, rng2)"
    by (simp only: shuffle_by_stake_with_rng_def allow parts Let_def f g prod.case Option.bind.bind_lunit)
  then show ?thesis
    using f(2) g(2) by (auto simp: preferred_def rest_def map_fst_filter_pair names_def)
qed

lemma shuffle_by_stake_permutes_witness:
  "(\<forall>items rng. \<exists>p rng'. Some (rev items, rng) = Some (p, rng' :: nat) \<and>
      mset p = mset (items :: (authority_name \<times> stake_unit) list)) \<and>
   shuffle_by_stake_with_rng (\<lambda>items n rng. Some (rev items, rng)) demo_committee (Some [2]) (Some [1, 2, 3]) (0 :: nat)
     = Some ([2, 3, 1], 0) \<and>
   (\<exists>first second rng'. Some ([2, 3, 1], 0) = Some (first @ second, rng' :: nat) \<and>
      mset first = {#2#} \<and> mset second = {#1, 3#})"
proof -
  have h: "\<forall>items rng. \<exists>p rng'. (\<lambda>items n rng. Some (rev items, rng)) items (length items) rng
      = Some (p, rng' :: nat) \<and> mset p = mset (items :: (authority_name \<times> stake_unit) list)"
    by simp
  have run: "shuffle_by_stake_with_rng (\<lambda>items n rng. Some (rev items, rng)) demo_committee (Some [2])
      (Some [1, 2, 3]) (0 :: nat) = Some ([2, 3, 1], 0)"
    by (simp add: shuffle_by_stake_with_rng_def choose_multiple_weighted_def demo_committee_def)
  from shuffle_by_stake_permutes [OF h, of demo_committee "Some [2]" "Some [1, 2, 3]" 0]
  have "\<exists>first second rng'. Some ([2, 3, 1], 0) = Some (first @ second, rng' :: nat) \<and>
      mset first = {#2#} \<and> mset second = {#1, 3#}"
    unfolding run by (simp add: demo_names)
  with run show ?thesis by simp
qed

end
