(* ===== verification/Quorum_Sign_Info.thy ===== *)
theory Quorum_Sign_Info
  imports Sui_Committee
begin

text \<open>
  Authority signatures and quorum certificates, \<^verbatim>\<open>crates/sui-types/src/crypto.rs\<close>:
  \<^verbatim>\<open>AuthoritySignInfo\<close>, \<^verbatim>\<open>AuthorityQuorumSignInfo\<close> and the \<^verbatim>\<open>VerificationObligation\<close> both are
  checked through. BLS aggregation and batch verification (\<^verbatim>\<open>fastcrypto\<close>) and the serialisation of
  the intent message (\<^verbatim>\<open>bcs\<close>) are arguments. A roaring bitmap is the increasing list of the indices
  its iterator yields.
\<close>

type_synonym authority_signature = nat
type_synonym aggregate_signature = "nat list"
type_synonym message = "nat list"

record bls_ops =
  agg_default :: aggregate_signature
  agg_add_signature :: "aggregate_signature \<Rightarrow> authority_signature \<Rightarrow> aggregate_signature option"
  agg_add_aggregate :: "aggregate_signature \<Rightarrow> aggregate_signature \<Rightarrow> aggregate_signature option"
  agg_aggregate :: "authority_signature list \<Rightarrow> aggregate_signature option"
  agg_batch_verify ::
    "aggregate_signature list \<Rightarrow> authority_public_key list list \<Rightarrow> message list \<Rightarrow> bool"

record auth_sign_info =
  si_epoch :: epoch_id
  si_authority :: authority_name
  si_signature :: authority_signature

record quorum_sign_info =
  qsi_epoch :: epoch_id
  qsi_signature :: aggregate_signature
  qsi_signers_map :: "u32 list"

text \<open>\<open>PartialEq\<close> of \<^verbatim>\<open>AuthoritySignInfo\<close> does not look at the signature.\<close>

definition auth_sign_info_eq :: "auth_sign_info \<Rightarrow> auth_sign_info \<Rightarrow> bool" where
  "auth_sign_info_eq a b \<longleftrightarrow> si_epoch a = si_epoch b \<and> si_authority a = si_authority b"

section \<open>Verification obligations\<close>

record verification_obligation =
  ob_messages :: "message list"
  ob_signatures :: "aggregate_signature list"
  ob_public_keys :: "authority_public_key list list"

definition obligation_default :: verification_obligation where
  "obligation_default = \<lparr>ob_messages = [], ob_signatures = [], ob_public_keys = []\<rparr>"

definition add_message ::
  "bls_ops \<Rightarrow> message \<Rightarrow> verification_obligation \<Rightarrow> nat \<times> verification_obligation" where
  "add_message bls msg ob =
     (let ob' = ob\<lparr>ob_signatures := ob_signatures ob @ [agg_default bls],
                   ob_public_keys := ob_public_keys ob @ [[]],
                   ob_messages := ob_messages ob @ [msg]\<rparr>
      in (length (ob_messages ob') - 1, ob'))"

text \<open>\<open>get_mut(i)\<close> on the two vectors, with the update to be made in place.\<close>

definition push_public_key ::
  "nat \<Rightarrow> authority_public_key \<Rightarrow> verification_obligation \<Rightarrow> verification_obligation option" where
  "push_public_key i pk ob =
     (if i < length (ob_public_keys ob)
      then Some (ob\<lparr>ob_public_keys := (ob_public_keys ob)[i := ob_public_keys ob ! i @ [pk]]\<rparr>)
      else None)"

definition push_signature ::
  "(aggregate_signature \<Rightarrow> aggregate_signature option) \<Rightarrow> sui_error \<Rightarrow> string \<Rightarrow> nat \<Rightarrow>
   verification_obligation \<Rightarrow> sui_error + verification_obligation" where
  "push_signature add missing err i ob =
     (if i < length (ob_signatures ob)
      then (case add (ob_signatures ob ! i) of
              None \<Rightarrow> Inl (InvalidSignature err)
            | Some s \<Rightarrow> Inr (ob\<lparr>ob_signatures := (ob_signatures ob)[i := s]\<rparr>))
      else Inl missing)"

definition verify_all :: "bls_ops \<Rightarrow> verification_obligation \<Rightarrow> sui_error + unit" where
  "verify_all bls ob =
     (if agg_batch_verify bls (ob_signatures ob) (ob_public_keys ob) (ob_messages ob)
      then Inr ()
      else Inl (InvalidSignature ''Failed to batch verify aggregated auth sig''))"

section \<open>A single authority signature\<close>

definition sign_info_obligation ::
  "bls_ops \<Rightarrow> committee \<Rightarrow> auth_sign_info \<Rightarrow> nat \<Rightarrow> verification_obligation \<Rightarrow>
   sui_error + verification_obligation" where
  "sign_info_obligation bls c a message_index ob =
     and_then (ensure (si_epoch a = committee_epoch c) (WrongEpoch (committee_epoch c) (si_epoch a)))
       (\<lambda>_. and_then (ensure (weight c (si_authority a) > 0)
                     (UnknownSigner (Some (si_authority a)) None c))
       (\<lambda>_. if message_index < length (ob_public_keys ob)
        then and_then (public_key c (si_authority a))
          (\<lambda>pk. and_then (ok_or InvalidAddress (push_public_key message_index pk ob))
          (\<lambda>ob1. push_signature (\<lambda>s. agg_add_signature bls s (si_signature a)) InvalidAddress
                   ''Fail to aggregator auth sig'' message_index ob1))
        else Inl InvalidAddress))"

definition sign_info_verify_secure ::
  "bls_ops \<Rightarrow> (epoch_id \<Rightarrow> message) \<Rightarrow> committee \<Rightarrow> auth_sign_info \<Rightarrow> sui_error + unit" where
  "sign_info_verify_secure bls msg c a =
     (let (idx, ob) = add_message bls (msg (si_epoch a)) obligation_default
      in and_then (sign_info_obligation bls c a idx ob) (verify_all bls))"

section \<open>Quorum certificates\<close>

definition qsi_quorum_threshold :: "bool \<Rightarrow> committee \<Rightarrow> stake_unit" where
  "qsi_quorum_threshold STRONG c = threshold STRONG c"

text \<open>The loop over \<open>signers_map\<close>: the accumulated weight and the selected public keys.\<close>

fun collect_signers ::
  "committee \<Rightarrow> u32 list \<Rightarrow> stake_unit \<Rightarrow> authority_public_key list \<Rightarrow>
   sui_error + (stake_unit \<times> authority_public_key list)" where
  "collect_signers c [] w pks = Inr (w, pks)"
| "collect_signers c (i # is) w pks =
     and_then (ok_or (UnknownSigner None (Some i) c) (authority_by_index c i))
       (\<lambda>a. and_then (ensure (weight c a > 0) (UnknownSigner (Some a) (Some i) c))
       (\<lambda>_. and_then (public_key c a)
       (\<lambda>pk. collect_signers c is (w + weight c a) (pks @ [pk]))))"

definition quorum_obligation ::
  "bls_ops \<Rightarrow> bool \<Rightarrow> committee \<Rightarrow> quorum_sign_info \<Rightarrow> nat \<Rightarrow> verification_obligation \<Rightarrow>
   sui_error + verification_obligation" where
  "quorum_obligation bls STRONG c q message_index ob =
     and_then (ensure (qsi_epoch q = committee_epoch c)
                 (WrongEpoch (committee_epoch c) (qsi_epoch q)))
       (\<lambda>_. and_then (push_signature (\<lambda>s. agg_add_aggregate bls s (qsi_signature q))
                        InvalidAuthenticator ''Signature Aggregation failed'' message_index ob)
       (\<lambda>ob1. if message_index < length (ob_public_keys ob1)
        then and_then (collect_signers c (qsi_signers_map q) 0 (ob_public_keys ob1 ! message_index))
          (\<lambda>(w, pks). and_then (ensure (w \<ge> qsi_quorum_threshold STRONG c) CertificateRequiresQuorum)
          (\<lambda>_. Inr (ob1\<lparr>ob_public_keys := (ob_public_keys ob1)[message_index := pks]\<rparr>)))
        else Inl InvalidAuthenticator))"

definition quorum_verify_secure ::
  "bls_ops \<Rightarrow> bool \<Rightarrow> (epoch_id \<Rightarrow> message) \<Rightarrow> committee \<Rightarrow> quorum_sign_info \<Rightarrow> sui_error + unit" where
  "quorum_verify_secure bls STRONG msg c q =
     (let (idx, ob) = add_message bls (msg (qsi_epoch q)) obligation_default
      in and_then (quorum_obligation bls STRONG c q idx ob) (verify_all bls))"

text \<open>Inserting the index of every signer into the bitmap, in the order of the keys.\<close>

fun signer_indices ::
  "committee \<Rightarrow> authority_name list \<Rightarrow> u32 list \<Rightarrow> sui_error + u32 list" where
  "signer_indices c [] bm = Inr bm"
| "signer_indices c (pk # pks) bm =
     and_then (ok_or (UnknownSigner (Some pk) None c) (authority_index c pk))
       (\<lambda>i. signer_indices c pks (insort_insert i bm))"

definition new_from_auth_sign_infos ::
  "bls_ops \<Rightarrow> bool \<Rightarrow> auth_sign_info list \<Rightarrow> committee \<Rightarrow> sui_error + quorum_sign_info" where
  "new_from_auth_sign_infos bls STRONG infos c =
     and_then (ensure (list_all (\<lambda>a. si_epoch a = committee_epoch c) infos)
        (InvalidSignature ''All signatures must be from the same epoch as the committee''))
       (\<lambda>_. and_then (ensure (sum_list (map (\<lambda>a. weight c (si_authority a)) infos)
                               \<ge> qsi_quorum_threshold STRONG c)
        (InvalidSignature ''Signatures don't have enough stake to form a quorum''))
       (\<lambda>_. let sigs = fold (\<lambda>a. bt_insert (si_authority a) (si_signature a)) infos []
        in and_then (signer_indices c (map fst sigs) [])
       (\<lambda>bm. and_then (ok_or (InvalidSignature ''aggregation'') (agg_aggregate bls (map snd sigs)))
       (\<lambda>agg. Inr \<lparr>qsi_epoch = committee_epoch c, qsi_signature = agg, qsi_signers_map = bm\<rparr>))))"

definition qsi_authorities :: "committee \<Rightarrow> quorum_sign_info \<Rightarrow> (sui_error + authority_name) list" where
  "qsi_authorities c q =
     map (\<lambda>i. ok_or InvalidAuthenticator (authority_by_index c i)) (qsi_signers_map q)"


section \<open>What a verified certificate guarantees\<close>

definition signers :: "committee \<Rightarrow> quorum_sign_info \<Rightarrow> authority_name set" where
  "signers c q = {a. \<exists>i \<in> set (qsi_signers_map q). authority_by_index c i = Some a}"

lemma authority_by_index_member:
  "authority_by_index c i = Some a \<Longrightarrow> a \<in> set (names c)"
  by (auto simp: authority_by_index_def names_def split: if_splits)

lemma authority_by_index_inj:
  assumes "committee_wf c" "authority_by_index c i = Some a" "authority_by_index c j = Some a"
  shows "i = j"
proof -
  from assms have bounds: "unat i < length (names c)" "unat j < length (names c)"
    and eq: "names c ! unat i = names c ! unat j"
    by (auto simp: authority_by_index_def names_def split: if_splits)
  with distinct_names [OF assms(1)] have "unat i = unat j"
    by (simp add: nth_eq_iff_index_eq)
  then show ?thesis by (rule word_eq_unatI)
qed

lemma collect_signers_Inr:
  assumes "collect_signers c is w pks = Inr (w', pks')"
  shows "\<exists>as ks. map (authority_by_index c) is = map Some as \<and>
    map (public_key c) as = map Inr ks \<and> (\<forall>a \<in> set as. weight c a > 0) \<and>
    w' = w + sum_list (map (weight c) as) \<and> pks' = pks @ ks"
  using assms
proof (induction c "is" w pks rule: collect_signers.induct)
  case (2 c i "is" w pks)
  then obtain a pk where a: "authority_by_index c i = Some a" "weight c a > 0"
      "public_key c a = Inr pk"
    and rest: "collect_signers c is (w + weight c a) (pks @ [pk]) = Inr (w', pks')"
    by auto
  from 2(1) [OF rest] a obtain as ks where
    "map (authority_by_index c) is = map Some as" "map (public_key c) as = map Inr ks"
    "\<forall>a \<in> set as. weight c a > 0" "w' = w + weight c a + sum_list (map (weight c) as)"
    "pks' = (pks @ [pk]) @ ks"
    by auto
  with a show ?case
    by (intro exI [of _ "a # as"] exI [of _ "pk # ks"]) (auto simp: add.assoc)
qed simp

lemma distinct_signers:
  assumes "committee_wf c" "distinct is" "map (authority_by_index c) is = map Some as"
  shows "distinct as"
  using assms(2,3)
proof (induction "is" arbitrary: as)
  case (Cons i "is")
  then obtain a as' where as: "as = a # as'" and a: "authority_by_index c i = Some a"
    and rest: "map (authority_by_index c) is = map Some as'"
    by (cases as) auto
  have "a \<notin> set as'"
  proof
    assume "a \<in> set as'"
    then have "Some a \<in> set (map (authority_by_index c) is)" by (simp add: rest)
    then obtain j where "j \<in> set is" "authority_by_index c j = Some a" by auto
    with Cons.prems(1) authority_by_index_inj [OF assms(1) a] show False by auto
  qed
  with Cons rest as show ?case by simp
qed simp

text \<open>Below the total voting power the accumulated weight does not wrap.\<close>

lemma unat_weight_sum:
  assumes "committee_wf c" "stake_bounded c" "distinct as" "set as \<subseteq> set (names c)"
  shows "unat (sum_list (map (weight c) as)) = sum (stake_of c) (set as)"
proof -
  have eq: "sum_list (map unat (map (weight c) as)) = sum (stake_of c) (set as)"
    using assms(3) by (simp add: sum_list_distinct_set stake_of_def comp_def)
  also have "\<dots> \<le> 10000"
    using sui.weight_le_total [of c "set as"] assms by (simp add: total_stake)
  finally have "sum_list (map unat (map (weight c) as)) < 2 ^ LENGTH(64)" by simp
  from unat_sum_list [OF this] eq show ?thesis by simp
qed

lemma quorum_obligation_Inr:
  assumes "quorum_obligation bls S c q 0 ob = Inr ob'"
    and "ob = \<lparr>ob_messages = [m], ob_signatures = [s], ob_public_keys = [[]]\<rparr>"
  shows "\<exists>as ks agg. map (authority_by_index c) (qsi_signers_map q) = map Some as \<and>
    map (public_key c) as = map Inr ks \<and> threshold S c \<le> sum_list (map (weight c) as) \<and>
    qsi_epoch q = committee_epoch c \<and> agg_add_aggregate bls s (qsi_signature q) = Some agg \<and>
    ob' = \<lparr>ob_messages = [m], ob_signatures = [agg], ob_public_keys = [ks]\<rparr>"
proof -
  from assms obtain agg w pks where agg: "agg_add_aggregate bls s (qsi_signature q) = Some agg"
    and ep: "qsi_epoch q = committee_epoch c"
    and coll: "collect_signers c (qsi_signers_map q) 0 [] = Inr (w, pks)"
    and w: "threshold S c \<le> w"
    and ob': "ob' = \<lparr>ob_messages = [m], ob_signatures = [agg], ob_public_keys = [pks]\<rparr>"
    by (auto simp: quorum_obligation_def push_signature_def qsi_quorum_threshold_def
        split: option.splits if_splits)
  from collect_signers_Inr [OF coll] obtain as ks where
    "map (authority_by_index c) (qsi_signers_map q) = map Some as"
    "map (public_key c) as = map Inr ks" "w = sum_list (map (weight c) as)" "pks = ks"
    by auto
  with agg ep w ob' show ?thesis by blast
qed

lemma quorum_verify_secure_sound:
  assumes "quorum_verify_secure bls S msg c q = Inr u"
    and "committee_wf c" "stake_bounded c" "distinct (qsi_signers_map q)"
  shows "\<exists>as ks agg. set as = signers c q \<and> distinct as \<and>
    map (public_key c) as = map Inr ks \<and>
    unat (threshold S c) \<le> sum (stake_of c) (signers c q) \<and>
    qsi_epoch q = committee_epoch c \<and>
    agg_add_aggregate bls (agg_default bls) (qsi_signature q) = Some agg \<and>
    agg_batch_verify bls [agg] [ks] [msg (committee_epoch c)]"
proof -
  from assms(1) obtain ob' where ob: "quorum_obligation bls S c q 0
      \<lparr>ob_messages = [msg (qsi_epoch q)], ob_signatures = [agg_default bls], ob_public_keys = [[]]\<rparr> = Inr ob'"
    and ver: "verify_all bls ob' = Inr ()"
    by (auto simp: quorum_verify_secure_def add_message_def obligation_default_def Let_def)
  from quorum_obligation_Inr [OF ob refl] obtain as ks agg where
    as: "map (authority_by_index c) (qsi_signers_map q) = map Some as"
    and ks: "map (public_key c) as = map Inr ks"
    and thr: "threshold S c \<le> sum_list (map (weight c) as)"
    and ep: "qsi_epoch q = committee_epoch c"
    and agg: "agg_add_aggregate bls (agg_default bls) (qsi_signature q) = Some agg"
    and ob': "ob' = \<lparr>ob_messages = [msg (qsi_epoch q)], ob_signatures = [agg], ob_public_keys = [ks]\<rparr>"
    by blast
  have "set (map Some as) = authority_by_index c ` set (qsi_signers_map q)"
    by (simp flip: as)
  then have set_as: "set as = signers c q"
    unfolding signers_def by (auto simp: image_iff) (metis image_eqI option.inject imageE)+
  have dist: "distinct as" by (rule distinct_signers [OF assms(2,4) as])
  have sub: "set as \<subseteq> set (names c)"
    unfolding set_as signers_def by (auto dest: authority_by_index_member)
  have "unat (threshold S c) \<le> sum (stake_of c) (set as)"
    using thr unat_weight_sum [OF assms(2,3) dist sub] by (simp add: word_le_nat_alt)
  with set_as dist ks ep agg ver ob' show ?thesis
    by (auto simp: verify_all_def split: if_splits)
qed

lemma signers_members: "signers c q \<subseteq> set (names c)"
  by (auto simp: signers_def dest: authority_by_index_member)


section \<open>Assembling a certificate\<close>

lemma signer_indices_set:
  "signer_indices c pks bm = Inr bm' \<Longrightarrow>
   set bm' = set bm \<union> {i. \<exists>pk \<in> set pks. authority_index c pk = Some i}"
  by (induction c pks bm rule: signer_indices.induct) (auto simp: set_insort_insert)

lemma signer_indices_sorted:
  "signer_indices c pks bm = Inr bm' \<Longrightarrow> sorted bm \<Longrightarrow> distinct bm \<Longrightarrow> sorted bm' \<and> distinct bm'"
  by (induction c pks bm rule: signer_indices.induct)
    (auto simp: sorted_insort_insert distinct_insort_insert)

lemma signer_indices_known:
  "signer_indices c pks bm = Inr bm' \<Longrightarrow> pk \<in> set pks \<Longrightarrow> authority_index c pk \<noteq> None"
  by (induction c pks bm rule: signer_indices.induct) auto

lemma keys_fold_bt_insert:
  "fst ` set (fold (\<lambda>a. bt_insert (f a) (g a)) xs m) = fst ` set m \<union> f ` set xs"
  by (induction xs arbitrary: m) auto

lemma new_from_auth_sign_infos_signers:
  assumes "new_from_auth_sign_infos bls S infos c = Inr q"
    and "committee_wf c" "num_members c \<le> 2 ^ 32"
  shows "signers c q = si_authority ` set infos" and "sorted (qsi_signers_map q)"
    and "distinct (qsi_signers_map q)" and "qsi_epoch q = committee_epoch c"
proof -
  let ?sigs = "fold (\<lambda>a. bt_insert (si_authority a) (si_signature a)) infos []"
  from assms(1) have bm: "signer_indices c (map fst ?sigs) [] = Inr (qsi_signers_map q)"
    and ep: "qsi_epoch q = committee_epoch c"
    by (auto simp: new_from_auth_sign_infos_def Let_def)
  have keys: "set (map fst ?sigs) = si_authority ` set infos"
    using keys_fold_bt_insert [of si_authority si_signature infos "[]"] by simp
  from signer_indices_sorted [OF bm] show "sorted (qsi_signers_map q)" "distinct (qsi_signers_map q)"
    by auto
  show "qsi_epoch q = committee_epoch c" by (rule ep)
  note bij = authority_index_iff [OF assms(2,3)]
  have "a \<in> signers c q \<longleftrightarrow> a \<in> set (map fst ?sigs)" for a
  proof
    assume "a \<in> signers c q"
    then obtain i pk where "authority_by_index c i = Some a" "pk \<in> set (map fst ?sigs)"
      "authority_index c pk = Some i"
      unfolding signers_def using signer_indices_set [OF bm] by auto
    then show "a \<in> set (map fst ?sigs)" using bij by simp
  next
    assume a: "a \<in> set (map fst ?sigs)"
    then obtain i where "authority_index c a = Some i"
      using signer_indices_known [OF bm] by blast
    with a bij show "a \<in> signers c q"
      unfolding signers_def using signer_indices_set [OF bm] by auto
  qed
  with keys show "signers c q = si_authority ` set infos" by blast
qed

section \<open>Properties\<close>

definition demo_bls :: bls_ops where
  "demo_bls = \<lparr>agg_default = [], agg_add_signature = (\<lambda>s x. Some (s @ [x])),
     agg_add_aggregate = (\<lambda>s t. Some (s @ t)), agg_aggregate = Some,
     agg_batch_verify = (\<lambda>sigs pks msgs. list_all2 (\<lambda>s p. s = p) sigs pks)\<rparr>"

abbreviation (input) demo_cert :: "u32 list \<Rightarrow> nat list \<Rightarrow> quorum_sign_info" where
  "demo_cert is keys \<equiv> \<lparr>qsi_epoch = 5, qsi_signature = keys, qsi_signers_map = is\<rparr>"

lemmas demo_verify_defs = quorum_verify_secure_def quorum_obligation_def add_message_def
  push_signature_def verify_all_def push_public_key_def authority_by_index_def public_key_def
  obligation_default_def qsi_quorum_threshold_def threshold_def quorum_threshold_def
  validity_threshold_def QUORUM_THRESHOLD_def VALIDITY_THRESHOLD_def demo_bls_def demo_weight

lemma demo_cert_verifies:
  "quorum_verify_secure demo_bls True (\<lambda>e. [7]) demo_committee (demo_cert [0, 1, 2] [11, 12, 13]) = Inr ()"
  "quorum_verify_secure demo_bls True (\<lambda>e. [8]) demo_committee (demo_cert [1, 2, 3] [12, 13, 14]) = Inr ()"
  by (simp_all add: demo_verify_defs del: and_then_eq_Inr ensure_eq_Inr ok_or_eq_Inr,
      simp_all add: demo_committee_def ensure_def ok_or_def verify_all_def)

lemma demo_signers:
  "signers demo_committee (demo_cert [0, 1, 2] s) = {1, 2, 3}"
  "signers demo_committee (demo_cert [1, 2, 3] s) = {2, 3, 4}"
  by (auto simp: signers_def authority_by_index_def demo_committee_def)

text \<open>
  C10. Two certificates with strong thresholds that both pass \<^verbatim>\<open>verify_secure\<close> against the same
  committee share a signer outside every set of authorities whose stake is below the validity
  threshold: two conflicting certificates need a third of the stake to misbehave.
\<close>

theorem certificates_share_correct_signer:
  assumes "committee_wf c" "stake_bounded c"
    and "quorum_verify_secure bls True msg c q = Inr u" "distinct (qsi_signers_map q)"
    and "quorum_verify_secure bls True msg' c q' = Inr u'" "distinct (qsi_signers_map q')"
    and "sum (stake_of c) (F \<inter> set (names c)) < unat (validity_threshold c)"
  shows "\<exists>a. a \<in> signers c q \<and> a \<in> signers c q' \<and> a \<notin> F"
proof -
  have "unat (quorum_threshold c) \<le> sum (stake_of c) (signers c q)"
    "unat (quorum_threshold c) \<le> sum (stake_of c) (signers c q')"
    using quorum_verify_secure_sound [OF assms(3,1,2,4)] quorum_verify_secure_sound [OF assms(5,1,2,6)]
    by (auto simp: threshold_def quorum_threshold_def)
  then show ?thesis
    using sui.quorum_intersection_correct [of c "signers c q" "signers c q'" F] assms(1,2,7)
      signers_members [of c] by blast
qed

theorem certificates_share_correct_signer_witness:
  "\<exists>a. a \<in> signers demo_committee (demo_cert [0, 1, 2] [11, 12, 13]) \<and>
       a \<in> signers demo_committee (demo_cert [1, 2, 3] [12, 13, 14]) \<and> a \<notin> {2}"
proof (rule certificates_share_correct_signer [OF demo_committee_wf demo_committee_bounded
    demo_cert_verifies(1) _ demo_cert_verifies(2)])
  show "sum (stake_of demo_committee) ({2} \<inter> set (names demo_committee))
      < unat (validity_threshold demo_committee)"
    by (simp add: demo_names stake_of_def demo_weight validity_threshold_def VALIDITY_THRESHOLD_def)
qed simp_all

text \<open>
  C11. A certificate that passes \<^verbatim>\<open>verify_secure\<close> has the epoch of the committee, names only members,
  each once, whose stake reaches the threshold of its strength, and its aggregate signature has been
  verified against exactly the public keys of these members on the message of its epoch.
\<close>

theorem verified_certificate:
  assumes "quorum_verify_secure bls S msg c q = Inr u"
    and "committee_wf c" "stake_bounded c" "distinct (qsi_signers_map q)"
  shows "\<exists>as ks agg. set as = signers c q \<and> distinct as \<and> set as \<subseteq> set (names c) \<and>
    map (public_key c) as = map Inr ks \<and>
    unat (threshold S c) \<le> sum (stake_of c) (signers c q) \<and>
    qsi_epoch q = committee_epoch c \<and>
    agg_add_aggregate bls (agg_default bls) (qsi_signature q) = Some agg \<and>
    agg_batch_verify bls [agg] [ks] [msg (qsi_epoch q)]"
  using quorum_verify_secure_sound [OF assms] signers_members [of c q] by metis

theorem verified_certificate_witness:
  "\<exists>as ks agg. set as = signers demo_committee (demo_cert [0, 1, 2] [11, 12, 13]) \<and> distinct as \<and>
    map (public_key demo_committee) as = map Inr ks \<and>
    agg_add_aggregate demo_bls (agg_default demo_bls) [11, 12, 13] = Some agg \<and>
    agg_batch_verify demo_bls [agg] [ks] [[7]]"
  using verified_certificate [OF demo_cert_verifies(1) demo_committee_wf demo_committee_bounded] by auto

end
