(* ===== verification/Stake_Aggregator.thy ===== *)
theory Stake_Aggregator
  imports Quorum_Sign_Info
begin

text \<open>
  \<^verbatim>\<open>crates/sui-core/src/stake_aggregator.rs\<close>: counting the stake of validators that voted for one
  value (\<^verbatim>\<open>StakeAggregator\<close>), for several values with signatures (\<^verbatim>\<open>MultiStakeAggregator\<close>) and for
  several values when a validator may vote more than once (\<^verbatim>\<open>GenericMultiStakeAggregator\<close>). The const
  generic \<open>STRENGTH\<close> is an argument; the message an envelope carries enters only through its
  serialisation.
\<close>

record 's stake_aggregator =
  agg_data :: "(authority_name \<times> 's) list"
  agg_total_votes :: stake_unit
  agg_committee :: committee

datatype 'cert insert_result =
    QuorumReached 'cert
  | Failed sui_error
  | NotEnoughVotes stake_unit "authority_name list"

section \<open>StakeAggregator\<close>

definition agg_new :: "committee \<Rightarrow> 's stake_aggregator" where
  "agg_new c = \<lparr>agg_data = [], agg_total_votes = 0, agg_committee = c\<rparr>"

text \<open>The equality \<open>eq\<close> is the \<open>Eq\<close> instance of the vote type.\<close>

definition insert_generic ::
  "bool \<Rightarrow> ('s \<Rightarrow> 's \<Rightarrow> bool) \<Rightarrow> authority_name \<Rightarrow> 's \<Rightarrow> 's stake_aggregator \<Rightarrow>
   (authority_name \<times> 's) list insert_result \<times> 's stake_aggregator" where
  "insert_generic STRENGTH eq authority s agg =
     (case map_of (agg_data agg) authority of
        Some oc \<Rightarrow> (Failed (StakeAggregatorRepeatedSigner authority (eq oc s)), agg)
      | None \<Rightarrow>
          let agg1 = agg\<lparr>agg_data := AList.update authority s (agg_data agg)\<rparr>;
              votes = weight (agg_committee agg1) authority
          in if votes > 0
             then let agg2 = agg1\<lparr>agg_total_votes := agg_total_votes agg1 + votes\<rparr>
                  in if agg_total_votes agg2 \<ge> threshold STRENGTH (agg_committee agg2)
                     then (QuorumReached (agg_data agg2), agg2)
                     else (NotEnoughVotes 0 [], agg2)
             else (Failed InvalidAuthenticator, agg1))"

definition agg_from_iter ::
  "bool \<Rightarrow> ('s \<Rightarrow> 's \<Rightarrow> bool) \<Rightarrow> committee \<Rightarrow> (authority_name \<times> 's) list \<Rightarrow> 's stake_aggregator" where
  "agg_from_iter STRENGTH eq c votes =
     fold (\<lambda>(authority, s) this. snd (insert_generic STRENGTH eq authority s this)) votes (agg_new c)"

definition agg_contains_key :: "authority_name \<Rightarrow> 's stake_aggregator \<Rightarrow> bool" where
  "agg_contains_key authority agg \<longleftrightarrow> map_of (agg_data agg) authority \<noteq> None"

definition agg_keys :: "'s stake_aggregator \<Rightarrow> authority_name list" where
  "agg_keys agg = map fst (agg_data agg)"

definition has_quorum :: "bool \<Rightarrow> 's stake_aggregator \<Rightarrow> bool" where
  "has_quorum STRENGTH agg \<longleftrightarrow> agg_total_votes agg \<ge> threshold STRENGTH (agg_committee agg)"

definition validator_sig_count :: "'s stake_aggregator \<Rightarrow> nat" where
  "validator_sig_count agg = length (agg_data agg)"

text \<open>The fallback when the aggregate does not verify: every recorded signature is checked on its
  own, and the bad ones are removed with their stake.\<close>

fun remove_bad_votes ::
  "bls_ops \<Rightarrow> (epoch_id \<Rightarrow> message) \<Rightarrow> (authority_name \<times> auth_sign_info) list \<Rightarrow>
   auth_sign_info stake_aggregator \<Rightarrow> stake_unit \<Rightarrow> authority_name list \<Rightarrow>
   auth_sign_info stake_aggregator \<times> stake_unit \<times> authority_name list" where
  "remove_bad_votes bls msg [] agg bad_votes bad_authorities = (agg, bad_votes, bad_authorities)"
| "remove_bad_votes bls msg ((name, sig) # rest) agg bad_votes bad_authorities =
     (case sign_info_verify_secure bls msg (agg_committee agg) sig of
        Inl err \<Rightarrow>
          let votes = weight (agg_committee agg) name
          in remove_bad_votes bls msg rest
               (agg\<lparr>agg_data := AList.delete name (agg_data agg),
                    agg_total_votes := agg_total_votes agg - votes\<rparr>)
               (bad_votes + votes) (bad_authorities @ [name])
      | Inr _ \<Rightarrow> remove_bad_votes bls msg rest agg bad_votes bad_authorities)"

definition agg_insert ::
  "bls_ops \<Rightarrow> bool \<Rightarrow> (epoch_id \<Rightarrow> message) \<Rightarrow> auth_sign_info \<Rightarrow> auth_sign_info stake_aggregator \<Rightarrow>
   quorum_sign_info insert_result \<times> auth_sign_info stake_aggregator" where
  "agg_insert bls STRENGTH msg sig agg =
     (if committee_epoch (agg_committee agg) \<noteq> si_epoch sig
      then (Failed (WrongEpoch (committee_epoch (agg_committee agg)) (si_epoch sig)), agg)
      else case insert_generic STRENGTH auth_sign_info_eq (si_authority sig) sig agg of
        (QuorumReached _, agg1) \<Rightarrow>
          (case new_from_auth_sign_infos bls STRENGTH (map snd (agg_data agg1)) (agg_committee agg1) of
             Inr aggregated \<Rightarrow>
               (case quorum_verify_secure bls STRENGTH msg (agg_committee agg1) aggregated of
                  Inr _ \<Rightarrow> (QuorumReached aggregated, agg1)
                | Inl _ \<Rightarrow>
                    let (agg2, bad_votes, bad_authorities) =
                          remove_bad_votes bls msg (agg_data agg1) agg1 0 []
                    in (NotEnoughVotes bad_votes bad_authorities, agg2))
           | Inl err \<Rightarrow> (Failed err, agg1))
      | (Failed err, agg1) \<Rightarrow> (Failed err, agg1)
      | (NotEnoughVotes bad_votes bad_authorities, agg1) \<Rightarrow>
          (NotEnoughVotes bad_votes bad_authorities, agg1))"

definition is_quorum_reached :: "'cert insert_result \<Rightarrow> bool" where
  "is_quorum_reached r = (case r of QuorumReached _ \<Rightarrow> True | _ \<Rightarrow> False)"

section \<open>MultiStakeAggregator\<close>

record ('k, 'v) multi_stake_aggregator =
  msa_committee :: committee
  msa_stake_maps :: "('k \<times> ('v \<times> auth_sign_info stake_aggregator)) list"

definition msa_new :: "committee \<Rightarrow> ('k, 'v) multi_stake_aggregator" where
  "msa_new c = \<lparr>msa_committee = c, msa_stake_maps = []\<rparr>"

definition unique_key_count :: "('k, 'v) multi_stake_aggregator \<Rightarrow> nat" where
  "unique_key_count m = length (msa_stake_maps m)"

definition msa_total_votes :: "('k, 'v) multi_stake_aggregator \<Rightarrow> stake_unit" where
  "msa_total_votes m = sum_list (map (\<lambda>(_, (_, agg)). agg_total_votes agg) (msa_stake_maps m))"

definition msa_insert ::
  "bls_ops \<Rightarrow> bool \<Rightarrow> ('v \<Rightarrow> epoch_id \<Rightarrow> message) \<Rightarrow> 'k \<Rightarrow> 'v \<Rightarrow> auth_sign_info \<Rightarrow>
   ('k, 'v) multi_stake_aggregator \<Rightarrow>
   quorum_sign_info insert_result \<times> ('k, 'v) multi_stake_aggregator" where
  "msa_insert bls STRENGTH to_msg k v sig m =
     (case map_of (msa_stake_maps m) k of
        Some (v0, entry) \<Rightarrow>
          let (result, entry') = agg_insert bls STRENGTH (to_msg v) sig entry
          in (result, m\<lparr>msa_stake_maps := AList.update k (v0, entry') (msa_stake_maps m)\<rparr>)
      | None \<Rightarrow>
          let (result, new_entry) = agg_insert bls STRENGTH (to_msg v) sig (agg_new (msa_committee m))
          in (case result of
                Failed _ \<Rightarrow> (result, m)
              | _ \<Rightarrow> (result,
                       m\<lparr>msa_stake_maps := AList.update k (v, new_entry) (msa_stake_maps m)\<rparr>)))"

definition get_all_unique_values ::
  "('k::linorder, 'v) multi_stake_aggregator \<Rightarrow> ('k \<times> (authority_name list \<times> stake_unit)) list" where
  "get_all_unique_values m =
     fold (\<lambda>(k, (_, s)). bt_insert k (agg_keys s, agg_total_votes s)) (msa_stake_maps m) []"

definition authorities_for_key ::
  "'k \<Rightarrow> ('k, 'v) multi_stake_aggregator \<Rightarrow> authority_name list option" where
  "authorities_for_key k m = map_option (\<lambda>(_, agg). agg_keys agg) (map_of (msa_stake_maps m) k)"

definition uncommitted_stake :: "('k, 'v) multi_stake_aggregator \<Rightarrow> stake_unit" where
  "uncommitted_stake m = total_votes (msa_committee m) - msa_total_votes m"

definition plurality_stake :: "('k, 'v) multi_stake_aggregator \<Rightarrow> stake_unit" where
  "plurality_stake m =
     fold max (map (\<lambda>(_, (_, agg)). agg_total_votes agg) (msa_stake_maps m)) 0"

definition quorum_unreachable :: "bool \<Rightarrow> ('k, 'v) multi_stake_aggregator \<Rightarrow> bool" where
  "quorum_unreachable STRENGTH m \<longleftrightarrow>
     uncommitted_stake m + plurality_stake m < threshold STRENGTH (msa_committee m)"

section \<open>GenericMultiStakeAggregator\<close>

record 'k generic_multi_stake_aggregator =
  gmsa_committee :: committee
  gmsa_stake_maps :: "('k \<times> unit stake_aggregator) list"
  votes_per_authority :: "(authority_name \<times> u64) list"

definition gmsa_new :: "committee \<Rightarrow> 'k generic_multi_stake_aggregator" where
  "gmsa_new c = \<lparr>gmsa_committee = c, gmsa_stake_maps = [], votes_per_authority = []\<rparr>"

definition gmsa_insert ::
  "bool \<Rightarrow> authority_name \<Rightarrow> 'k \<Rightarrow> 'k generic_multi_stake_aggregator \<Rightarrow>
   (authority_name \<times> unit) list insert_result \<times> 'k generic_multi_stake_aggregator" where
  "gmsa_insert STRENGTH authority k g =
     (let agg = (case map_of (gmsa_stake_maps g) k of
                   Some agg \<Rightarrow> agg | None \<Rightarrow> agg_new (gmsa_committee g));
          votes = (if \<not> agg_contains_key authority agg
                   then AList.update authority
                          ((case map_of (votes_per_authority g) authority of
                              Some n \<Rightarrow> n | None \<Rightarrow> 0) + 1) (votes_per_authority g)
                   else votes_per_authority g);
          (result, agg') = insert_generic STRENGTH (=) authority () agg
      in (result, g\<lparr>gmsa_stake_maps := AList.update k agg' (gmsa_stake_maps g),
                    votes_per_authority := votes\<rparr>))"

definition has_quorum_for_key :: "bool \<Rightarrow> 'k \<Rightarrow> 'k generic_multi_stake_aggregator \<Rightarrow> bool" where
  "has_quorum_for_key STRENGTH k g =
     (case map_of (gmsa_stake_maps g) k of Some entry \<Rightarrow> has_quorum STRENGTH entry | None \<Rightarrow> False)"

definition votes_for_authority :: "authority_name \<Rightarrow> 'k generic_multi_stake_aggregator \<Rightarrow> u64" where
  "votes_for_authority authority g =
     (case map_of (votes_per_authority g) authority of Some n \<Rightarrow> n | None \<Rightarrow> 0)"


section \<open>The invariant of an aggregator\<close>

definition voters :: "'s stake_aggregator \<Rightarrow> authority_name set" where
  "voters agg = fst ` set (agg_data agg)"

definition agg_wf :: "'s stake_aggregator \<Rightarrow> bool" where
  "agg_wf agg \<longleftrightarrow> committee_wf (agg_committee agg) \<and> stake_bounded (agg_committee agg) \<and>
     distinct (map fst (agg_data agg)) \<and>
     unat (agg_total_votes agg) = sum (stake_of (agg_committee agg)) (voters agg)"

lemma finite_voters [simp]: "finite (voters agg)"
  by (simp add: voters_def)

lemma stake_sum_members:
  assumes "committee_wf c" "finite A"
  shows "sum (stake_of c) A = sum (stake_of c) (A \<inter> set (names c))"
  using assms by (intro sum.mono_neutral_right) (auto simp: stake_of_def weight_nonmember)

lemma stake_sum_le:
  assumes "committee_wf c" "stake_bounded c" "finite A"
  shows "sum (stake_of c) A \<le> 10000"
  using sui.weight_le_total [of c "A \<inter> set (names c)"] stake_sum_members [of c A] assms
  by (simp add: total_stake)

interpretation sui_counter: vote_counter "\<lambda>c. committee_wf c \<and> stake_bounded c"
  "\<lambda>c. set (names c)" stake_of "\<lambda>c. unat (quorum_threshold c)" "\<lambda>c. unat (validity_threshold c)"
  "\<lambda>c agg. agg_wf agg \<and> agg_committee agg = c" voters "\<lambda>agg. unat (agg_total_votes agg)"
proof unfold_locales
  fix c and agg :: "'s stake_aggregator"
  assume "committee_wf c \<and> stake_bounded c" "agg_wf agg \<and> agg_committee agg = c"
  then show "unat (agg_total_votes agg) \<le> sum (stake_of c) (voters agg \<inter> set (names c))"
    using stake_sum_members [of c "voters agg"] by (auto simp: agg_wf_def)
qed

lemma agg_new_wf: "committee_wf c \<Longrightarrow> stake_bounded c \<Longrightarrow> agg_wf (agg_new c)"
  by (simp add: agg_wf_def agg_new_def voters_def)

lemma unat_add_stake:
  assumes "committee_wf c" "stake_bounded c" "finite V" "a \<notin> V"
    and "unat t = sum (stake_of c) V"
  shows "unat (t + weight c a) = sum (stake_of c) (insert a V)"
proof -
  have eq: "unat t + unat (weight c a) = sum (stake_of c) (insert a V)"
    using assms(3-5) by (simp add: stake_of_def)
  also have "\<dots> \<le> 10000"
    using assms(1-3) by (intro stake_sum_le) auto
  finally have "unat t + unat (weight c a) < 2 ^ LENGTH(64)" by simp
  from unat_add_no_wrap [OF this] eq show ?thesis by simp
qed

text \<open>The four outcomes of recording a vote.\<close>

lemma insert_generic_cases:
  assumes "insert_generic S eq a s agg = (r, agg')"
  obtains
    (repeated) oc where "map_of (agg_data agg) a = Some oc"
      "r = Failed (StakeAggregatorRepeatedSigner a (eq oc s))" "agg' = agg"
  | (unknown) "a \<notin> voters agg" "weight (agg_committee agg) a = 0" "r = Failed InvalidAuthenticator"
      "agg' = agg\<lparr>agg_data := agg_data agg @ [(a, s)]\<rparr>"
  | (counted) "a \<notin> voters agg" "weight (agg_committee agg) a > 0"
      "agg' = agg\<lparr>agg_data := agg_data agg @ [(a, s)],
                  agg_total_votes := agg_total_votes agg + weight (agg_committee agg) a\<rparr>"
      "r = (if has_quorum S agg' then QuorumReached (agg_data agg') else NotEnoughVotes 0 [])"
proof (cases "map_of (agg_data agg) a")
  case (Some oc)
  with assms have "r = Failed (StakeAggregatorRepeatedSigner a (eq oc s))" "agg' = agg"
    by (simp_all add: insert_generic_def)
  with Some show thesis by (rule repeated)
next
  case None
  then have a: "a \<notin> voters agg"
    by (simp add: voters_def map_of_eq_None_iff)
  then have upd: "AList.update a s (agg_data agg) = agg_data agg @ [(a, s)]"
    by (simp add: voters_def alist_update_append)
  show thesis
  proof (cases "weight (agg_committee agg) a > 0")
    case True
    from assms None upd True
    have agg': "agg' = agg\<lparr>agg_data := agg_data agg @ [(a, s)],
        agg_total_votes := agg_total_votes agg + weight (agg_committee agg) a\<rparr>"
      and "r = (if has_quorum S agg' then QuorumReached (agg_data agg') else NotEnoughVotes 0 [])"
      by (auto simp: insert_generic_def has_quorum_def Let_def split: if_splits)
    with a True show thesis by (intro counted)
  next
    case False
    then have "weight (agg_committee agg) a = 0" by (simp add: word_gt_0)
    moreover from this assms None upd have "r = Failed InvalidAuthenticator"
      "agg' = agg\<lparr>agg_data := agg_data agg @ [(a, s)]\<rparr>"
      by (auto simp: insert_generic_def Let_def)
    ultimately show thesis using a by (intro unknown)
  qed
qed

lemma insert_generic_wf:
  assumes "insert_generic S eq a s agg = (r, agg')" "agg_wf agg"
  shows "agg_wf agg'" and "agg_committee agg' = agg_committee agg"
    and "voters agg' = insert a (voters agg)"
proof -
  have *: "agg_wf agg' \<and> agg_committee agg' = agg_committee agg \<and> voters agg' = insert a (voters agg)"
    using assms(1)
  proof (cases rule: insert_generic_cases)
    case (repeated oc)
    then have "a \<in> voters agg"
      using map_of_SomeD [of "agg_data agg" a oc] by (force simp: voters_def)
    with repeated assms(2) show ?thesis by auto
  next
    case unknown
    with assms(2) show ?thesis
      by (auto simp: agg_wf_def voters_def stake_of_def)
  next
    case counted
    have "unat (agg_total_votes agg + weight (agg_committee agg) a)
        = sum (stake_of (agg_committee agg)) (insert a (voters agg))"
      using assms(2) counted(1) by (intro unat_add_stake) (auto simp: agg_wf_def)
    with counted assms(2) show ?thesis
      by (auto simp: agg_wf_def voters_def)
  qed
  then show "agg_wf agg'" "agg_committee agg' = agg_committee agg"
    "voters agg' = insert a (voters agg)" by auto
qed

lemma has_quorum_iff:
  assumes "agg_wf agg"
  shows "has_quorum S agg \<longleftrightarrow>
    unat (threshold S (agg_committee agg)) \<le> sum (stake_of (agg_committee agg)) (voters agg)"
  using assms by (simp add: has_quorum_def agg_wf_def word_le_nat_alt)

lemma agg_from_iter_wf:
  assumes "committee_wf c" "stake_bounded c"
  shows "agg_wf (agg_from_iter S eq c vs) \<and> agg_committee (agg_from_iter S eq c vs) = c \<and>
    voters (agg_from_iter S eq c vs) = fst ` set vs"
proof -
  have "agg_wf (fold (\<lambda>(a, s) this. snd (insert_generic S eq a s this)) vs agg) \<and>
    agg_committee (fold (\<lambda>(a, s) this. snd (insert_generic S eq a s this)) vs agg) = c \<and>
    voters (fold (\<lambda>(a, s) this. snd (insert_generic S eq a s this)) vs agg) = voters agg \<union> fst ` set vs"
    if "agg_wf agg" "agg_committee agg = c" for agg
    using that
  proof (induction vs arbitrary: agg)
    case (Cons v vs)
    obtain a s where v: "v = (a, s)" by (cases v)
    obtain r agg' where ins: "insert_generic S eq a s agg = (r, agg')"
      by (cases "insert_generic S eq a s agg")
    from insert_generic_wf [OF ins Cons.prems(1)] Cons.IH [of agg'] Cons.prems(2)
    show ?case by (simp add: v ins)
  qed simp
  from this [OF agg_new_wf [OF assms]] show ?thesis
    by (simp add: agg_from_iter_def agg_new_def voters_def)
qed

section \<open>Inserting signed votes\<close>

definition sigs_keyed :: "auth_sign_info stake_aggregator \<Rightarrow> bool" where
  "sigs_keyed agg \<longleftrightarrow> (\<forall>(n, sig) \<in> set (agg_data agg). si_authority sig = n)"

lemma set_alist_delete_subset: "set (AList.delete k m) \<subseteq> set m"
  by (auto simp: AList.delete_eq)

lemma voters_delete:
  "fst ` set (AList.delete a m) = fst ` set m - {a}"
  by (auto simp: AList.delete_eq)

lemma remove_bad_votes_wf:
  assumes "agg_wf agg" "sigs_keyed agg" "distinct (map fst rest)" "fst ` set rest \<subseteq> voters agg"
    and "remove_bad_votes bls msg rest agg bv ba = (agg', bv', ba')"
  shows "agg_wf agg' \<and> sigs_keyed agg' \<and> agg_committee agg' = agg_committee agg \<and>
    voters agg' \<subseteq> voters agg"
  using assms
proof (induction bls msg rest agg bv ba rule: remove_bad_votes.induct)
  case (2 bls msg name sig rest agg bv ba)
  let ?c = "agg_committee agg"
  show ?case
  proof (cases "sign_info_verify_secure bls msg ?c sig")
    case (Inr u)
    with 2 show ?thesis by simp
  next
    case (Inl err)
    let ?agg1 = "agg\<lparr>agg_data := AList.delete name (agg_data agg),
      agg_total_votes := agg_total_votes agg - weight ?c name\<rparr>"
    have mem: "name \<in> voters agg" using 2(6) by simp
    have split: "sum (stake_of ?c) (voters agg)
        = stake_of ?c name + sum (stake_of ?c) (voters agg - {name})"
      using mem by (intro sum.remove) auto
    have tot: "unat (agg_total_votes agg) = sum (stake_of ?c) (voters agg)"
      using 2(3) by (simp add: agg_wf_def)
    have "weight ?c name \<le> agg_total_votes agg"
      using split tot by (simp add: word_le_nat_alt stake_of_def)
    then have "unat (agg_total_votes agg - weight ?c name) = sum (stake_of ?c) (voters agg - {name})"
      using split tot by (simp add: unat_sub stake_of_def)
    moreover have vot: "voters ?agg1 = voters agg - {name}"
      by (simp add: voters_def voters_delete)
    ultimately have wf1: "agg_wf ?agg1"
      using 2(3) by (simp add: agg_wf_def distinct_delete)
    have keyed1: "sigs_keyed ?agg1"
      using 2(4) set_alist_delete_subset [of name "agg_data agg"] by (auto simp: sigs_keyed_def)
    have "fst ` set rest \<subseteq> voters ?agg1"
      using 2(5,6) vot by auto
    from 2(1) [OF Inl refl wf1 keyed1 _ this] 2(5,7) Inl vot show ?thesis
      by (auto simp: Let_def)
  qed
qed simp

text \<open>The outcomes of inserting a signed vote, with what a reached quorum has been checked for.\<close>

lemma agg_insert_sound:
  assumes "agg_insert bls S msg sig agg = (r, agg')" "agg_wf agg" "sigs_keyed agg"
  shows "agg_wf agg' \<and> sigs_keyed agg' \<and> agg_committee agg' = agg_committee agg"
    and "r = QuorumReached q \<Longrightarrow>
      quorum_verify_secure bls S msg (agg_committee agg) q = Inr () \<and>
      new_from_auth_sign_infos bls S (map snd (agg_data agg')) (agg_committee agg) = Inr q \<and>
      voters agg' = insert (si_authority sig) (voters agg)"
proof -
  obtain r1 agg1 where ins: "insert_generic S auth_sign_info_eq (si_authority sig) sig agg = (r1, agg1)"
    by (cases "insert_generic S auth_sign_info_eq (si_authority sig) sig agg")
  note wf1 = insert_generic_wf [OF ins assms(2)]
  have keyed1: "sigs_keyed agg1"
    using ins assms(3) by (cases rule: insert_generic_cases) (auto simp: sigs_keyed_def)
  show "agg_wf agg' \<and> sigs_keyed agg' \<and> agg_committee agg' = agg_committee agg"
    using assms wf1 keyed1 ins remove_bad_votes_wf [OF wf1(1) keyed1, of "agg_data agg1" bls msg 0 "[]"]
    by (auto simp: agg_insert_def voters_def agg_wf_def
        split: insert_result.splits sum.splits if_splits prod.splits)
  show "quorum_verify_secure bls S msg (agg_committee agg) q = Inr () \<and>
      new_from_auth_sign_infos bls S (map snd (agg_data agg')) (agg_committee agg) = Inr q \<and>
      voters agg' = insert (si_authority sig) (voters agg)"
    if "r = QuorumReached q"
    using that assms(1) wf1 ins
    by (auto simp: agg_insert_def
        split: insert_result.splits sum.splits if_splits prod.splits)
qed


section \<open>A vote from outside the committee\<close>

lemma agg_insert_keeps_nonmember:
  assumes "agg_insert bls S msg sig agg = (r, agg')" "agg_wf agg" "sigs_keyed agg"
    and "x \<in> voters agg" "x \<notin> set (names (agg_committee agg))"
  shows "\<not> is_quorum_reached r" and "x \<in> voters agg'"
proof -
  let ?c = "agg_committee agg"
  obtain r1 agg1 where ins: "insert_generic S auth_sign_info_eq (si_authority sig) sig agg = (r1, agg1)"
    by (cases "insert_generic S auth_sign_info_eq (si_authority sig) sig agg")
  note wf1 = insert_generic_wf [OF ins assms(2)]
  have keyed1: "sigs_keyed agg1"
    using ins assms(3) by (cases rule: insert_generic_cases) (auto simp: sigs_keyed_def)
  have x1: "x \<in> voters agg1" using wf1(3) assms(4) by simp
  have idx: "authority_index ?c x = None"
  proof -
    have "index_map ?c = map (\<lambda>(i, (a, _)). (a, i)) (List.enumerate 0 (voting_rights ?c))"
      using assms(2) by (simp add: agg_wf_def committee_wf_def)
    then have "map fst (index_map ?c) = names ?c"
      by (simp only: map_fst_enumerate_index names_def)
    then have "fst ` set (index_map ?c) = set (names ?c)"
      by (simp flip: list.set_map)
    with assms(5) have "map_of (index_map ?c) x = None" by (simp add: map_of_eq_None_iff)
    then show ?thesis by (simp add: authority_index_def)
  qed
  have fail: "new_from_auth_sign_infos bls S (map snd (agg_data agg1)) ?c \<noteq> Inr q" for q
  proof
    let ?sigs = "fold (\<lambda>a. bt_insert (si_authority a) (si_signature a)) (map snd (agg_data agg1)) []"
    assume "new_from_auth_sign_infos bls S (map snd (agg_data agg1)) ?c = Inr q"
    then have bm: "signer_indices ?c (map fst ?sigs) [] = Inr (qsi_signers_map q)"
      by (auto simp: new_from_auth_sign_infos_def Let_def)
    obtain sg where "(x, sg) \<in> set (agg_data agg1)" using x1 by (auto simp: voters_def)
    moreover have "si_authority sg = x" using calculation keyed1 by (auto simp: sigs_keyed_def)
    ultimately have "x \<in> si_authority ` set (map snd (agg_data agg1))" by force
    then have "x \<in> set (map fst ?sigs)"
      using keys_fold_bt_insert [of si_authority si_signature "map snd (agg_data agg1)" "[]"] by simp
    from signer_indices_known [OF bm this] idx show False by simp
  qed
  then obtain err where err: "new_from_auth_sign_infos bls S (map snd (agg_data agg1)) ?c = Inl err"
    by (cases "new_from_auth_sign_infos bls S (map snd (agg_data agg1)) ?c") auto
  from assms(1) ins wf1(2) err x1 assms(4) show "\<not> is_quorum_reached r" "x \<in> voters agg'"
    by (auto simp: agg_insert_def is_quorum_reached_def split: insert_result.splits if_splits)
qed

text \<open>A whole sequence of votes.\<close>

fun agg_insert_all ::
  "bls_ops \<Rightarrow> bool \<Rightarrow> (epoch_id \<Rightarrow> message) \<Rightarrow> auth_sign_info list \<Rightarrow>
   auth_sign_info stake_aggregator \<Rightarrow> quorum_sign_info insert_result list" where
  "agg_insert_all bls S msg [] agg = []"
| "agg_insert_all bls S msg (sig # sigs) agg =
     (let (r, agg') = agg_insert bls S msg sig agg in r # agg_insert_all bls S msg sigs agg')"

lemma agg_insert_all_nonmember:
  assumes "agg_wf agg" "sigs_keyed agg" "x \<in> voters agg" "x \<notin> set (names (agg_committee agg))"
  shows "\<not> list_ex is_quorum_reached (agg_insert_all bls S msg sigs agg)"
  using assms
proof (induction sigs arbitrary: agg)
  case (Cons sig sigs)
  obtain r agg' where ins: "agg_insert bls S msg sig agg = (r, agg')"
    by (cases "agg_insert bls S msg sig agg")
  from agg_insert_sound(1) [OF ins Cons.prems(1,2)]
    agg_insert_keeps_nonmember [OF ins Cons.prems]
  have "agg_wf agg'" "sigs_keyed agg'" "x \<in> voters agg'"
    "x \<notin> set (names (agg_committee agg'))" "\<not> is_quorum_reached r"
    using Cons.prems(4) by auto
  with Cons.IH [of agg'] ins show ?case by simp
qed simp

section \<open>Several values\<close>

definition msa_wf :: "('k, 'v) multi_stake_aggregator \<Rightarrow> bool" where
  "msa_wf m \<longleftrightarrow> committee_wf (msa_committee m) \<and> stake_bounded (msa_committee m) \<and>
     distinct (map fst (msa_stake_maps m)) \<and>
     (\<forall>(k, (v, agg)) \<in> set (msa_stake_maps m).
        agg_wf agg \<and> sigs_keyed agg \<and> agg_committee agg = msa_committee m)"

text \<open>Every validator has voted for at most one value.\<close>

definition one_vote_each :: "('k, 'v) multi_stake_aggregator \<Rightarrow> bool" where
  "one_vote_each m \<longleftrightarrow>
     distinct (concat (map (\<lambda>(k, (v, agg)). agg_keys agg) (msa_stake_maps m)))"

definition msa_voters :: "('k, 'v) multi_stake_aggregator \<Rightarrow> authority_name set" where
  "msa_voters m = (\<Union>(k, (v, agg)) \<in> set (msa_stake_maps m). voters agg)"

definition voters_for :: "'k \<Rightarrow> ('k, 'v) multi_stake_aggregator \<Rightarrow> authority_name set" where
  "voters_for k m = (case map_of (msa_stake_maps m) k of None \<Rightarrow> {} | Some (v, agg) \<Rightarrow> voters agg)"

lemma msa_new_wf: "committee_wf c \<Longrightarrow> stake_bounded c \<Longrightarrow> msa_wf (msa_new c)"
  by (simp add: msa_wf_def msa_new_def)

lemma msa_wf_update:
  assumes "msa_wf m" "agg_wf e" "sigs_keyed e" "agg_committee e = msa_committee m"
  shows "msa_wf (m\<lparr>msa_stake_maps := AList.update k (v, e) (msa_stake_maps m)\<rparr>)"
proof -
  let ?P = "\<lambda>(k, (v, agg)). agg_wf agg \<and> sigs_keyed agg \<and> agg_committee agg = msa_committee m"
  have "\<forall>x \<in> set (AList.update k (v, e) (msa_stake_maps m)). ?P x"
    using assms by (intro ball_alist_update) (simp_all add: msa_wf_def)
  with assms(1) show ?thesis by (simp add: msa_wf_def distinct_update)
qed

lemma msa_insert_wf:
  assumes "msa_insert bls S to_msg k v sig m = (r, m')" "msa_wf m"
  shows "msa_wf m'"
proof -
  obtain v0 entry where entry: "agg_wf entry" "sigs_keyed entry" "agg_committee entry = msa_committee m"
    and m': "\<exists>r e'. agg_insert bls S (to_msg v) sig entry = (r, e') \<and>
      (m' = m \<or> m' = m\<lparr>msa_stake_maps := AList.update k (v0, e') (msa_stake_maps m)\<rparr>)"
  proof (cases "map_of (msa_stake_maps m) k")
    case (Some ve)
    obtain v0 entry where ve: "ve = (v0, entry)" by (cases ve)
    with assms(2) map_of_SomeD [OF Some]
    have "agg_wf entry" "sigs_keyed entry" "agg_committee entry = msa_committee m"
      by (auto simp: msa_wf_def)
    moreover have "\<exists>r e'. agg_insert bls S (to_msg v) sig entry = (r, e') \<and>
      (m' = m \<or> m' = m\<lparr>msa_stake_maps := AList.update k (v0, e') (msa_stake_maps m)\<rparr>)"
      using assms(1) Some ve by (auto simp: msa_insert_def split: prod.splits)
    ultimately show thesis by (rule that)
  next
    case None
    let ?entry = "agg_new (msa_committee m)"
    have "agg_wf ?entry" "sigs_keyed ?entry" "agg_committee ?entry = msa_committee m"
      using assms(2) agg_new_wf [of "msa_committee m"]
      by (simp_all add: msa_wf_def sigs_keyed_def agg_new_def)
    moreover have "\<exists>r e'. agg_insert bls S (to_msg v) sig ?entry = (r, e') \<and>
      (m' = m \<or> m' = m\<lparr>msa_stake_maps := AList.update k (v, e') (msa_stake_maps m)\<rparr>)"
      using assms(1) None by (auto simp: msa_insert_def split: prod.splits insert_result.splits)
    ultimately show thesis by (rule that)
  qed
  then obtain r' e' where ins: "agg_insert bls S (to_msg v) sig entry = (r', e')"
    and m': "m' = m \<or> m' = m\<lparr>msa_stake_maps := AList.update k (v0, e') (msa_stake_maps m)\<rparr>"
    by blast
  from agg_insert_sound(1) [OF ins entry(1,2)] entry(3)
  have "agg_wf e'" "sigs_keyed e'" "agg_committee e' = msa_committee m" by auto
  from msa_wf_update [OF assms(2) this] m' assms(2) show ?thesis by auto
qed

lemma fold_max_mem: "fold max xs a \<in> insert a (set (xs :: 'a::linorder list))"
proof (induction xs arbitrary: a)
  case (Cons x xs)
  from Cons.IH [of "max x a"] show ?case by (auto simp: max_def)
qed simp

lemma fold_max_ge: "x \<in> insert a (set xs) \<Longrightarrow> x \<le> fold max xs (a :: 'a::linorder)"
proof (induction xs arbitrary: a x)
  case (Cons y xs)
  have "max y a \<le> fold max xs (max y a)" by (rule Cons.IH) simp
  moreover from Cons.prems consider "x = a" | "x = y" | "x \<in> set xs" by auto
  ultimately show ?case
    by cases (auto intro: Cons.IH order_trans [of _ "max y a"])
qed simp

lemma agg_wf_tally:
  assumes "agg_wf agg"
  shows "unat (agg_total_votes agg) = sum_list (map (stake_of (agg_committee agg)) (agg_keys agg))"
  using assms sum_list_distinct_set [of "agg_keys agg" "stake_of (agg_committee agg)"]
  by (simp add: agg_wf_def agg_keys_def voters_def)

lemma voters_agg_keys: "voters agg = set (agg_keys agg)"
  by (simp add: voters_def agg_keys_def)

lemma sum_tallies:
  assumes "\<forall>(k, (v, agg)) \<in> set ms. agg_wf agg \<and> sigs_keyed agg \<and> agg_committee agg = c"
  shows "sum_list (map (\<lambda>(k, (v, agg)). unat (agg_total_votes agg)) ms)
    = sum_list (map (stake_of c) (concat (map (\<lambda>(k, (v, agg)). agg_keys agg) ms)))"
  using assms by (induction ms) (auto simp: agg_wf_tally)

lemma msa_voters_concat:
  "msa_voters m = set (concat (map (\<lambda>(k, (v, agg)). agg_keys agg) (msa_stake_maps m)))"
  by (auto simp: msa_voters_def voters_agg_keys split: prod.splits)

text \<open>With one vote each, the tallies add up to the stake that has voted, without wrapping.\<close>

lemma unat_msa_total_votes:
  assumes "msa_wf m" "one_vote_each m"
  shows "unat (msa_total_votes m) = sum (stake_of (msa_committee m)) (msa_voters m)"
proof -
  let ?c = "msa_committee m"
  let ?ts = "map (\<lambda>(_, (_, agg)). agg_total_votes agg) (msa_stake_maps m)"
  have "sum_list (map unat ?ts)
      = sum_list (map (\<lambda>(k, (v, agg)). unat (agg_total_votes agg)) (msa_stake_maps m))"
    by (rule arg_cong [where f = sum_list]) auto
  also have "\<dots> = sum (stake_of ?c) (msa_voters m)"
    using assms sum_tallies [of "msa_stake_maps m" ?c]
    by (simp add: msa_wf_def one_vote_each_def msa_voters_concat sum_list_distinct_set)
  finally have eq: "sum_list (map unat ?ts) = sum (stake_of ?c) (msa_voters m)" .
  moreover have "sum (stake_of ?c) (msa_voters m) \<le> 10000"
    using assms(1) by (intro stake_sum_le) (simp_all only: msa_wf_def msa_voters_concat finite_set)
  ultimately have "sum_list (map unat ?ts) < 2 ^ LENGTH(64)" by simp
  from unat_sum_list [OF this] eq show ?thesis by (simp add: msa_total_votes_def)
qed

lemma tally_le_plurality:
  assumes "(k, (v, agg)) \<in> set (msa_stake_maps m)"
  shows "agg_total_votes agg \<le> plurality_stake m"
  unfolding plurality_stake_def using assms by (intro fold_max_ge) force

lemma plurality_le:
  assumes "msa_wf m"
  shows "unat (plurality_stake m) \<le> 10000"
proof -
  have "plurality_stake m = 0 \<or> (\<exists>k v agg. (k, (v, agg)) \<in> set (msa_stake_maps m) \<and>
      plurality_stake m = agg_total_votes agg)"
    using fold_max_mem [of "map (\<lambda>(_, (_, agg)). agg_total_votes agg) (msa_stake_maps m)" 0]
    by (auto simp: plurality_stake_def)
  moreover have "unat (agg_total_votes agg) \<le> 10000" if "(k, (v, agg)) \<in> set (msa_stake_maps m)"
    for k v agg
    using that assms stake_sum_le [of "msa_committee m" "voters agg"]
    by (auto simp: msa_wf_def agg_wf_def)
  ultimately show ?thesis by auto
qed

lemma quorum_unreachable_sound:
  assumes wf: "msa_wf m" "one_vote_each m" and un: "quorum_unreachable S m"
    and E: "finite E" "E \<inter> msa_voters m = {}"
  shows "sum (stake_of (msa_committee m)) (voters_for k m \<union> E) < unat (threshold S (msa_committee m))"
proof -
  let ?c = "msa_committee m"
  have cwf: "committee_wf ?c" "stake_bounded ?c" using wf(1) by (auto simp: msa_wf_def)
  have fin: "finite (msa_voters m)" by (simp only: msa_voters_concat finite_set)
  have "sum (stake_of ?c) (msa_voters m) + sum (stake_of ?c) E
      = sum (stake_of ?c) (msa_voters m \<union> E)"
    using E fin by (intro sum.union_disjoint [symmetric]) auto
  also have "\<dots> \<le> 10000" using cwf fin E by (intro stake_sum_le) auto
  finally have split: "sum (stake_of ?c) (msa_voters m) + sum (stake_of ?c) E \<le> 10000" .
  then have "unat (uncommitted_stake m) = 10000 - sum (stake_of ?c) (msa_voters m)"
    using unat_msa_total_votes [OF wf]
    by (simp add: uncommitted_stake_def total_votes_def TOTAL_VOTING_POWER_def unat_sub word_le_nat_alt)
  with split have unc: "sum (stake_of ?c) E \<le> unat (uncommitted_stake m)"
    and unc_le: "unat (uncommitted_stake m) \<le> 10000" by auto
  have vk: "sum (stake_of ?c) (voters_for k m) \<le> unat (plurality_stake m)"
  proof (cases "map_of (msa_stake_maps m) k")
    case None
    then show ?thesis by (simp add: voters_for_def)
  next
    case (Some ve)
    obtain v agg where ve: "ve = (v, agg)" by (cases ve)
    with map_of_SomeD [OF Some] have mem: "(k, (v, agg)) \<in> set (msa_stake_maps m)" by simp
    with wf(1) have "unat (agg_total_votes agg) = sum (stake_of ?c) (voters agg)"
      by (auto simp: msa_wf_def agg_wf_def)
    with tally_le_plurality [OF mem] Some ve show ?thesis
      by (simp add: voters_for_def word_le_nat_alt)
  qed
  have "sum (stake_of ?c) (voters_for k m \<union> E)
      \<le> sum (stake_of ?c) (voters_for k m) + sum (stake_of ?c) E"
    using E(1) by (subst sum_Un_nat) (auto simp: voters_for_def split: option.splits)
  also have "\<dots> \<le> unat (plurality_stake m) + unat (uncommitted_stake m)"
    using vk unc by linarith
  also have "\<dots> = unat (uncommitted_stake m + plurality_stake m)"
    using plurality_le [OF wf(1)] unc_le by (subst unat_add_no_wrap) auto
  also have "\<dots> < unat (threshold S ?c)"
    using un by (simp add: quorum_unreachable_def word_less_nat_alt)
  finally show ?thesis .
qed

section \<open>Several values, several votes\<close>

definition voted_keys :: "authority_name \<Rightarrow> 'k generic_multi_stake_aggregator \<Rightarrow> 'k set" where
  "voted_keys a g = {k. \<exists>agg. map_of (gmsa_stake_maps g) k = Some agg \<and> agg_contains_key a agg}"

definition gmsa_inv :: "'k generic_multi_stake_aggregator \<Rightarrow> bool" where
  "gmsa_inv g \<longleftrightarrow> (\<forall>a. votes_for_authority a g = word_of_nat (card (voted_keys a g)))"

lemma finite_voted_keys: "finite (voted_keys a g)"
  by (rule finite_subset [of _ "dom (map_of (gmsa_stake_maps g))"])
    (auto simp: voted_keys_def finite_dom_map_of)

lemma agg_contains_key_iff: "agg_contains_key b agg \<longleftrightarrow> b \<in> voters agg"
  using map_of_eq_None_iff [of "agg_data agg" b] by (auto simp: agg_contains_key_def voters_def)

lemma insert_generic_contains:
  assumes "insert_generic S eq a s agg = (r, agg')"
  shows "agg_contains_key b agg' \<longleftrightarrow> b = a \<or> agg_contains_key b agg"
  using assms
proof (cases rule: insert_generic_cases)
  case (repeated oc)
  then show ?thesis by (auto simp: agg_contains_key_def)
qed (auto simp: agg_contains_key_iff voters_def)

lemma gmsa_new_inv: "gmsa_inv (gmsa_new c)"
  by (simp add: gmsa_inv_def gmsa_new_def votes_for_authority_def voted_keys_def)

lemma gmsa_insert_inv:
  assumes "gmsa_insert S a k g = (r, g')" "gmsa_inv g"
  shows "gmsa_inv g'" and "voted_keys a g' = insert k (voted_keys a g)"
    and "b \<noteq> a \<Longrightarrow> voted_keys b g' = voted_keys b g"
proof -
  define agg where "agg = (case map_of (gmsa_stake_maps g) k of
      Some agg \<Rightarrow> agg | None \<Rightarrow> agg_new (gmsa_committee g))"
  obtain r' agg' where ins: "insert_generic S (=) a () agg = (r', agg')"
    by (cases "insert_generic S (=) a () agg")
  have maps: "map_of (gmsa_stake_maps g') = (map_of (gmsa_stake_maps g))(k \<mapsto> agg')"
    and votes: "votes_for_authority b g' =
      votes_for_authority b g + (if b = a \<and> \<not> agg_contains_key a agg then 1 else 0)" for b
    using assms(1) ins
    by (auto simp: gmsa_insert_def agg_def [symmetric] Let_def update_conv' votes_for_authority_def)
  have mem: "k \<in> voted_keys b g \<longleftrightarrow> agg_contains_key b agg" for b
    by (auto simp: voted_keys_def agg_def agg_new_def agg_contains_key_def split: option.splits)
  have "voted_keys b g' = voted_keys b g \<union> (if b = a then {k} else {})" for b
    using mem [of b] insert_generic_contains [OF ins, of b]
    by (auto simp: voted_keys_def maps)
  then have keys: "voted_keys a g' = insert k (voted_keys a g)"
    "b \<noteq> a \<Longrightarrow> voted_keys b g' = voted_keys b g" for b by auto
  then show "voted_keys a g' = insert k (voted_keys a g)"
    "b \<noteq> a \<Longrightarrow> voted_keys b g' = voted_keys b g" by auto
  show "gmsa_inv g'"
    unfolding gmsa_inv_def
  proof
    fix b
    show "votes_for_authority b g' = word_of_nat (card (voted_keys b g'))"
    proof (cases "b = a")
      case True
      with assms(2) mem [of a] finite_voted_keys [of a g] show ?thesis
        by (auto simp: keys votes gmsa_inv_def insert_absorb)
    next
      case False
      with assms(2) show ?thesis by (simp add: keys votes gmsa_inv_def)
    qed
  qed
qed

section \<open>Removing votes whose signature does not verify\<close>

lemma remove_bad_votes_exact:
  assumes "remove_bad_votes bls msg rest agg bv ba = (agg', bv', ba')"
  shows "ba' = ba @ map fst (filter (\<lambda>(n, s). isl (sign_info_verify_secure bls msg (agg_committee agg) s)) rest) \<and>
    agg_data agg' = filter (\<lambda>(n, _). n \<notin> fst ` set
      (filter (\<lambda>(n, s). isl (sign_info_verify_secure bls msg (agg_committee agg) s)) rest)) (agg_data agg)"
  using assms
proof (induction bls msg rest agg bv ba rule: remove_bad_votes.induct)
  case (1 bls msg agg bv ba)
  then show ?case by auto
next
  case (2 bls msg name sig rest agg bv ba)
  show ?case
  proof (cases "sign_info_verify_secure bls msg (agg_committee agg) sig")
    case (Inl err)
    let ?agg1 = "agg\<lparr>agg_data := AList.delete name (agg_data agg),
      agg_total_votes := agg_total_votes agg - weight (agg_committee agg) name\<rparr>"
    let ?bad = "filter (\<lambda>(n, s). isl (sign_info_verify_secure bls msg (agg_committee agg) s)) rest"
    from 2(1) [OF Inl refl] 2(3) Inl
    have ih: "ba' = (ba @ [name]) @ map fst ?bad"
      "agg_data agg' = filter (\<lambda>(n, _). n \<notin> fst ` set ?bad) (AList.delete name (agg_data agg))"
      by (simp_all add: Let_def)
    have "agg_data agg' = filter (\<lambda>(n, _). n \<notin> fst ` set ((name, sig) # ?bad)) (agg_data agg)"
      unfolding ih(2) AList.delete_eq filter_filter by (rule filter_cong) auto
    with ih(1) Inl show ?thesis by simp
  next
    case (Inr u)
    with 2(2) [OF Inr] 2(3) show ?thesis by auto
  qed
qed

lemma filter_by_key:
  assumes "distinct (map fst xs)"
  shows "filter (\<lambda>(n, _). n \<notin> fst ` set (filter (\<lambda>(n, s). P s) xs)) xs = filter (\<lambda>(n, s). \<not> P s) xs"
proof (rule filter_cong [OF refl])
  fix x assume x: "x \<in> set xs"
  obtain n s where ns: "x = (n, s)" by (cases x)
  have same: "s' = s" if "(n, s') \<in> set xs" for s'
    using eq_key_imp_eq_value [OF assms that] x ns by simp
  have "n \<in> fst ` set (filter (\<lambda>(n, s). P s) xs) \<longleftrightarrow> (\<exists>s'. (n, s') \<in> set xs \<and> P s')"
    by force
  also have "\<dots> \<longleftrightarrow> P s" using same x ns by blast
  finally show "(case x of (n, _) \<Rightarrow> n \<notin> fst ` set (filter (\<lambda>(n, s). P s) xs)) = (case x of (n, s) \<Rightarrow> \<not> P s)"
    by (simp add: ns)
qed


section \<open>Sequences of votes for several values\<close>

definition gmsa_insert_all ::
  "bool \<Rightarrow> committee \<Rightarrow> (authority_name \<times> 'k) list \<Rightarrow> 'k generic_multi_stake_aggregator" where
  "gmsa_insert_all S c votes = fold (\<lambda>(a, k) g. snd (gmsa_insert S a k g)) votes (gmsa_new c)"

definition gmsa_tracks ::
  "committee \<Rightarrow> (authority_name \<times> 'k) set \<Rightarrow> 'k generic_multi_stake_aggregator \<Rightarrow> bool" where
  "gmsa_tracks c votes g \<longleftrightarrow> gmsa_committee g = c \<and> gmsa_inv g \<and>
     (\<forall>k. case map_of (gmsa_stake_maps g) k of
            None \<Rightarrow> {a. (a, k) \<in> votes} = {}
          | Some agg \<Rightarrow> agg_wf agg \<and> agg_committee agg = c \<and> voters agg = {a. (a, k) \<in> votes})"

lemma gmsa_new_tracks: "gmsa_tracks c {} (gmsa_new c)"
  using gmsa_new_inv [of c] by (simp add: gmsa_tracks_def gmsa_new_def)

lemma gmsa_insert_tracks:
  assumes "gmsa_tracks c votes g" "committee_wf c" "stake_bounded c"
  shows "gmsa_tracks c (insert (a, k) votes) (snd (gmsa_insert S a k g))"
proof -
  define agg where "agg = (case map_of (gmsa_stake_maps g) k of
      Some agg \<Rightarrow> agg | None \<Rightarrow> agg_new (gmsa_committee g))"
  obtain r' agg' where ins: "insert_generic S (=) a () agg = (r', agg')"
    by (cases "insert_generic S (=) a () agg")
  have agg: "agg_wf agg" "agg_committee agg = c" "voters agg = {a. (a, k) \<in> votes}"
    using assms(1) agg_new_wf [OF assms(2,3)]
    by (auto simp: gmsa_tracks_def agg_def agg_new_def voters_def split: option.splits dest: spec [of _ k])
  note wf' = insert_generic_wf [OF ins agg(1)]
  obtain r g' where gi: "gmsa_insert S a k g = (r, g')" by (cases "gmsa_insert S a k g")
  have maps: "map_of (gmsa_stake_maps g') = (map_of (gmsa_stake_maps g))(k \<mapsto> agg')"
    and c': "gmsa_committee g' = gmsa_committee g"
    using gi ins by (auto simp: gmsa_insert_def agg_def [symmetric] Let_def update_conv')
  have "gmsa_inv g'" using gmsa_insert_inv(1) [OF gi] assms(1) by (simp add: gmsa_tracks_def)
  moreover have "case map_of (gmsa_stake_maps g') l of
      None \<Rightarrow> {b. (b, l) \<in> insert (a, k) votes} = {}
    | Some e \<Rightarrow> agg_wf e \<and> agg_committee e = c \<and> voters e = {b. (b, l) \<in> insert (a, k) votes}" for l
  proof (cases "l = k")
    case True
    with wf' agg show ?thesis by (auto simp: maps)
  next
    case False
    then have eq: "{b. (b, l) \<in> insert (a, k) votes} = {b. (b, l) \<in> votes}" by auto
    from assms(1) have "case map_of (gmsa_stake_maps g) l of
        None \<Rightarrow> {b. (b, l) \<in> votes} = {}
      | Some e \<Rightarrow> agg_wf e \<and> agg_committee e = c \<and> voters e = {b. (b, l) \<in> votes}"
      by (simp add: gmsa_tracks_def)
    with False show ?thesis unfolding eq maps by simp
  qed
  ultimately show ?thesis using assms(1) c' gi by (simp add: gmsa_tracks_def)
qed

lemma gmsa_insert_all_tracks:
  assumes "committee_wf c" "stake_bounded c"
  shows "gmsa_tracks c (set votes) (gmsa_insert_all S c votes)"
proof -
  have "gmsa_tracks c (V \<union> set votes) (fold (\<lambda>(a, k) g. snd (gmsa_insert S a k g)) votes g)"
    if "gmsa_tracks c V g" for V g
    using that
  proof (induction votes arbitrary: V g)
    case (Cons v votes)
    obtain a k where v: "v = (a, k)" by (cases v)
    from Cons.IH [OF gmsa_insert_tracks [OF Cons.prems assms]] show ?case by (simp add: v)
  qed simp
  from this [OF gmsa_new_tracks] show ?thesis by (simp add: gmsa_insert_all_def)
qed

lemma gmsa_tracks_voted_keys:
  assumes "gmsa_tracks c votes g"
  shows "voted_keys a g = {k. (a, k) \<in> votes}"
proof -
  have "k \<in> voted_keys a g \<longleftrightarrow> (a, k) \<in> votes" for k
    using assms [unfolded gmsa_tracks_def, THEN conjunct2, THEN conjunct2, THEN spec [of _ k]]
    by (auto simp: voted_keys_def agg_contains_key_iff split: option.splits)
  then show ?thesis by auto
qed

section \<open>Properties\<close>

definition demo_sig :: "nat \<Rightarrow> auth_sign_info" where
  "demo_sig a = \<lparr>si_epoch = 5, si_authority = a, si_signature = a + 10\<rparr>"

lemma demo_sig_sel [simp]: "si_epoch (demo_sig a) = 5" "si_authority (demo_sig a) = a"
  by (simp_all add: demo_sig_def)

text \<open>
  C12. A \<^verbatim>\<open>QuorumReached\<close> of \<^verbatim>\<open>StakeAggregator::insert\<close> carries a certificate that verifies against the
  committee, whose signers are exactly the authorities that voted, the new one included, and whose
  stake reaches the threshold; whatever the outcome, the aggregator's tally remains the stake of its
  recorded voters.
\<close>

theorem agg_insert_correct:
  assumes "agg_insert bls S msg sig agg = (r, agg')" "agg_wf agg" "sigs_keyed agg"
    and "num_members (agg_committee agg) \<le> 2 ^ 32"
  shows "agg_wf agg' \<and> sigs_keyed agg' \<and> agg_committee agg' = agg_committee agg \<and>
    (\<forall>q. r = QuorumReached q \<longrightarrow>
      quorum_verify_secure bls S msg (agg_committee agg) q = Inr () \<and>
      signers (agg_committee agg) q = insert (si_authority sig) (voters agg) \<and>
      unat (threshold S (agg_committee agg))
        \<le> sum (stake_of (agg_committee agg)) (insert (si_authority sig) (voters agg)))"
proof (intro conjI allI impI)
  fix q assume r: "r = QuorumReached q"
  let ?c = "agg_committee agg"
  note sound = agg_insert_sound(2) [OF assms(1-3) r]
  have wf': "agg_wf agg'" "sigs_keyed agg'" and c': "agg_committee agg' = ?c"
    using agg_insert_sound(1) [OF assms(1-3)] by auto
  have c: "committee_wf ?c" "stake_bounded ?c" using assms(2) by (auto simp: agg_wf_def)
  note new = new_from_auth_sign_infos_signers [OF conjunct1 [OF conjunct2 [OF sound]] c(1) assms(4)]
  have keys: "si_authority ` set (map snd (agg_data agg')) = voters agg'"
    using wf'(2) by (auto simp: sigs_keyed_def voters_def image_image intro!: image_cong)
  show "quorum_verify_secure bls S msg ?c q = Inr ()" using sound by blast
  show sg: "signers ?c q = insert (si_authority sig) (voters agg)" using new(1) keys sound by simp
  show "unat (threshold S ?c) \<le> sum (stake_of ?c) (insert (si_authority sig) (voters agg))"
    using quorum_verify_secure_sound [OF conjunct1 [OF sound] c new(3)] sg by auto
qed (use agg_insert_sound(1) [OF assms(1-3)] in auto)

theorem agg_insert_correct_witness:
  "\<exists>agg'. agg_insert demo_bls True (\<lambda>e. [7]) (demo_sig 3)
      \<lparr>agg_data = [(1, demo_sig 1), (2, demo_sig 2)], agg_total_votes = 5000, agg_committee = demo_committee\<rparr>
      = (QuorumReached (demo_cert [0, 1, 2] [11, 12, 13]), agg') \<and>
    agg_wf agg' \<and> signers demo_committee (demo_cert [0, 1, 2] [11, 12, 13]) = insert 3 {1, 2}"
proof -
  let ?agg = "\<lparr>agg_data = [(1, demo_sig 1), (2, demo_sig 2)], agg_total_votes = 5000,
    agg_committee = demo_committee\<rparr>"
  have wf: "agg_wf ?agg"
    by (simp add: agg_wf_def demo_committee_wf demo_committee_bounded voters_def stake_of_def demo_weight)
  have keyed: "sigs_keyed ?agg" by (simp add: sigs_keyed_def demo_sig_def)
  have n: "num_members (agg_committee ?agg) \<le> 2 ^ 32" by (simp add: num_members_def demo_committee_def)
  have idx: "authority_index demo_committee (Suc 0) = Some 0" "authority_index demo_committee 2 = Some 1"
    "authority_index demo_committee 3 = Some 2" "committee_epoch demo_committee = 5"
    by (simp_all add: authority_index_def demo_committee_def)
  have new: "new_from_auth_sign_infos demo_bls True [demo_sig 1, demo_sig 2, demo_sig 3] demo_committee
      = Inr (demo_cert [0, 1, 2] [11, 12, 13])"
    by (simp add: new_from_auth_sign_infos_def demo_sig_def idx demo_weight qsi_quorum_threshold_def
        threshold_def quorum_threshold_def QUORUM_THRESHOLD_def demo_bls_def insort_insert_key_def
        ensure_def ok_or_def del: and_then_eq_Inr ensure_eq_Inr ok_or_eq_Inr)
      (simp add: word_le_nat_alt)
  have run: "\<exists>agg'. agg_insert demo_bls True (\<lambda>e. [7]) (demo_sig 3) ?agg
      = (QuorumReached (demo_cert [0, 1, 2] [11, 12, 13]), agg')"
    using new
    by (simp add: agg_insert_def insert_generic_def idx demo_weight threshold_def
        quorum_threshold_def QUORUM_THRESHOLD_def demo_cert_verifies(1))
  then obtain agg' where run': "agg_insert demo_bls True (\<lambda>e. [7]) (demo_sig 3) ?agg
      = (QuorumReached (demo_cert [0, 1, 2] [11, 12, 13]), agg')" by blast
  from agg_insert_correct [OF run' wf keyed n]
  have res: "agg_wf agg'" "signers demo_committee (demo_cert [0, 1, 2] [11, 12, 13]) = insert 3 {1, 2}"
    by (simp_all add: voters_def)
  show ?thesis by (intro exI conjI, rule run', rule res(1), rule res(2))
qed

text \<open>
  C13. When the aggregate of the recorded signatures does not verify, \<^verbatim>\<open>insert\<close> drops exactly the votes
  whose own signature does not verify, and reports exactly these authorities as bad.
\<close>

theorem bad_votes_dropped_exactly:
  assumes "agg_insert bls S msg sig agg = (NotEnoughVotes bad_votes bad, agg')" "bad \<noteq> []" "agg_wf agg"
  shows "agg_data agg' = filter (\<lambda>(_, s). \<not> isl (sign_info_verify_secure bls msg (agg_committee agg) s))
      (agg_data agg @ [(si_authority sig, sig)]) \<and>
    bad = map fst (filter (\<lambda>(_, s). isl (sign_info_verify_secure bls msg (agg_committee agg) s))
      (agg_data agg @ [(si_authority sig, sig)]))"
proof -
  obtain r1 agg1 where ins: "insert_generic S auth_sign_info_eq (si_authority sig) sig agg = (r1, agg1)"
    by (cases "insert_generic S auth_sign_info_eq (si_authority sig) sig agg")
  from ins assms(1,2) have data1: "agg_data agg1 = agg_data agg @ [(si_authority sig, sig)]"
    "agg_committee agg1 = agg_committee agg"
    and rem: "remove_bad_votes bls msg (agg_data agg1) agg1 0 [] = (agg', bad_votes, bad)"
    by (cases rule: insert_generic_cases,
        auto simp: agg_insert_def split: if_splits sum.splits prod.splits)+
  have "distinct (map fst (agg_data agg1))"
    using insert_generic_wf(1) [OF ins assms(3)] by (simp add: agg_wf_def)
  with remove_bad_votes_exact [OF rem] filter_by_key [of "agg_data agg1"]
  show ?thesis by (simp only: data1 append_Nil)
qed

text \<open>
  C24. A vote from outside the committee is refused with \<^verbatim>\<open>InvalidAuthenticator\<close> but stays recorded,
  and from then on no sequence of votes makes the aggregator report a quorum.
\<close>

theorem nonmember_vote_blocks_quorum:
  assumes "agg_wf agg" "sigs_keyed agg" "si_epoch sig = committee_epoch (agg_committee agg)"
    and "si_authority sig \<notin> set (names (agg_committee agg))" "si_authority sig \<notin> voters agg"
  shows "fst (agg_insert bls S msg sig agg) = Failed InvalidAuthenticator \<and>
    \<not> list_ex is_quorum_reached (agg_insert_all bls S msg sigs (snd (agg_insert bls S msg sig agg)))"
proof -
  let ?agg1 = "agg\<lparr>agg_data := agg_data agg @ [(si_authority sig, sig)]\<rparr>"
  have w: "weight (agg_committee agg) (si_authority sig) = 0"
    using assms(1,4) by (simp add: weight_nonmember agg_wf_def)
  have none: "map_of (agg_data agg) (si_authority sig) = None"
    using assms(5) by (simp add: voters_def map_of_eq_None_iff)
  have ins: "agg_insert bls S msg sig agg = (Failed InvalidAuthenticator, ?agg1)"
    using assms(3,5) none w
    by (simp add: agg_insert_def insert_generic_def voters_def alist_update_append)
  have "agg_wf ?agg1 \<and> sigs_keyed ?agg1"
    using agg_insert_sound(1) [OF ins assms(1,2)] by simp
  then show ?thesis
    using agg_insert_all_nonmember [of ?agg1 "si_authority sig"] assms(4) by (simp add: ins voters_def)
qed

theorem nonmember_vote_blocks_quorum_witness:
  "fst (agg_insert demo_bls True (\<lambda>e. [7]) (demo_sig 9) (agg_new demo_committee)) = Failed InvalidAuthenticator \<and>
   \<not> list_ex is_quorum_reached (agg_insert_all demo_bls True (\<lambda>e. [7]) [demo_sig 1, demo_sig 2, demo_sig 3]
       (snd (agg_insert demo_bls True (\<lambda>e. [7]) (demo_sig 9) (agg_new demo_committee))))"
  by (rule nonmember_vote_blocks_quorum [OF agg_new_wf [OF demo_committee_wf demo_committee_bounded]])
    (simp_all add: sigs_keyed_def agg_new_def demo_committee_def names_def voters_def)

text \<open>
  C25. A second vote of an authority is refused and leaves the aggregator unchanged, and the flag
  \<^verbatim>\<open>conflicting_sig\<close> of the error is set whatever the two signatures are, so also when the same vote is
  sent twice.
\<close>

theorem repeated_vote_flagged_conflicting:
  assumes "map_of (agg_data agg) (si_authority sig) = Some sig'"
    and "si_authority sig' = si_authority sig" "si_epoch sig' = committee_epoch (agg_committee agg)"
    and "si_epoch sig = committee_epoch (agg_committee agg)"
  shows "agg_insert bls S msg sig agg
    = (Failed (StakeAggregatorRepeatedSigner (si_authority sig) True), agg)"
  using assms by (simp add: agg_insert_def insert_generic_def auth_sign_info_eq_def)

theorem repeated_vote_flagged_conflicting_witness:
  "agg_insert demo_bls True (\<lambda>e. [7]) (demo_sig 1) ((agg_new demo_committee)\<lparr>agg_data := [(1, demo_sig 1)]\<rparr>)
    = (Failed (StakeAggregatorRepeatedSigner 1 True), (agg_new demo_committee)\<lparr>agg_data := [(1, demo_sig 1)]\<rparr>)"
  using repeated_vote_flagged_conflicting
    [of "(agg_new demo_committee)\<lparr>agg_data := [(1, demo_sig 1)]\<rparr>" "demo_sig 1" "demo_sig 1"]
  by (simp add: agg_new_def demo_committee_def)

lemma demo_sign_verify:
  "sign_info_verify_secure demo_bls (\<lambda>e. [7]) demo_committee (demo_sig (Suc 0)) = Inr ()"
  "sign_info_verify_secure demo_bls (\<lambda>e. [7]) demo_committee (demo_sig 3) = Inr ()"
  "sign_info_verify_secure demo_bls (\<lambda>e. [7]) demo_committee ((demo_sig 2)\<lparr>si_signature := 99\<rparr>)
     = Inl (InvalidSignature ''Failed to batch verify aggregated auth sig'')"
  by (simp_all add: sign_info_verify_secure_def sign_info_obligation_def demo_verify_defs
      del: and_then_eq_Inr ensure_eq_Inr ok_or_eq_Inr,
      simp_all add: demo_committee_def ensure_def ok_or_def verify_all_def demo_sig_def)

theorem bad_votes_dropped_exactly_witness:
  "\<exists>agg'. agg_insert demo_bls True (\<lambda>e. [7]) (demo_sig 3)
      \<lparr>agg_data = [(1, demo_sig 1), (2, (demo_sig 2)\<lparr>si_signature := 99\<rparr>)], agg_total_votes = 5000,
       agg_committee = demo_committee\<rparr> = (NotEnoughVotes 2500 [2], agg') \<and>
    agg_data agg' = [(1, demo_sig 1), (3, demo_sig 3)]"
proof -
  let ?bad = "(demo_sig 2)\<lparr>si_signature := 99\<rparr>"
  let ?agg = "\<lparr>agg_data = [(1, demo_sig 1), (2, ?bad)], agg_total_votes = 5000,
    agg_committee = demo_committee\<rparr>"
  have wf: "agg_wf ?agg"
    by (simp add: agg_wf_def demo_committee_wf demo_committee_bounded voters_def stake_of_def demo_weight)
  have idx: "authority_index demo_committee (Suc 0) = Some 0" "authority_index demo_committee 2 = Some 1"
    "authority_index demo_committee 3 = Some 2" "committee_epoch demo_committee = 5"
    by (simp_all add: authority_index_def demo_committee_def)
  have new: "new_from_auth_sign_infos demo_bls True [demo_sig 1, ?bad, demo_sig 3] demo_committee
      = Inr (demo_cert [0, 1, 2] [11, 99, 13])"
    by (simp add: new_from_auth_sign_infos_def demo_sig_def idx demo_weight qsi_quorum_threshold_def
        threshold_def quorum_threshold_def QUORUM_THRESHOLD_def demo_bls_def insort_insert_key_def
        ensure_def ok_or_def del: and_then_eq_Inr ensure_eq_Inr ok_or_eq_Inr)
      (simp add: word_le_nat_alt)
  have fails: "quorum_verify_secure demo_bls True (\<lambda>e. [7]) demo_committee (demo_cert [0, 1, 2] [11, 99, 13])
      = Inl (InvalidSignature ''Failed to batch verify aggregated auth sig'')"
    by (simp add: demo_verify_defs del: and_then_eq_Inr ensure_eq_Inr ok_or_eq_Inr,
      simp add: demo_committee_def ensure_def ok_or_def verify_all_def)
  have run: "\<exists>agg'. agg_insert demo_bls True (\<lambda>e. [7]) (demo_sig 3) ?agg = (NotEnoughVotes 2500 [2], agg')"
    using new fails
    by (simp add: agg_insert_def insert_generic_def idx demo_weight threshold_def
        quorum_threshold_def QUORUM_THRESHOLD_def demo_sign_verify)
  then obtain agg' where run': "agg_insert demo_bls True (\<lambda>e. [7]) (demo_sig 3) ?agg
      = (NotEnoughVotes 2500 [2], agg')" by blast
  from bad_votes_dropped_exactly [OF run' _ wf] have "agg_data agg' = [(1, demo_sig 1), (3, demo_sig 3)]"
    by (simp add: demo_sign_verify)
  with run' show ?thesis by blast
qed



text \<open>
  C27. After any sequence of votes a \<^verbatim>\<open>GenericMultiStakeAggregator\<close> has a quorum for a key exactly when
  the stake of the different authorities that voted for it reaches the threshold, and
  \<^verbatim>\<open>votes_for_authority\<close> is the number of different keys the authority voted for.
\<close>

theorem generic_aggregator_counts:
  assumes "committee_wf c" "stake_bounded c"
  shows "(has_quorum_for_key S k (gmsa_insert_all S c votes) \<longleftrightarrow>
      unat (threshold S c) \<le> sum (stake_of c) {a. (a, k) \<in> set votes}) \<and>
    votes_for_authority a (gmsa_insert_all S c votes) = word_of_nat (card {k. (a, k) \<in> set votes})"
proof -
  let ?g = "gmsa_insert_all S c votes"
  have tr: "gmsa_tracks c (set votes) ?g" using assms by (rule gmsa_insert_all_tracks)
  have pos: "0 < unat (threshold S c)"
    by (simp add: threshold_def quorum_threshold_def validity_threshold_def QUORUM_THRESHOLD_def
        VALIDITY_THRESHOLD_def)
  have "case map_of (gmsa_stake_maps ?g) k of
            None \<Rightarrow> {a. (a, k) \<in> set votes} = {}
          | Some agg \<Rightarrow> agg_wf agg \<and> agg_committee agg = c \<and> voters agg = {a. (a, k) \<in> set votes}"
    using tr by (simp add: gmsa_tracks_def)
  with pos have "has_quorum_for_key S k ?g \<longleftrightarrow>
      unat (threshold S c) \<le> sum (stake_of c) {a. (a, k) \<in> set votes}"
    by (auto simp: has_quorum_for_key_def has_quorum_iff split: option.splits)
  moreover have "votes_for_authority a ?g = word_of_nat (card {k. (a, k) \<in> set votes})"
    using tr by (simp add: gmsa_tracks_voted_keys [OF tr, symmetric] gmsa_tracks_def gmsa_inv_def)
  ultimately show ?thesis by blast
qed

theorem generic_aggregator_counts_witness:
  "has_quorum_for_key True 7 (gmsa_insert_all True demo_committee [(1, 7), (2, 7), (1, 7), (3, 7), (1, 8 :: nat)]) \<and>
   votes_for_authority 1 (gmsa_insert_all True demo_committee [(1, 7), (2, 7), (1, 7), (3, 7), (1, 8 :: nat)]) = 2"
proof -
  let ?v = "[(1, 7), (2, 7), (1, 7), (3, 7), (1, 8 :: nat)]"
  have sets: "{a. (a, 7) \<in> set ?v} = {1, 2, 3}" "{k. (1, k) \<in> set ?v} = {7, 8}" by auto
  show ?thesis
    using generic_aggregator_counts [OF demo_committee_wf demo_committee_bounded, of True 7 ?v 1]
    unfolding sets by (simp add: stake_of_def demo_weight threshold_def quorum_threshold_def QUORUM_THRESHOLD_def)
qed

end
