(* ===== verification/Narwhal_Committee.thy ===== *)
theory Narwhal_Committee
  imports Quorums
begin

text \<open>
  \<^verbatim>\<open>narwhal/config/src/committee.rs\<close>: the authorities of a Narwhal epoch, the index by identifier,
  the thresholds computed from the total stake, network information and its update. Public keys,
  addresses and network keys are numbers with the order the \<open>BTreeMap\<close> uses. The panicking
  accessors of \<^verbatim>\<open>Authority\<close> and of the committee return an option. Total stake is summed on
  \<open>u64\<close> and wraps, as in a release build.
\<close>

type_synonym authority_identifier = u16
type_synonym stake = u64
type_synonym epoch = u64
type_synonym pubkey = nat
type_synonym multiaddr = nat
type_synonym network_public_key = nat

record authority =
  au_id :: authority_identifier
  au_protocol_key :: pubkey
  au_stake :: stake
  au_primary_address :: multiaddr
  au_network_key :: network_public_key
  au_hostname :: string
  au_initialised :: bool

record narwhal_committee =
  nc_authorities :: "(pubkey \<times> authority) list"
  nc_authorities_by_id :: "(authority_identifier \<times> authority) list"
  nc_epoch :: epoch
  nc_quorum_threshold :: stake
  nc_validity_threshold :: stake

datatype config_error =
    NotInCommittee pubkey
  | NotInCommitteeId authority_identifier

datatype committee_update_error =
    UpdateNotInCommittee pubkey
  | MissingFromUpdate pubkey
  | DifferentStake pubkey

section \<open>Authority\<close>

definition authority_new ::
  "pubkey \<Rightarrow> stake \<Rightarrow> multiaddr \<Rightarrow> network_public_key \<Rightarrow> string \<Rightarrow> authority" where
  "authority_new protocol_key st primary_address network_key hostname =
     \<lparr>au_id = 0, au_protocol_key = protocol_key, au_stake = st,
      au_primary_address = primary_address, au_network_key = network_key, au_hostname = hostname,
      au_initialised = False\<rparr>"

definition authority_initialise :: "authority_identifier \<Rightarrow> authority \<Rightarrow> authority" where
  "authority_initialise i a = a\<lparr>au_id := i, au_initialised := True\<rparr>"

definition authority_id :: "authority \<Rightarrow> authority_identifier option" where
  "authority_id a = do { panic_unless (au_initialised a); Some (au_id a) }"

definition authority_stake :: "authority \<Rightarrow> stake option" where
  "authority_stake a = do { panic_unless (au_initialised a); Some (au_stake a) }"

definition authority_protocol_key :: "authority \<Rightarrow> pubkey option" where
  "authority_protocol_key a = do { panic_unless (au_initialised a); Some (au_protocol_key a) }"

definition authority_primary_address :: "authority \<Rightarrow> multiaddr option" where
  "authority_primary_address a = do { panic_unless (au_initialised a); Some (au_primary_address a) }"

definition authority_network_key :: "authority \<Rightarrow> network_public_key option" where
  "authority_network_key a = do { panic_unless (au_initialised a); Some (au_network_key a) }"

section \<open>Thresholds and secondary indexes\<close>

definition nc_total_stake :: "narwhal_committee \<Rightarrow> stake" where
  "nc_total_stake c = sum_list (map (\<lambda>(_, x). au_stake x) (nc_authorities c))"

text \<open>\<open>NonZeroU64::new(x).unwrap()\<close>\<close>

definition non_zero :: "u64 \<Rightarrow> u64 option" where
  "non_zero x = (if x = 0 then None else Some x)"

definition calculate_quorum_threshold :: "narwhal_committee \<Rightarrow> stake option" where
  "calculate_quorum_threshold c = non_zero (2 * nc_total_stake c div 3 + 1)"

definition calculate_validity_threshold :: "narwhal_committee \<Rightarrow> stake option" where
  "calculate_validity_threshold c = non_zero ((nc_total_stake c + 2) div 3)"

text \<open>The identifiers are counted on \<open>u16\<close>.\<close>

definition nc_load :: "narwhal_committee \<Rightarrow> narwhal_committee option" where
  "nc_load c = do {
     let authorities = map (\<lambda>(identifier, (key, authority)).
           (key, authority_initialise (word_of_nat identifier) authority))
           (List.enumerate 0 (nc_authorities c));
     let by_id = fold (\<lambda>(_, authority). bt_insert (au_id authority) authority) authorities [];
     let c1 = c\<lparr>nc_authorities := authorities, nc_authorities_by_id := by_id\<rparr>;
     v \<leftarrow> calculate_validity_threshold c1;
     let c2 = c1\<lparr>nc_validity_threshold := v\<rparr>;
     q \<leftarrow> calculate_quorum_threshold c2;
     Some (c2\<lparr>nc_quorum_threshold := q\<rparr>) }"

definition nc_new :: "(pubkey \<times> authority) list \<Rightarrow> epoch \<Rightarrow> narwhal_committee option" where
  "nc_new authorities ep = do {
     c \<leftarrow> nc_load \<lparr>nc_authorities = authorities, nc_authorities_by_id = [], nc_epoch = ep,
                   nc_quorum_threshold = 0, nc_validity_threshold = 0\<rparr>;
     panic_unless (length (nc_authorities_by_id c) = length (nc_authorities c));
     v \<leftarrow> calculate_validity_threshold c;
     panic_unless (nc_validity_threshold c = v);
     q \<leftarrow> calculate_quorum_threshold c;
     panic_unless (nc_quorum_threshold c = q);
     panic_unless (list_all (\<lambda>(index, (_, authority)). word_of_nat index = au_id authority)
                     (List.enumerate 0 (nc_authorities c)));
     Some c }"

section \<open>Queries\<close>

definition nc_authority :: "narwhal_committee \<Rightarrow> authority_identifier \<Rightarrow> authority option" where
  "nc_authority c i = map_of (nc_authorities_by_id c) i"

text \<open>Panics on an unknown identifier.\<close>

definition authority_safe :: "narwhal_committee \<Rightarrow> authority_identifier \<Rightarrow> authority option" where
  "authority_safe c i = map_of (nc_authorities_by_id c) i"

definition authority_by_key :: "narwhal_committee \<Rightarrow> pubkey \<Rightarrow> authority option" where
  "authority_by_key c key = map_of (nc_authorities c) key"

definition nc_keys :: "narwhal_committee \<Rightarrow> pubkey list" where
  "nc_keys c = map fst (nc_authorities c)"

definition authorities :: "narwhal_committee \<Rightarrow> authority list" where
  "authorities c = map snd (nc_authorities c)"

definition authority_by_network_key ::
  "narwhal_committee \<Rightarrow> network_public_key \<Rightarrow> authority option" where
  "authority_by_network_key c network_key =
     map_option snd (List.find (\<lambda>(_, a). au_network_key a = network_key) (nc_authorities c))"

definition nc_size :: "narwhal_committee \<Rightarrow> nat" where
  "nc_size c = length (nc_authorities c)"

definition nc_stake :: "narwhal_committee \<Rightarrow> pubkey \<Rightarrow> stake" where
  "nc_stake c name = (case map_of (nc_authorities c) name of None \<Rightarrow> 0 | Some x \<Rightarrow> au_stake x)"

definition stake_by_id :: "narwhal_committee \<Rightarrow> authority_identifier \<Rightarrow> stake" where
  "stake_by_id c i =
     (case map_of (nc_authorities_by_id c) i of None \<Rightarrow> 0 | Some authority \<Rightarrow> au_stake authority)"

definition reached_quorum :: "narwhal_committee \<Rightarrow> stake \<Rightarrow> bool" where
  "reached_quorum c st \<longleftrightarrow> st \<ge> nc_quorum_threshold c"

definition reached_validity :: "narwhal_committee \<Rightarrow> stake \<Rightarrow> bool" where
  "reached_validity c st \<longleftrightarrow> st \<ge> nc_validity_threshold c"

text \<open>The weighted choice of \<^verbatim>\<open>rand\<close> for a generator seeded by the round is the parameter
  \<open>wchoice\<close>; \<open>None\<close> is its error, on which the code panics.\<close>

definition nc_leader ::
  "(u64 \<Rightarrow> (authority \<times> stake) list \<Rightarrow> (authority \<times> stake) option) \<Rightarrow> narwhal_committee \<Rightarrow> u64 \<Rightarrow>
   authority option" where
  "nc_leader wchoice c seed = map_option fst (wchoice seed (map (\<lambda>a. (a, au_stake a)) (authorities c)))"

definition primary :: "narwhal_committee \<Rightarrow> pubkey \<Rightarrow> config_error + multiaddr" where
  "primary c to = ok_or (NotInCommittee to) (map_option au_primary_address (map_of (nc_authorities c) to))"

definition primary_by_id :: "narwhal_committee \<Rightarrow> authority_identifier \<Rightarrow> config_error + multiaddr" where
  "primary_by_id c to =
     ok_or (NotInCommitteeId to) (map_option au_primary_address (map_of (nc_authorities_by_id c) to))"

definition nc_network_key :: "narwhal_committee \<Rightarrow> pubkey \<Rightarrow> config_error + network_public_key" where
  "nc_network_key c pk = ok_or (NotInCommittee pk) (map_option au_network_key (map_of (nc_authorities c) pk))"

definition others_primaries ::
  "narwhal_committee \<Rightarrow> pubkey \<Rightarrow> (pubkey \<times> multiaddr \<times> network_public_key) list" where
  "others_primaries c myself =
     map (\<lambda>(name, a). (name, au_primary_address a, au_network_key a))
       (filter (\<lambda>(name, _). name \<noteq> myself) (nc_authorities c))"

fun collect_some :: "'a option list \<Rightarrow> 'a list option" where
  "collect_some [] = Some []"
| "collect_some (x # xs) = do { y \<leftarrow> x; ys \<leftarrow> collect_some xs; Some (y # ys) }"

definition others_primaries_by_id ::
  "narwhal_committee \<Rightarrow> authority_identifier \<Rightarrow>
   (authority_identifier \<times> multiaddr \<times> network_public_key) list option" where
  "others_primaries_by_id c myself = do {
     tagged \<leftarrow> collect_some (map (\<lambda>(_, a). map_option (\<lambda>i. (i, a)) (authority_id a)) (nc_authorities c));
     collect_some (map (\<lambda>(_, a). do {
         i \<leftarrow> authority_id a;
         addr \<leftarrow> authority_primary_address a;
         key \<leftarrow> authority_network_key a;
         Some (i, addr, key) })
       (filter (\<lambda>(i, _). i \<noteq> myself) tagged)) }"

definition network_diff :: "narwhal_committee \<Rightarrow> narwhal_committee \<Rightarrow> multiaddr set" where
  "network_diff c other =
     set (map au_primary_address (authorities c)) - set (map au_primary_address (authorities other))"

section \<open>Updating network information\<close>

definition push_error :: "('e list + 'a) \<Rightarrow> 'e \<Rightarrow> 'e list + 'a" where
  "push_error acc e = (case acc of Inl errors \<Rightarrow> Inl (errors @ [e]) | Inr _ \<Rightarrow> Inl [e])"

fun update_table ::
  "(pubkey \<times> authority) list \<Rightarrow> (pubkey \<times> stake \<times> multiaddr) list \<Rightarrow>
   (committee_update_error list + (pubkey \<times> authority) list) \<Rightarrow>
   (committee_update_error list + (pubkey \<times> authority) list) \<times> (pubkey \<times> stake \<times> multiaddr) list" where
  "update_table [] new_info acc = (acc, new_info)"
| "update_table ((pk, authority) # rest) new_info acc =
     (case map_of new_info pk of
        Some (st, address) \<Rightarrow>
          update_table rest (AList.delete pk new_info)
            (if st = au_stake authority
             then (case acc of
                     Inr bmap \<Rightarrow> Inr (bt_insert pk (authority\<lparr>au_primary_address := address\<rparr>) bmap)
                   | Inl errors \<Rightarrow> Inl errors)
             else push_error acc (DifferentStake pk))
      | None \<Rightarrow> update_table rest new_info (push_error acc (MissingFromUpdate pk)))"

definition update_primary_network_info ::
  "(pubkey \<times> stake \<times> multiaddr) list \<Rightarrow> narwhal_committee \<Rightarrow>
   (committee_update_error list + unit) \<times> narwhal_committee" where
  "update_primary_network_info new_info c =
     (let (res, left_over) = update_table (nc_authorities c) new_info (Inr []);
          res' = fold (\<lambda>(pk, _) acc. push_error acc (UpdateNotInCommittee pk)) left_over res
      in case res' of
           Inr new_table \<Rightarrow> (Inr (), c\<lparr>nc_authorities := new_table\<rparr>)
         | Inl errs \<Rightarrow> (Inl errs, c))"

definition advance_epoch :: "narwhal_committee \<Rightarrow> epoch \<Rightarrow> narwhal_committee option" where
  "advance_epoch c new_epoch = nc_new (nc_authorities c) new_epoch"

section \<open>CommitteeBuilder\<close>

record committee_builder =
  cb_epoch :: epoch
  cb_authorities :: "(pubkey \<times> authority) list"

definition builder_new :: "epoch \<Rightarrow> committee_builder" where
  "builder_new ep = \<lparr>cb_epoch = ep, cb_authorities = []\<rparr>"

definition add_authority ::
  "pubkey \<Rightarrow> stake \<Rightarrow> multiaddr \<Rightarrow> network_public_key \<Rightarrow> string \<Rightarrow> committee_builder \<Rightarrow>
   committee_builder" where
  "add_authority protocol_key st primary_address network_key hostname b =
     b\<lparr>cb_authorities := bt_insert protocol_key
         (authority_new protocol_key st primary_address network_key hostname) (cb_authorities b)\<rparr>"

definition builder_build :: "committee_builder \<Rightarrow> narwhal_committee option" where
  "builder_build b = nc_new (cb_authorities b) (cb_epoch b)"

section \<open>The invariant of a loaded committee\<close>

lemma bt_insert_append: "\<forall>x \<in> set m. fst x < k \<Longrightarrow> bt_insert k v m = m @ [(k, v)]"
  by (induction m) auto

lemma fold_bt_insert_sorted:
  assumes "sorted_wrt (<) (map key xs)"
  shows "fold (\<lambda>x. bt_insert (key x) (val x)) xs [] = map (\<lambda>x. (key x, val x)) xs"
  using assms
proof (induction xs rule: rev_induct)
  case (snoc x xs)
  then have "\<forall>y \<in> set (map (\<lambda>x. (key x, val x)) xs). fst y < key x"
    by (auto simp: sorted_wrt_append)
  with snoc show ?case by (simp add: sorted_wrt_append bt_insert_append)
qed simp

text \<open>The total stake as an unbounded number, and the bound under which the threshold arithmetic
  does not wrap.\<close>

definition stake_total :: "narwhal_committee \<Rightarrow> nat" where
  "stake_total c = sum_list (map (\<lambda>a. unat (au_stake a)) (authorities c))"

definition stake_fits :: "narwhal_committee \<Rightarrow> bool" where
  "stake_fits c \<longleftrightarrow> 0 < stake_total c \<and> 2 * stake_total c + 3 < 2 ^ 64"

definition nc_wf :: "narwhal_committee \<Rightarrow> bool" where
  "nc_wf c \<longleftrightarrow> bt_wf (nc_authorities c) \<and> nc_size c \<le> 2 ^ 16 \<and>
     (\<forall>i < nc_size c. au_id (authorities c ! i) = word_of_nat i \<and> au_initialised (authorities c ! i)) \<and>
     nc_authorities_by_id c = map (\<lambda>a. (au_id a, a)) (authorities c) \<and>
     unat (nc_quorum_threshold c) = 2 * stake_total c div 3 + 1 \<and>
     unat (nc_validity_threshold c) = (stake_total c + 2) div 3"

lemma unat_total_stake:
  assumes "stake_fits c"
  shows "unat (nc_total_stake c) = stake_total c"
proof -
  have "sum_list (map unat (map (\<lambda>(_, x). au_stake x) (nc_authorities c))) = stake_total c"
    by (simp add: stake_total_def authorities_def comp_def case_prod_unfold)
  with assms show ?thesis
    unfolding nc_total_stake_def by (subst unat_sum_list) (auto simp: stake_fits_def)
qed

lemma unat_quorum_formula:
  fixes t :: u64
  assumes "2 * unat t + 3 < 2 ^ 64"
  shows "unat (2 * t div 3 + 1) = 2 * unat t div 3 + 1" and "unat ((t + 2) div 3) = (unat t + 2) div 3"
proof -
  have "unat (2 * t) = 2 * unat t"
    using assms by (simp add: unat_word_ariths)
  then have "unat (2 * t div 3) = 2 * unat t div 3" by (simp add: unat_div)
  then show "unat (2 * t div 3 + 1) = 2 * unat t div 3 + 1"
    using assms by (simp add: unat_word_ariths)
  have "unat (t + 2) = unat t + 2" using assms by (simp add: unat_word_ariths)
  then show "unat ((t + 2) div 3) = (unat t + 2) div 3" by (simp add: unat_div)
qed

lemma thresholds_computed:
  assumes "stake_fits c"
  shows "\<exists>q. calculate_quorum_threshold c = Some q \<and> unat q = 2 * stake_total c div 3 + 1"
    and "\<exists>v. calculate_validity_threshold c = Some v \<and> unat v = (stake_total c + 2) div 3"
proof -
  let ?q = "2 * nc_total_stake c div 3 + 1" and ?v = "(nc_total_stake c + 2) div 3"
  note t = unat_total_stake [OF assms]
  have fits: "2 * unat (nc_total_stake c) + 3 < 2 ^ 64" using assms t by (simp add: stake_fits_def)
  note u = unat_quorum_formula [OF fits, unfolded t]
  have "?q \<noteq> 0" using u(1) by (metis add_is_0 unat_0 zero_neq_one)
  then show "\<exists>q. calculate_quorum_threshold c = Some q \<and> unat q = 2 * stake_total c div 3 + 1"
    using u(1) by (simp add: calculate_quorum_threshold_def non_zero_def)
  have "0 < (stake_total c + 2) div 3" using assms by (simp add: stake_fits_def div_greater_zero_iff)
  then have "?v \<noteq> 0" using u(2) by (metis unat_0 less_irrefl)
  then show "\<exists>v. calculate_validity_threshold c = Some v \<and> unat v = (stake_total c + 2) div 3"
    using u(2) by (simp add: calculate_validity_threshold_def non_zero_def)
qed

definition index_authorities :: "(pubkey \<times> authority) list \<Rightarrow> (pubkey \<times> authority) list" where
  "index_authorities as = map (\<lambda>(identifier, (key, authority)).
     (key, authority_initialise (word_of_nat identifier) authority)) (List.enumerate 0 as)"

lemma index_authorities_nth:
  "i < length as \<Longrightarrow> index_authorities as ! i
     = (fst (as ! i), authority_initialise (word_of_nat i) (snd (as ! i)))"
  by (simp add: index_authorities_def nth_enumerate_eq case_prod_unfold)

lemma length_index_authorities [simp]: "length (index_authorities as) = length as"
  by (simp add: index_authorities_def)

lemma map_fst_index_authorities: "map fst (index_authorities as) = map fst as"
  by (rule nth_equalityI) (simp_all add: index_authorities_nth)

lemma stakes_index_authorities:
  "map (\<lambda>x. au_stake (snd x)) (index_authorities as) = map (\<lambda>x. au_stake (snd x)) as"
  by (rule nth_equalityI) (simp_all add: index_authorities_nth authority_initialise_def)

lemma index_authorities_ids:
  assumes "length as \<le> 2 ^ 16"
  shows "sorted_wrt (<) (map (\<lambda>x. au_id (snd x)) (index_authorities as))"
  using assms
  by (auto simp: sorted_wrt_iff_nth_less index_authorities_nth authority_initialise_def
      word_less_nat_alt unat_of_nat)

lemma index_authorities_by_id:
  assumes "length as \<le> 2 ^ 16"
  shows "fold (\<lambda>(_, authority). bt_insert (au_id authority) authority) (index_authorities as) []
    = map (\<lambda>(_, a). (au_id a, a)) (index_authorities as)"
  using fold_bt_insert_sorted [OF index_authorities_ids [OF assms], of snd]
  by (simp add: case_prod_unfold)

text \<open>With room for the stake and the identifiers the constructor does not panic.\<close>

lemma nc_new_wf:
  assumes "bt_wf as" "length as \<le> 2 ^ 16"
    and "0 < sum_list (map (\<lambda>(_, a). unat (au_stake a)) as)"
    and "2 * sum_list (map (\<lambda>(_, a). unat (au_stake a)) as) + 3 < 2 ^ 64"
  shows "\<exists>c. nc_new as ep = Some c \<and> nc_wf c \<and> stake_fits c \<and> nc_epoch c = ep \<and>
    nc_authorities c = index_authorities as"
proof -
  let ?c1 = "\<lparr>nc_authorities = index_authorities as,
    nc_authorities_by_id = map (\<lambda>(_, a). (au_id a, a)) (index_authorities as), nc_epoch = ep,
    nc_quorum_threshold = 0, nc_validity_threshold = 0\<rparr>"
  have tot: "stake_total (c :: narwhal_committee) = sum_list (map (\<lambda>(_, a). unat (au_stake a)) as)"
    if "nc_authorities c = index_authorities as" for c
    using arg_cong [OF stakes_index_authorities [of as], of "\<lambda>xs. sum_list (map unat xs)"] that
    by (simp add: stake_total_def authorities_def comp_def case_prod_unfold)
  have fits: "stake_fits c" if "nc_authorities c = index_authorities as" for c
    using tot [OF that] assms(3,4) by (simp add: stake_fits_def)
  have fits1: "stake_fits ?c1" by (rule fits) simp
  have same: "calculate_quorum_threshold c = calculate_quorum_threshold ?c1"
    "calculate_validity_threshold c = calculate_validity_threshold ?c1"
    if "nc_authorities c = index_authorities as" for c
    using that by (simp_all add: calculate_quorum_threshold_def calculate_validity_threshold_def
        nc_total_stake_def)
  obtain q where q: "calculate_quorum_threshold ?c1 = Some q" "unat q = 2 * stake_total ?c1 div 3 + 1"
    using thresholds_computed(1) [OF fits1] by blast
  obtain v where v: "calculate_validity_threshold ?c1 = Some v" "unat v = (stake_total ?c1 + 2) div 3"
    using thresholds_computed(2) [OF fits1] by blast
  have qv: "calculate_quorum_threshold c = Some q" "calculate_validity_threshold c = Some v"
    if "nc_authorities c = index_authorities as" for c
    using same [OF that] q(1) v(1) by simp_all
  let ?c = "?c1\<lparr>nc_validity_threshold := v, nc_quorum_threshold := q\<rparr>"
  have load: "nc_load \<lparr>nc_authorities = as, nc_authorities_by_id = [], nc_epoch = ep,
      nc_quorum_threshold = 0, nc_validity_threshold = 0\<rparr> = Some ?c"
    using index_authorities_by_id [OF assms(2)]
    by (simp add: nc_load_def index_authorities_def [symmetric] qv Let_def)
  have ids: "list_all (\<lambda>(index, (_, authority)). word_of_nat index = au_id authority)
      (List.enumerate 0 (index_authorities as))"
    by (auto simp: list_all_length nth_enumerate_eq index_authorities_nth authority_initialise_def)
  have "nc_new as ep = Some ?c"
    unfolding nc_new_def load using ids by (simp add: panic_unless_def qv)
  moreover have "nc_wf ?c"
    using assms(1,2) q(2) v(2) tot [of ?c] tot [of ?c1]
    by (simp add: nc_wf_def nc_size_def authorities_def bt_wf_def map_fst_index_authorities
        index_authorities_nth authority_initialise_def comp_def case_prod_unfold)
  ultimately show ?thesis using fits [of ?c] by simp
qed

section \<open>Members and quorums\<close>

definition ids :: "narwhal_committee \<Rightarrow> authority_identifier list" where
  "ids c = map au_id (authorities c)"

definition stake_nat :: "narwhal_committee \<Rightarrow> authority_identifier \<Rightarrow> nat" where
  "stake_nat c i = unat (stake_by_id c i)"

lemma ids_eq: "nc_wf c \<Longrightarrow> ids c = map word_of_nat [0..<nc_size c]"
  by (rule nth_equalityI) (auto simp: ids_def nc_wf_def authorities_def nc_size_def)

lemma distinct_ids: "nc_wf c \<Longrightarrow> distinct (ids c)"
  by (auto simp: ids_eq distinct_map inj_on_def nc_wf_def word_unat_eq_iff unat_of_nat)

lemma map_fst_by_id: "nc_wf c \<Longrightarrow> map fst (nc_authorities_by_id c) = ids c"
  by (simp add: nc_wf_def ids_def comp_def)

lemma authority_safe_iff:
  assumes "nc_wf c"
  shows "authority_safe c i = Some a \<longleftrightarrow> a \<in> set (authorities c) \<and> au_id a = i"
proof -
  have "distinct (map fst (nc_authorities_by_id c))"
    using distinct_ids [OF assms] map_fst_by_id [OF assms] by simp
  then have "authority_safe c i = Some a \<longleftrightarrow> (i, a) \<in> set (nc_authorities_by_id c)"
    by (auto simp: authority_safe_def intro: map_of_SomeD)
  with assms show ?thesis by (auto simp: nc_wf_def)
qed

lemma authority_safe_member:
  assumes "nc_wf c"
  shows "authority_safe c i \<noteq> None \<longleftrightarrow> i \<in> set (ids c)"
  using authority_safe_iff [OF assms] by (auto simp: ids_def)

lemma stake_by_id_authority:
  assumes "nc_wf c" "a \<in> set (authorities c)"
  shows "stake_by_id c (au_id a) = au_stake a"
  using authority_safe_iff [OF assms(1), of "au_id a" a] assms(2)
  by (simp add: authority_safe_def stake_by_id_def)

lemma stake_by_id_nonmember: "nc_wf c \<Longrightarrow> i \<notin> set (ids c) \<Longrightarrow> stake_by_id c i = 0"
  using authority_safe_member [of c i] by (simp add: stake_by_id_def authority_safe_def)

lemma stake_nat_total:
  assumes "nc_wf c"
  shows "sum (stake_nat c) (set (ids c)) = stake_total c"
proof -
  have "sum (stake_nat c) (set (ids c)) = sum_list (map (stake_nat c) (ids c))"
    using distinct_ids [OF assms] by (simp add: sum_list_distinct_set)
  also have "\<dots> = stake_total c"
    using assms by (auto simp: ids_def stake_total_def stake_nat_def stake_by_id_authority
        intro!: arg_cong [where f = sum_list])
  finally show ?thesis .
qed

interpretation narwhal: weighted_quorum "\<lambda>c. nc_wf c \<and> stake_fits c" "\<lambda>c. set (ids c)" stake_nat
  "\<lambda>c. unat (nc_quorum_threshold c)" "\<lambda>c. unat (nc_validity_threshold c)"
proof unfold_locales
  fix c assume c: "nc_wf c \<and> stake_fits c"
  then have tot: "sum (stake_nat c) (set (ids c)) = stake_total c"
    and q: "unat (nc_quorum_threshold c) = 2 * stake_total c div 3 + 1"
    and v: "unat (nc_validity_threshold c) = (stake_total c + 2) div 3"
    and pos: "0 < stake_total c"
    using stake_nat_total by (auto simp: nc_wf_def stake_fits_def)
  show "finite (set (ids c))" by simp
  show "sum (stake_nat c) (set (ids c)) + unat (nc_validity_threshold c) \<le> 2 * unat (nc_quorum_threshold c)"
    unfolding tot q v by presburger
  show "sum (stake_nat c) (set (ids c)) < unat (nc_quorum_threshold c) + unat (nc_validity_threshold c)"
    unfolding tot q v by presburger
  show "unat (nc_quorum_threshold c) \<le> sum (stake_nat c) (set (ids c))"
    unfolding tot q using pos by presburger
qed

lemma stake_sum_ids:
  assumes "nc_wf c" "finite A"
  shows "sum (stake_nat c) A = sum (stake_nat c) (A \<inter> set (ids c))"
  using assms by (intro sum.mono_neutral_right) (auto simp: stake_nat_def stake_by_id_nonmember)

lemma narwhal_stake_le:
  assumes "nc_wf c" "finite A"
  shows "sum (stake_nat c) A \<le> stake_total c"
proof -
  have "sum (stake_nat c) (A \<inter> set (ids c)) \<le> sum (stake_nat c) (set (ids c))"
    by (rule sum_map_of_le) auto
  with stake_sum_ids [OF assms] stake_nat_total [OF assms(1)] show ?thesis by simp
qed

lemma unat_stake_sum:
  assumes "nc_wf c" "stake_fits c" "distinct is"
  shows "unat (sum_list (map (stake_by_id c) is)) = sum (stake_nat c) (set is)"
proof -
  have eq: "sum_list (map unat (map (stake_by_id c) is)) = sum (stake_nat c) (set is)"
    using assms(3) by (simp add: sum_list_distinct_set stake_nat_def comp_def)
  also have "\<dots> \<le> stake_total c" using assms(1) by (intro narwhal_stake_le) auto
  finally have "sum_list (map unat (map (stake_by_id c) is)) < 2 ^ LENGTH(64)"
    using assms(2) by (simp add: stake_fits_def)
  from unat_sum_list [OF this] eq show ?thesis by simp
qed

section \<open>Updating the network information\<close>

lemma update_table_error: "\<exists>es. fst (update_table tab info (Inl errs)) = Inl es"
proof (induction tab arbitrary: info errs)
  case (Cons pa tab)
  then show ?case by (cases pa) (auto simp: push_error_def split: option.splits)
qed simp

lemma update_table_ok:
  assumes "distinct (map fst tab)"
    and "\<forall>(pk, a) \<in> set tab. \<exists>addr. map_of info pk = Some (au_stake a, addr)"
  shows "update_table tab info (Inr m) =
    (Inr (fold (\<lambda>(pk, a). bt_insert pk (a\<lparr>au_primary_address := snd (the (map_of info pk))\<rparr>)) tab m),
     filter (\<lambda>(k, _). k \<notin> fst ` set tab) info)"
  using assms
proof (induction tab arbitrary: info m)
  case (Cons pa tab)
  obtain pk a where pa: "pa = (pk, a)" by (cases pa)
  from Cons.prems pa obtain addr where addr: "map_of info pk = Some (au_stake a, addr)" by auto
  let ?info = "AList.delete pk info"
  have look: "map_of ?info k = map_of info k" if "(k, b) \<in> set tab" for k b
    using that Cons.prems(1) pa by (force simp: delete_conv')
  have ok: "\<forall>(k, b) \<in> set tab. \<exists>addr. map_of ?info k = Some (au_stake b, addr)"
    using Cons.prems(2) by (auto simp: look)
  have "fold (\<lambda>(k, b). bt_insert k (b\<lparr>au_primary_address := snd (the (map_of ?info k))\<rparr>)) tab m'
      = fold (\<lambda>(k, b). bt_insert k (b\<lparr>au_primary_address := snd (the (map_of info k))\<rparr>)) tab m'" for m'
    by (intro fold_cong) (auto simp: look)
  moreover have "filter (\<lambda>(k, _). k \<notin> fst ` set tab) ?info
      = filter (\<lambda>(k, _). k \<notin> fst ` set (pa # tab)) info"
    unfolding AList.delete_eq filter_filter by (rule filter_cong) (auto simp: pa)
  ultimately show ?case
    using Cons.IH [OF _ ok] Cons.prems(1) by (simp add: pa addr)
qed auto

lemma update_table_bad:
  assumes "distinct (map fst tab)"
    and "\<not> (\<forall>(pk, a) \<in> set tab. \<exists>addr. map_of info pk = Some (au_stake a, addr))"
  shows "\<exists>es. fst (update_table tab info acc) = Inl es"
  using assms
proof (induction tab arbitrary: info acc)
  case (Cons pa tab)
  obtain pk a where pa: "pa = (pk, a)" by (cases pa)
  show ?case
  proof (cases "\<exists>addr. map_of info pk = Some (au_stake a, addr)")
    case True
    then obtain addr where addr: "map_of info pk = Some (au_stake a, addr)" ..
    have look: "map_of (AList.delete pk info) k = map_of info k" if "(k, b) \<in> set tab" for k b
      using that Cons.prems(1) pa by (force simp: delete_conv')
    have "\<not> (\<forall>(k, b) \<in> set tab. \<exists>addr. map_of (AList.delete pk info) k = Some (au_stake b, addr))"
    proof
      assume "\<forall>(k, b) \<in> set tab. \<exists>addr. map_of (AList.delete pk info) k = Some (au_stake b, addr)"
      then have "\<forall>(k, b) \<in> set tab. \<exists>addr. map_of info k = Some (au_stake b, addr)"
        by (auto simp: look)
      with Cons.prems(2) addr show False by (simp add: pa)
    qed
    from Cons.IH [OF _ this] Cons.prems(1) show ?thesis by (simp add: pa addr)
  next
    case False
    have "push_error acc e = Inl es \<Longrightarrow> \<exists>es'. fst (update_table tab i (push_error acc e)) = Inl es'" for e es i
      using update_table_error [of tab i es] by simp
    moreover have "\<exists>es. push_error acc e = Inl es" for e
      by (simp add: push_error_def split: sum.splits)
    ultimately have "\<exists>es'. fst (update_table tab i (push_error acc e)) = Inl es'" for e i by blast
    with False show ?thesis by (auto simp: pa split: option.splits)
  qed
qed simp

lemma fold_push_error_isl:
  "isl (fold (\<lambda>(pk, _) acc. push_error acc (f pk)) xs acc) \<longleftrightarrow> xs \<noteq> [] \<or> isl acc"
proof (induction xs arbitrary: acc)
  case (Cons x xs)
  have "isl (push_error acc (f (fst x)))" by (simp add: push_error_def split: sum.splits)
  with Cons.IH show ?case by (simp add: case_prod_unfold)
qed simp

text \<open>The stake table of an update agrees with the committee: same keys, same stakes.\<close>

definition update_matches :: "(pubkey \<times> stake \<times> multiaddr) list \<Rightarrow> narwhal_committee \<Rightarrow> bool" where
  "update_matches info c \<longleftrightarrow> fst ` set info = set (nc_keys c) \<and>
     (\<forall>(pk, a) \<in> set (nc_authorities c). \<exists>addr. map_of info pk = Some (au_stake a, addr))"

lemma fold_update_sorted:
  assumes "bt_wf tab"
  shows "fold (\<lambda>(pk, a). bt_insert pk (g pk a)) tab [] = map (\<lambda>(pk, a). (pk, g pk a)) tab"
  using fold_bt_insert_sorted [of fst tab "\<lambda>(pk, a). g pk a"] assms
  by (simp add: bt_wf_def case_prod_unfold)

lemma map_of_map_key: "map_of (map (\<lambda>(k, v). (k, g k v)) xs) k = map_option (g k) (map_of xs k)"
  by (induction xs) auto

lemma update_matches_ok:
  assumes "nc_wf c" "update_matches info c"
  shows "update_primary_network_info info c = (Inr (), c\<lparr>nc_authorities :=
      map (\<lambda>(pk, a). (pk, a\<lparr>au_primary_address := snd (the (map_of info pk))\<rparr>)) (nc_authorities c)\<rparr>)"
proof -
  have bt: "bt_wf (nc_authorities c)" using assms(1) by (simp add: nc_wf_def)
  then have dist: "distinct (map fst (nc_authorities c))" by (rule bt_wf_distinct)
  have all: "\<forall>(pk, a) \<in> set (nc_authorities c). \<exists>addr. map_of info pk = Some (au_stake a, addr)"
    and keys: "fst ` set info = fst ` set (nc_authorities c)"
    using assms(2) by (auto simp: update_matches_def nc_keys_def)
  have "filter (\<lambda>(k, _). k \<notin> fst ` set (nc_authorities c)) info = []"
    unfolding filter_empty_conv using keys by force
  with update_table_ok [OF dist all, of "[]"]
    fold_update_sorted [OF bt, of "\<lambda>pk a. a\<lparr>au_primary_address := snd (the (map_of info pk))\<rparr>"]
  show ?thesis by (simp add: update_primary_network_info_def)
qed

lemma update_mismatch:
  assumes "nc_wf c" "\<not> update_matches info c"
  shows "isl (fst (update_primary_network_info info c)) \<and> snd (update_primary_network_info info c) = c"
proof -
  let ?ok = "\<forall>(pk, a) \<in> set (nc_authorities c). \<exists>addr. map_of info pk = Some (au_stake a, addr)"
  obtain res rest where ut: "update_table (nc_authorities c) info (Inr []) = (res, rest)"
    by (cases "update_table (nc_authorities c) info (Inr [])")
  have dist: "distinct (map fst (nc_authorities c))"
    using assms(1) by (simp add: nc_wf_def bt_wf_distinct)
  have "rest \<noteq> [] \<or> isl res"
  proof (cases ?ok)
    case True
    have "pk \<in> fst ` set info" if pk: "pk \<in> set (nc_keys c)" for pk
    proof -
      obtain a where "(pk, a) \<in> set (nc_authorities c)" using pk by (auto simp: nc_keys_def)
      with True have "map_of info pk \<noteq> None" by auto
      then show ?thesis by (simp add: map_of_eq_None_iff)
    qed
    then have "set (nc_keys c) \<subseteq> fst ` set info" by blast
    with True assms(2) obtain k where "k \<in> fst ` set info" "k \<notin> fst ` set (nc_authorities c)"
      unfolding update_matches_def nc_keys_def set_map by blast
    then have "filter (\<lambda>(k, _). k \<notin> fst ` set (nc_authorities c)) info \<noteq> []"
      unfolding filter_empty_conv by force
    with update_table_ok [OF dist True] ut show ?thesis by simp
  next
    case False
    from update_table_bad [OF dist this, of "Inr []"] ut show ?thesis by auto
  qed
  then have "isl (fold (\<lambda>(pk, _) acc. push_error acc (UpdateNotInCommittee pk)) rest res)"
    by (simp add: fold_push_error_isl)
  then show ?thesis
    by (auto simp: update_primary_network_info_def ut split: sum.splits)
qed

section \<open>Properties\<close>

definition demo_authority :: "nat \<Rightarrow> authority" where
  "demo_authority i = \<lparr>au_id = word_of_nat i, au_protocol_key = 10 * i, au_stake = 1,
     au_primary_address = 100 + i, au_network_key = 200 + i, au_hostname = ''host'', au_initialised = True\<rparr>"

definition demo_nc :: narwhal_committee where
  "demo_nc = \<lparr>nc_authorities = map (\<lambda>i. (10 * i, demo_authority i)) [0, 1, 2, 3],
     nc_authorities_by_id = map (\<lambda>i. (word_of_nat i, demo_authority i)) [0, 1, 2, 3],
     nc_epoch = 5, nc_quorum_threshold = 3, nc_validity_threshold = 2\<rparr>"

lemma demo_nc_total: "stake_total demo_nc = 4"
  by (simp add: stake_total_def authorities_def demo_nc_def demo_authority_def)

lemma demo_nc_wf: "nc_wf demo_nc"
  unfolding nc_wf_def demo_nc_total
  by (auto simp: authorities_def demo_nc_def demo_authority_def nc_size_def bt_wf_def nth_Cons'
      less_Suc_eq)

lemma demo_nc_fits: "stake_fits demo_nc"
  by (simp add: stake_fits_def demo_nc_total)

lemma demo_nc_stake: "stake_by_id demo_nc i = (if i \<in> {0, 1, 2, 3} then 1 else 0)"
  by (simp add: stake_by_id_def demo_nc_def demo_authority_def)

lemma demo_nc_ids: "ids demo_nc = [0, 1, 2, 3]"
  by (simp add: ids_def authorities_def demo_nc_def demo_authority_def)

text \<open>
  C32. For at most \<open>2 ^ 16\<close> authorities whose total stake \<open>N\<close> is positive and doubles within \<open>u64\<close>,
  \<^verbatim>\<open>Committee::new\<close> does not panic; the committee has the quorum threshold \<open>N - f\<close> and the validity
  threshold \<open>f + 1\<close> for the largest \<open>f\<close> with \<open>3 f < N\<close>, and identifier \<open>i\<close> names the authority with
  the \<open>i\<close>-th smallest key.
\<close>

theorem narwhal_committee_new_correct:
  assumes "bt_wf as" "length as \<le> 2 ^ 16"
    and "N = sum_list (map (\<lambda>(_, a). unat (au_stake a)) as)" "0 < N" "2 * N + 3 < 2 ^ 64"
  shows "\<exists>c. nc_new as ep = Some c \<and> nc_wf c \<and> nc_epoch c = ep \<and>
    unat (nc_quorum_threshold c) = N - (N - 1) div 3 \<and> unat (nc_validity_threshold c) = (N - 1) div 3 + 1 \<and>
    (\<forall>i < length as. authority_safe c (word_of_nat i)
       = Some ((snd (as ! i))\<lparr>au_id := word_of_nat i, au_initialised := True\<rparr>))"
proof -
  obtain c where c: "nc_new as ep = Some c" "nc_wf c" "stake_fits c" "nc_epoch c = ep"
      "nc_authorities c = index_authorities as"
    using nc_new_wf [OF assms(1,2)] assms(3-5) by blast
  have N: "stake_total c = N"
    using arg_cong [OF stakes_index_authorities [of as], of "\<lambda>xs. sum_list (map unat xs)"] c(5)
    by (simp add: assms(3) stake_total_def authorities_def comp_def case_prod_unfold)
  have "authority_safe c (word_of_nat i)
       = Some ((snd (as ! i))\<lparr>au_id := word_of_nat i, au_initialised := True\<rparr>)" if "i < length as" for i
  proof -
    have "authorities c ! i = (snd (as ! i))\<lparr>au_id := word_of_nat i, au_initialised := True\<rparr>"
      using that c(5) by (simp add: authorities_def index_authorities_nth authority_initialise_def)
    moreover have "authorities c ! i \<in> set (authorities c)"
      using that c(5) by (intro nth_mem) (simp add: authorities_def)
    ultimately show ?thesis using authority_safe_iff [OF c(2)] by simp
  qed
  moreover have "unat (nc_quorum_threshold c) = N - (N - 1) div 3"
    "unat (nc_validity_threshold c) = (N - 1) div 3 + 1"
    using c(2) N assms(4) by (auto simp: nc_wf_def)
  ultimately show ?thesis using c by blast
qed

theorem narwhal_committee_new_correct_witness:
  "\<exists>c. nc_new (map (\<lambda>i. (10 * i, authority_new (10 * i) 1 (100 + i) (200 + i) ''host'')) [0, 1, 2, 3]) 5 = Some c \<and>
    nc_wf c \<and> unat (nc_quorum_threshold c) = 3 \<and> unat (nc_validity_threshold c) = 2"
  using narwhal_committee_new_correct
    [of "map (\<lambda>i. (10 * i, authority_new (10 * i) 1 (100 + i) (200 + i) ''host'')) [0, 1, 2, 3]" 4 5]
  by (auto simp: authority_new_def bt_wf_def)

text \<open>
  \<^verbatim>\<open>update_primary_network_info\<close> succeeds exactly when the update names the committee's keys, each
  with the committee's stake; then every authority keeps everything but its address, which is the new
  one, and otherwise the committee is unchanged.
\<close>

lemma network_update_all_or_nothing:
  assumes "nc_wf c"
  shows "(update_matches info c \<longrightarrow> update_primary_network_info info c = (Inr (), c\<lparr>nc_authorities :=
      map (\<lambda>(pk, a). (pk, a\<lparr>au_primary_address := snd (the (map_of info pk))\<rparr>)) (nc_authorities c)\<rparr>)) \<and>
    (\<not> update_matches info c \<longrightarrow>
      isl (fst (update_primary_network_info info c)) \<and> snd (update_primary_network_info info c) = c)"
  using update_matches_ok [OF assms] update_mismatch [OF assms] by blast

lemma network_update_all_or_nothing_witness:
  "isl (fst (update_primary_network_info [(0, 1, 7), (10, 1, 8), (20, 1, 9)] demo_nc)) \<and>
   update_primary_network_info [(0, 1, 7), (10, 1, 8), (20, 1, 9), (30, 1, 6)] demo_nc = (Inr (),
     demo_nc\<lparr>nc_authorities := map (\<lambda>(pk, a). (pk, a\<lparr>au_primary_address :=
       snd (the (map_of [(0, 1 :: stake, 7), (10, 1, 8), (20, 1, 9), (30, 1, 6)] pk))\<rparr>)) (nc_authorities demo_nc)\<rparr>)"
proof -
  have "\<not> update_matches [(0, 1, 7), (10, 1, 8), (20, 1, 9)] demo_nc"
    "update_matches [(0, 1, 7), (10, 1, 8), (20, 1, 9), (30, 1, 6)] demo_nc"
    by (auto simp: update_matches_def demo_nc_def nc_keys_def demo_authority_def)
  then show ?thesis using network_update_all_or_nothing [OF demo_nc_wf] by blast
qed

text \<open>
  C33. After a successful \<^verbatim>\<open>update_primary_network_info\<close> the lookup by key, \<^verbatim>\<open>primary\<close>, returns the new
  address of an authority and the lookup by identifier, \<^verbatim>\<open>primary_by_id\<close>, still the old one.
\<close>

theorem network_update_leaves_id_index_stale:
  assumes "nc_wf c" "update_matches info c" "(pk, a) \<in> set (nc_authorities c)"
    and "map_of info pk = Some (st, addr)"
  shows "\<exists>c'. update_primary_network_info info c = (Inr (), c') \<and> primary c' pk = Inr addr \<and>
    primary_by_id c' (au_id a) = Inr (au_primary_address a)"
proof -
  let ?tab = "map (\<lambda>(pk, a). (pk, a\<lparr>au_primary_address := snd (the (map_of info pk))\<rparr>)) (nc_authorities c)"
  have dist: "distinct (map fst (nc_authorities c))"
    using assms(1) by (simp add: nc_wf_def bt_wf_distinct)
  then have "map_of (nc_authorities c) pk = Some a" using assms(3) by simp
  then have "map_of ?tab pk = Some (a\<lparr>au_primary_address := addr\<rparr>)"
    using assms(4) by (simp add: map_of_map_key)
  then have "primary (c\<lparr>nc_authorities := ?tab\<rparr>) pk = Inr addr" by (simp add: primary_def)
  moreover have "a \<in> set (authorities c)" using assms(3) by (force simp: authorities_def)
  then have "map_of (nc_authorities_by_id c) (au_id a) = Some a"
    using authority_safe_iff [OF assms(1)] by (simp add: authority_safe_def)
  then have "primary_by_id (c\<lparr>nc_authorities := ?tab\<rparr>) (au_id a) = Inr (au_primary_address a)"
    by (simp add: primary_by_id_def)
  ultimately show ?thesis using update_matches_ok [OF assms(1,2)] by blast
qed

theorem network_update_leaves_id_index_stale_witness:
  "\<exists>c'. update_primary_network_info [(0, 1, 7), (10, 1, 8), (20, 1, 9), (30, 1, 6)] demo_nc = (Inr (), c') \<and>
    primary c' 20 = Inr 9 \<and> primary_by_id c' 2 = Inr 102"
proof -
  have "update_matches [(0, 1, 7), (10, 1, 8), (20, 1, 9), (30, 1, 6)] demo_nc"
    by (auto simp: update_matches_def demo_nc_def nc_keys_def demo_authority_def)
  moreover have "(20, demo_authority 2) \<in> set (nc_authorities demo_nc)"
    by (simp add: demo_nc_def)
  ultimately show ?thesis
    using network_update_leaves_id_index_stale [OF demo_nc_wf, of _ 20 "demo_authority 2" 1 9]
    by (simp add: demo_authority_def)
qed

end
