(* ===== verification/Narwhal_Certificates.thy ===== *)
theory Narwhal_Certificates
  imports Narwhal_Committee
begin

text \<open>
  Headers, votes and certificates of \<^verbatim>\<open>narwhal/types/src/primary.rs\<close> (\<^verbatim>\<open>HeaderV2\<close>, \<^verbatim>\<open>VoteV1\<close>,
  \<^verbatim>\<open>CertificateV2\<close>) and the two aggregators of \<^verbatim>\<open>narwhal/primary/src/aggregators.rs\<close>. A \<open>u64\<close> that
  counts rounds or milliseconds is a natural number below \<open>2 ^ 64\<close>. The memoised digest cell of a header
  is the field \<open>h_digest\<close>, the value \<^verbatim>\<open>digest()\<close> returns; the hash function over the other fields is the
  parameter \<open>hash\<close>. The BLS operations are the record \<open>narwhal_bls\<close>; a roaring bitmap is its increasing
  list of members.
\<close>

type_synonym round = nat
type_synonym timestamp_ms = nat
type_synonym certificate_digest = nat
type_synonym signature = nat
type_synonym aggregate_bytes = "nat list"
type_synonym worker_id = u32

record header =
  h_author :: authority_identifier
  h_round :: round
  h_epoch :: epoch
  h_created_at :: timestamp_ms
  h_payload :: "(nat \<times> (worker_id \<times> timestamp_ms)) list"
  h_system_messages :: "nat list"
  h_parents :: "certificate_digest list"
  h_digest :: certificate_digest

datatype signature_verification_state =
    Unsigned aggregate_bytes
  | Unverified aggregate_bytes
  | VerifiedDirectly aggregate_bytes
  | VerifiedIndirectly aggregate_bytes
  | Genesis

record certificate =
  c_header :: header
  c_signature_verification_state :: signature_verification_state
  c_signed_authorities :: "u32 list"

record vote =
  v_header_digest :: certificate_digest
  v_round :: round
  v_epoch :: epoch
  v_origin :: authority_identifier
  v_author :: authority_identifier
  v_signature :: signature

datatype dag_error =
    InvalidEpoch epoch epoch
  | InvalidHeaderDigest
  | UnknownAuthority authority_identifier
  | HeaderHasBadWorkerIds certificate_digest
  | InvalidBitmap
  | DagCertificateRequiresQuorum
  | DagInvalidSignature
  | AuthorityReuse authority_identifier
  | TooOld certificate_digest round round
  | TooNew certificate_digest round round
  | InvalidGenesisParent certificate_digest
  | DagSuspended

record narwhal_bls =
  nb_default :: aggregate_bytes
  nb_aggregate :: "signature list \<Rightarrow> aggregate_bytes option"
  nb_well_formed :: "aggregate_bytes \<Rightarrow> bool"
  nb_verify_aggregate :: "aggregate_bytes \<Rightarrow> certificate_digest \<Rightarrow> pubkey list \<Rightarrow> bool"
  nb_verify :: "signature \<Rightarrow> certificate_digest \<Rightarrow> pubkey \<Rightarrow> bool"

type_synonym header_hash = "header \<Rightarrow> certificate_digest"
type_synonym worker_cache = "(pubkey \<times> (worker_id \<times> nat) list) list"

section \<open>Headers\<close>

definition worker_known :: "worker_cache \<Rightarrow> pubkey \<Rightarrow> worker_id \<Rightarrow> bool" where
  "worker_known cache to wid =
     (case List.find (\<lambda>(name, _). name = to) cache of
        None \<Rightarrow> False
      | Some (_, ws) \<Rightarrow> List.find (\<lambda>(w, _). w = wid) ws \<noteq> None)"

text \<open>The loop over the worker identifiers of the payload. The outer option is a panic.\<close>

fun check_workers ::
  "narwhal_committee \<Rightarrow> worker_cache \<Rightarrow> header \<Rightarrow> worker_id list \<Rightarrow> (dag_error + unit) option" where
  "check_workers c cache h [] = Some (Inr ())"
| "check_workers c cache h (wid # wids) = do {
     a \<leftarrow> nc_authority c (h_author h);
     pk \<leftarrow> authority_protocol_key a;
     if worker_known cache pk wid then check_workers c cache h wids
     else Some (Inl (HeaderHasBadWorkerIds (h_digest h))) }"

definition header_validate ::
  "header_hash \<Rightarrow> narwhal_committee \<Rightarrow> worker_cache \<Rightarrow> header \<Rightarrow> (dag_error + unit) option" where
  "header_validate hash c cache h =
     (if h_epoch h \<noteq> nc_epoch c then Some (Inl (InvalidEpoch (nc_epoch c) (h_epoch h)))
      else if hash h \<noteq> h_digest h then Some (Inl InvalidHeaderDigest)
      else if \<not> stake_by_id c (h_author h) > 0 then Some (Inl (UnknownAuthority (h_author h)))
      else check_workers c cache h (map (\<lambda>(_, (w, _)). w) (h_payload h)))"

section \<open>Certificates\<close>

definition c_round :: "certificate \<Rightarrow> round" where
  "c_round x = h_round (c_header x)"

definition c_epoch :: "certificate \<Rightarrow> epoch" where
  "c_epoch x = h_epoch (c_header x)"

definition c_origin :: "certificate \<Rightarrow> authority_identifier" where
  "c_origin x = h_author (c_header x)"

definition c_digest :: "certificate \<Rightarrow> certificate_digest" where
  "c_digest x = h_digest (c_header x)"

definition c_parents :: "certificate \<Rightarrow> certificate_digest list" where
  "c_parents x = h_parents (c_header x)"

text \<open>\<open>PartialEq\<close> looks at digest, round, epoch and origin.\<close>

definition cert_eq :: "certificate \<Rightarrow> certificate \<Rightarrow> bool" where
  "cert_eq x y \<longleftrightarrow> c_digest x = c_digest y \<and> c_round x = c_round y \<and> c_epoch x = c_epoch y \<and>
     c_origin x = c_origin y"

definition aggregated_signature :: "certificate \<Rightarrow> aggregate_bytes option" where
  "aggregated_signature x =
     (case c_signature_verification_state x of
        VerifiedDirectly b \<Rightarrow> Some b | Unverified b \<Rightarrow> Some b
      | VerifiedIndirectly b \<Rightarrow> Some b | Unsigned b \<Rightarrow> Some b | Genesis \<Rightarrow> None)"

definition genesis_header :: "header_hash \<Rightarrow> authority_identifier \<Rightarrow> epoch \<Rightarrow> header" where
  "genesis_header hash i ep =
     (let h = \<lparr>h_author = i, h_round = 0, h_epoch = ep, h_created_at = 0, h_payload = [],
               h_system_messages = [], h_parents = [], h_digest = 0\<rparr>
      in h\<lparr>h_digest := hash h\<rparr>)"

definition genesis :: "header_hash \<Rightarrow> narwhal_committee \<Rightarrow> certificate list option" where
  "genesis hash c = collect_some (map (\<lambda>a. do {
       i \<leftarrow> authority_id a;
       Some \<lparr>c_header = genesis_header hash i (nc_epoch c),
             c_signature_verification_state = Genesis, c_signed_authorities = []\<rparr> }) (authorities c))"

text \<open>The filter closure of \<^verbatim>\<open>new_unsafe\<close>, run over the enumerated authorities: it consumes the sorted
  votes and collects signatures, weight and the indices of the voters.\<close>

fun filter_votes ::
  "(nat \<times> authority) list \<Rightarrow> (authority_identifier \<times> signature) list \<Rightarrow> stake \<Rightarrow>
   (authority_identifier \<times> signature) list \<Rightarrow> u32 list \<Rightarrow>
   ((authority_identifier \<times> signature) list \<times> stake \<times> (authority_identifier \<times> signature) list
      \<times> u32 list) option" where
  "filter_votes [] votes w sigs idx = Some (votes, w, sigs, idx)"
| "filter_votes ((index, a) # as) [] w sigs idx = filter_votes as [] w sigs idx"
| "filter_votes ((index, a) # as) (v # votes) w sigs idx = do {
     i \<leftarrow> authority_id a;
     if i = fst v then do {
       s \<leftarrow> authority_stake a;
       filter_votes as (dropWhile (\<lambda>v'. v' = v) votes) (w + s) (sigs @ [v]) (idx @ [word_of_nat index]) }
     else filter_votes as (v # votes) w sigs idx }"

definition new_unsafe ::
  "narwhal_bls \<Rightarrow> narwhal_committee \<Rightarrow> header \<Rightarrow> (authority_identifier \<times> signature) list \<Rightarrow> bool \<Rightarrow>
   (dag_error + certificate) option" where
  "new_unsafe bls c h votes check_stake = do {
     (left_over, w, sigs, idx) \<leftarrow>
       filter_votes (List.enumerate 0 (authorities c)) (sort_key fst votes) 0 [] [];
     Some (
       if \<not> sorted_wrt (<) idx then Inl InvalidBitmap
       else if left_over \<noteq> [] then Inl (UnknownAuthority (fst (hd left_over)))
       else if \<not> (\<not> check_stake \<or> w \<ge> nc_quorum_threshold c) then Inl DagCertificateRequiresQuorum
       else and_then (if sigs = [] then Inr (nb_default bls)
                      else ok_or DagInvalidSignature (nb_aggregate bls (map snd sigs)))
         (\<lambda>agg. Inr \<lparr>c_header = h,
            c_signature_verification_state = (if \<not> check_stake then Unsigned agg else Unverified agg),
            c_signed_authorities = idx\<rparr>)) }"

definition new_unverified ::
  "narwhal_bls \<Rightarrow> narwhal_committee \<Rightarrow> header \<Rightarrow> (authority_identifier \<times> signature) list \<Rightarrow>
   (dag_error + certificate) option" where
  "new_unverified bls c h votes = new_unsafe bls c h votes True"

definition new_unsigned ::
  "narwhal_bls \<Rightarrow> narwhal_committee \<Rightarrow> header \<Rightarrow> (authority_identifier \<times> signature) list \<Rightarrow>
   (dag_error + certificate) option" where
  "new_unsigned bls c h votes = new_unsafe bls c h votes False"

fun signed_by_loop ::
  "(nat \<times> authority) list \<Rightarrow> u32 list \<Rightarrow> stake \<Rightarrow> pubkey list \<Rightarrow> (stake \<times> pubkey list) option" where
  "signed_by_loop [] auth_indexes w pks = Some (w, pks)"
| "signed_by_loop ((i, a) # as) [] w pks = signed_by_loop as [] w pks"
| "signed_by_loop ((i, a) # as) (index # auth_indexes) w pks =
     (if index = word_of_nat i then do {
        s \<leftarrow> authority_stake a;
        pk \<leftarrow> authority_protocol_key a;
        signed_by_loop as auth_indexes (w + s) (pks @ [pk]) }
      else signed_by_loop as (index # auth_indexes) w pks)"

definition signed_by :: "certificate \<Rightarrow> narwhal_committee \<Rightarrow> (stake \<times> pubkey list) option" where
  "signed_by x c = signed_by_loop (List.enumerate 0 (authorities c)) (c_signed_authorities x) 0 []"

definition signed_authorities :: "certificate \<Rightarrow> narwhal_committee \<Rightarrow> pubkey list option" where
  "signed_authorities x c = do {
     panic_unless (nc_epoch c = c_epoch x);
     (_, pks) \<leftarrow> signed_by x c;
     Some pks }"

definition verify_signature ::
  "narwhal_bls \<Rightarrow> certificate \<Rightarrow> pubkey list \<Rightarrow> dag_error + certificate" where
  "verify_signature bls x pks =
     (case c_signature_verification_state x of
        VerifiedIndirectly _ \<Rightarrow> Inr x
      | VerifiedDirectly _ \<Rightarrow> Inr x
      | Genesis \<Rightarrow> Inr x
      | Unsigned _ \<Rightarrow> Inl DagCertificateRequiresQuorum
      | Unverified b \<Rightarrow>
          if nb_well_formed bls b \<and> nb_verify_aggregate bls b (c_digest x) pks
          then Inr (x\<lparr>c_signature_verification_state := VerifiedDirectly b\<rparr>)
          else Inl DagInvalidSignature)"

definition cert_verify ::
  "narwhal_bls \<Rightarrow> header_hash \<Rightarrow> narwhal_committee \<Rightarrow> worker_cache \<Rightarrow> certificate \<Rightarrow>
   (dag_error + certificate) option" where
  "cert_verify bls hash c cache x =
     (if c_epoch x \<noteq> nc_epoch c then Some (Inl (InvalidEpoch (nc_epoch c) (c_epoch x)))
      else do {
        is_genesis \<leftarrow> (if c_round x = 0
                      then map_option (list_ex (\<lambda>g. cert_eq g x)) (genesis hash c) else Some False);
        if is_genesis then Some (Inr x)
        else do {
          valid \<leftarrow> header_validate hash c cache (c_header x);
          case valid of
            Inl e \<Rightarrow> Some (Inl e)
          | Inr _ \<Rightarrow> do {
              (w, pks) \<leftarrow> signed_by x c;
              Some (if \<not> w \<ge> nc_quorum_threshold c then Inl DagCertificateRequiresQuorum
                    else verify_signature bls x pks) } } })"

section \<open>Who signed a certificate\<close>

text \<open>The authorities an index list selects, and the signers of a certificate by identifier.\<close>

definition selected :: "u32 list \<Rightarrow> nat \<Rightarrow> authority list \<Rightarrow> authority list" where
  "selected idx k as = map snd (filter (\<lambda>(i, _). word_of_nat i \<in> set idx) (List.enumerate k as))"

definition cert_signers :: "narwhal_committee \<Rightarrow> certificate \<Rightarrow> authority_identifier list" where
  "cert_signers c x = map au_id (selected (c_signed_authorities x) 0 (authorities c))"

lemma selected_Cons:
  "selected idx k (a # as)
    = (if word_of_nat k \<in> set idx then a # selected idx (Suc k) as else selected idx (Suc k) as)"
  by (simp add: selected_def)

lemma selected_Nil [simp]: "selected [] k as = []" "selected idx k [] = []"
  by (simp_all add: selected_def)

lemma selected_subset: "set (selected idx k as) \<subseteq> set as"
  by (auto simp: selected_def enumerate_eq_zip dest: set_zip_rightD)

lemma u32_of_nat_less:
  "i < 2 ^ 16 \<Longrightarrow> j < 2 ^ 16 \<Longrightarrow> (word_of_nat i :: u32) < word_of_nat j \<longleftrightarrow> i < j"
  by (simp add: word_less_nat_alt unat_of_nat)

text \<open>An index below the current position is never needed again.\<close>

lemma selected_drop_index:
  assumes "i < k" "k + length as \<le> 2 ^ 16"
  shows "selected (word_of_nat i # idx) k as = selected idx k as"
  using assms
proof (induction as arbitrary: k)
  case (Cons a as)
  have "(word_of_nat k :: u32) \<noteq> word_of_nat i"
    using Cons.prems u32_of_nat_less [of i k] by auto
  with Cons show ?case by (simp add: selected_Cons)
qed simp

lemma signed_by_loop_selected:
  assumes "sorted_wrt (<) idx" "\<forall>i \<in> set idx. word_of_nat k \<le> i" "k + length as \<le> 2 ^ 16"
    and "\<forall>a \<in> set as. au_initialised a"
  shows "signed_by_loop (List.enumerate k as) idx w pks
    = Some (w + sum_list (map au_stake (selected idx k as)),
            pks @ map au_protocol_key (selected idx k as))"
  using assms
proof (induction as arbitrary: k idx w pks)
  case Nil
  then show ?case by simp
next
  case (Cons a as)
  note IH = Cons.IH [where k = "Suc k"]
  show ?case
  proof (cases idx)
    case Nil
    with IH [of "[]" w pks] Cons.prems show ?thesis by simp
  next
    case (Cons index idx')
    have ge: "\<forall>i \<in> set xs. word_of_nat (Suc k) \<le> i" if "\<forall>i \<in> set xs. (word_of_nat k :: u32) < i" for xs
    proof
      fix i assume "i \<in> set xs"
      with that have "(word_of_nat k :: u32) < i" by blast
      then have "k < unat i" using Cons.prems(3) by (simp add: word_less_nat_alt unat_of_nat)
      then show "word_of_nat (Suc k) \<le> i" using Cons.prems(3)
        by (simp add: word_le_nat_alt unat_of_nat del: of_nat_Suc)
    qed
    show ?thesis
    proof (cases "index = word_of_nat k")
      case True
      have "\<forall>i \<in> set idx'. (word_of_nat k :: u32) < i" using Cons.prems(1) Cons True by simp
      from IH [OF _ ge [OF this], of "w + au_stake a" "pks @ [au_protocol_key a]"] Cons.prems Cons True
      show ?thesis
        by (simp add: selected_Cons authority_stake_def authority_protocol_key_def panic_unless_def
            selected_drop_index add.assoc)
    next
      case False
      have "(word_of_nat k :: u32) < index" using Cons.prems(2) Cons False by (simp add: order_less_le)
      then have gt: "\<forall>i \<in> set idx. (word_of_nat k :: u32) < i" using Cons.prems(1) Cons by auto
      then have "word_of_nat k \<notin> set idx" by auto
      with IH [OF _ ge [OF gt], of w pks] Cons.prems Cons False show ?thesis
        by (simp add: selected_Cons)
    qed
  qed
qed

lemma nc_wf_authorities:
  assumes "nc_wf c"
  shows "length (authorities c) \<le> 2 ^ 16" "\<forall>a \<in> set (authorities c). au_initialised a"
    "sorted_wrt (<) (map au_id (authorities c))"
proof -
  show len: "length (authorities c) \<le> 2 ^ 16"
    using assms by (simp add: nc_wf_def nc_size_def authorities_def)
  have nth: "au_id (authorities c ! i) = word_of_nat i \<and> au_initialised (authorities c ! i)"
    if "i < length (authorities c)" for i
    using assms that by (simp add: nc_wf_def nc_size_def authorities_def)
  then show "\<forall>a \<in> set (authorities c). au_initialised a" by (auto simp: in_set_conv_nth)
  show "sorted_wrt (<) (map au_id (authorities c))"
    using nth len by (auto simp: sorted_wrt_iff_nth_less word_less_nat_alt unat_of_nat)
qed

lemma signed_by_spec:
  assumes "nc_wf c" "sorted_wrt (<) (c_signed_authorities x)"
  shows "signed_by x c = Some
    (sum_list (map au_stake (selected (c_signed_authorities x) 0 (authorities c))),
     map au_protocol_key (selected (c_signed_authorities x) 0 (authorities c)))"
  using signed_by_loop_selected [OF assms(2), of 0 "authorities c" 0 "[]"] nc_wf_authorities [OF assms(1)]
  by (simp add: signed_by_def)

lemma distinct_cert_signers:
  assumes "nc_wf c"
  shows "distinct (cert_signers c x)" "set (cert_signers c x) \<subseteq> set (ids c)"
proof -
  have "distinct (map au_id (authorities c))" using distinct_ids [OF assms] by (simp add: ids_def)
  moreover have "distinct (map au_id as) \<Longrightarrow> distinct (map au_id (selected idx k as))" for idx k as
  proof (induction as arbitrary: k)
    case (Cons a as)
    moreover have "au_id ` set (selected idx (Suc k) as) \<subseteq> au_id ` set as"
      using selected_subset by (rule image_mono)
    ultimately show ?case by (auto simp: selected_Cons)
  qed simp
  ultimately show "distinct (cert_signers c x)" by (simp add: cert_signers_def)
  show "set (cert_signers c x) \<subseteq> set (ids c)"
    using selected_subset [of _ 0 "authorities c"] by (auto simp: cert_signers_def ids_def)
qed

lemma signed_by_stake:
  assumes "nc_wf c" "stake_fits c" "sorted_wrt (<) (c_signed_authorities x)" "signed_by x c = Some (w, pks)"
  shows "unat w = sum (stake_nat c) (set (cert_signers c x))"
    and "pks = map au_protocol_key (selected (c_signed_authorities x) 0 (authorities c))"
proof -
  let ?sel = "selected (c_signed_authorities x) 0 (authorities c)"
  have "map au_stake ?sel = map (stake_by_id c) (cert_signers c x)"
    using selected_subset [of _ 0 "authorities c"] assms(1)
    by (auto simp: cert_signers_def stake_by_id_authority subset_iff)
  with signed_by_spec [OF assms(1,3)] assms(4)
  have "w = sum_list (map (stake_by_id c) (cert_signers c x))" by simp
  with unat_stake_sum [OF assms(1,2) distinct_cert_signers(1) [OF assms(1)]]
  show "unat w = sum (stake_nat c) (set (cert_signers c x))" by simp
  show "pks = map au_protocol_key ?sel" using signed_by_spec [OF assms(1,3)] assms(4) by simp
qed

section \<open>Assembling a certificate\<close>

text \<open>The authorities of an enumerated list whose identifier is among the votes.\<close>

definition voting :: "authority_identifier set \<Rightarrow> (nat \<times> authority) list \<Rightarrow> (nat \<times> authority) list" where
  "voting V ias = filter (\<lambda>(_, a). au_id a \<in> V) ias"

lemma voting_Cons:
  "voting V ((i, a) # ias) = (if au_id a \<in> V then (i, a) # voting V ias else voting V ias)"
  by (simp add: voting_def)

lemma set_dropWhile_same: "insert v (set (dropWhile (\<lambda>v'. v' = v) vs)) = insert v (set vs)"
  by (induction vs) auto

lemma filter_votes_sound:
  assumes "filter_votes ias votes w sigs idx = Some ([], w', sigs', idx')"
    and "distinct (map (\<lambda>x. au_id (snd x)) ias)" "\<forall>(_, a) \<in> set ias. au_initialised a"
  shows "fst ` set votes \<subseteq> (\<lambda>x. au_id (snd x)) ` set ias \<and>
    w' = w + sum_list (map (\<lambda>x. au_stake (snd x)) (voting (fst ` set votes) ias)) \<and>
    idx' = idx @ map (\<lambda>x. word_of_nat (fst x)) (voting (fst ` set votes) ias) \<and>
    map fst sigs' = map fst sigs @ map (\<lambda>x. au_id (snd x)) (voting (fst ` set votes) ias) \<and>
    set sigs' \<subseteq> set sigs \<union> set votes"
  using assms
proof (induction ias votes w sigs idx rule: filter_votes.induct)
  case (1 votes w sigs idx)
  then show ?case by (simp add: voting_def)
next
  case (2 index a as w sigs idx)
  then show ?case by (simp add: voting_def)
next
  case (3 index a as v votes w sigs idx)
  have init: "authority_id a = Some (au_id a)" "authority_stake a = Some (au_stake a)"
    using 3(5) by (auto simp: authority_id_def authority_stake_def panic_unless_def)
  have dist: "distinct (map (\<lambda>x. au_id (snd x)) as)" "au_id a \<notin> (\<lambda>x. au_id (snd x)) ` set as"
    and ini: "\<forall>(_, a) \<in> set as. au_initialised a"
    using 3(4,5) by auto
  show ?case
  proof (cases "au_id a = fst v")
    case True
    let ?rest = "dropWhile (\<lambda>v'. v' = v) votes"
    have run: "filter_votes as ?rest (w + au_stake a) (sigs @ [v]) (idx @ [word_of_nat index])
        = Some ([], w', sigs', idx')"
      using 3(3) init True by simp
    note IH = 3(1) [OF init(1) True init(2) run dist(1) ini]
    have votes: "set (v # votes) = insert v (set ?rest)"
      using set_dropWhile_same [of v votes] by simp
    then have ids: "fst ` set (v # votes) = insert (au_id a) (fst ` set ?rest)"
      using True by simp
    have "voting (fst ` set (v # votes)) as = voting (fst ` set ?rest) as"
      unfolding ids voting_def using dist(2) by (intro filter_cong) (auto simp: image_iff)
    then have sel: "voting (fst ` set (v # votes)) ((index, a) # as) = (index, a) # voting (fst ` set ?rest) as"
      unfolding voting_Cons ids by simp
    have "fst ` set (v # votes) \<subseteq> (\<lambda>x. au_id (snd x)) ` set ((index, a) # as)"
      unfolding ids using IH by auto
    moreover have "set sigs' \<subseteq> set sigs \<union> set (v # votes)"
      unfolding votes using IH by auto
    ultimately show ?thesis unfolding sel using IH True by (simp add: add.assoc)
  next
    case False
    have run: "filter_votes as (v # votes) w sigs idx = Some ([], w', sigs', idx')"
      using 3(3) init False by simp
    note IH = 3(2) [OF init(1) False run dist(1) ini]
    then have "au_id a \<notin> fst ` set (v # votes)" using dist(2) by blast
    then have "voting (fst ` set (v # votes)) ((index, a) # as) = voting (fst ` set (v # votes)) as"
      by (simp add: voting_def)
    then show ?thesis using IH by (simp only:) auto
  qed
qed

text \<open>Distinct votes of committee members are all consumed.\<close>

lemma filter_votes_complete:
  assumes "sorted_wrt (<) (map fst votes)" "fst ` set votes \<subseteq> (\<lambda>x. au_id (snd x)) ` set ias"
    and "sorted_wrt (<) (map (\<lambda>x. au_id (snd x)) ias)" "\<forall>(_, a) \<in> set ias. au_initialised a"
  shows "\<exists>w' sigs' idx'. filter_votes ias votes w sigs idx = Some ([], w', sigs', idx')"
  using assms
proof (induction ias votes w sigs idx rule: filter_votes.induct)
  case (1 votes w sigs idx)
  then show ?case by simp
next
  case (2 index a as w sigs idx)
  then show ?case by simp
next
  case (3 index a as v votes w sigs idx)
  have init: "authority_id a = Some (au_id a)" "authority_stake a = Some (au_stake a)"
    using 3(6) by (auto simp: authority_id_def authority_stake_def panic_unless_def)
  have sorted: "sorted_wrt (<) (map (\<lambda>x. au_id (snd x)) as)" "\<forall>i \<in> (\<lambda>x. au_id (snd x)) ` set as. au_id a < i"
    and ini: "\<forall>(_, a) \<in> set as. au_initialised a"
    using 3(5,6) by auto
  have tail: "sorted_wrt (<) (map fst votes)" "\<forall>i \<in> fst ` set votes. fst v < i"
    using 3(3) by auto
  show ?case
  proof (cases "au_id a = fst v")
    case True
    have "hd votes \<noteq> v" if "votes \<noteq> []"
      using tail(2) hd_in_set [OF that] by fastforce
    then have drop: "dropWhile (\<lambda>v'. v' = v) votes = votes"
      unfolding dropWhile_eq_self_iff by blast
    have "fst ` set votes \<subseteq> insert (au_id a) ((\<lambda>x. au_id (snd x)) ` set as)"
      "au_id a \<notin> fst ` set votes"
      using 3(4) tail(2) True by auto
    then have "fst ` set votes \<subseteq> (\<lambda>x. au_id (snd x)) ` set as"
      by (metis subset_insert)
    note sub = this
    have "\<exists>w' sigs' idx'. filter_votes as (dropWhile (\<lambda>v'. v' = v) votes) (w + au_stake a) (sigs @ [v])
        (idx @ [word_of_nat index]) = Some ([], w', sigs', idx')"
      unfolding drop by (rule 3(1) [OF init(1) True init(2), unfolded drop, OF tail(1) sub sorted(1) ini])
    then show ?thesis using init True by simp
  next
    case False
    then have "fst v \<in> (\<lambda>x. au_id (snd x)) ` set as" using 3(4) by auto
    with sorted(2) have "au_id a < fst v" by blast
    with tail(2) have "au_id a \<notin> fst ` set (v # votes)" by auto
    moreover have "fst ` set (v # votes) \<subseteq> insert (au_id a) ((\<lambda>x. au_id (snd x)) ` set as)"
      using 3(4) by simp
    ultimately have "fst ` set (v # votes) \<subseteq> (\<lambda>x. au_id (snd x)) ` set as"
      by (metis subset_insert)
    from 3(2) [OF init(1) False 3(3) this sorted(1) ini] init False show ?thesis by simp
  qed
qed

lemma voting_enumerate_index:
  assumes "(i, a) \<in> set (List.enumerate 0 as)" "length as \<le> 2 ^ 16"
  shows "(word_of_nat i :: u32) \<in> set (map (\<lambda>x. word_of_nat (fst x)) (voting V (List.enumerate 0 as)))
    \<longleftrightarrow> au_id a \<in> V"
proof
  assume "au_id a \<in> V"
  with assms(1) have "(i, a) \<in> set (voting V (List.enumerate 0 as))" by (simp add: voting_def)
  then show "(word_of_nat i :: u32) \<in> set (map (\<lambda>x. word_of_nat (fst x)) (voting V (List.enumerate 0 as)))"
    by force
next
  assume "(word_of_nat i :: u32) \<in> set (map (\<lambda>x. word_of_nat (fst x)) (voting V (List.enumerate 0 as)))"
  then obtain j b where jb: "(j, b) \<in> set (List.enumerate 0 as)" "au_id b \<in> V"
    and eq: "(word_of_nat i :: u32) = word_of_nat j"
    by (auto simp: voting_def)
  have "i < length as" "a = as ! i" "j < length as" "b = as ! j"
    using assms(1) jb(1) by (auto simp: in_set_enumerate_eq)
  moreover from this have "i = j"
    using eq assms(2) by (simp add: word_unat_eq_iff unat_of_nat)
  ultimately show "au_id a \<in> V" using jb(2) by simp
qed

lemma selected_voting:
  assumes "length as \<le> 2 ^ 16"
  shows "selected (map (\<lambda>x. word_of_nat (fst x)) (voting V (List.enumerate 0 as))) 0 as
    = map snd (voting V (List.enumerate 0 as))"
proof -
  define idx :: "u32 list" where "idx = map (\<lambda>x. word_of_nat (fst x)) (voting V (List.enumerate 0 as))"
  have "filter (\<lambda>(i, _). word_of_nat i \<in> set idx) (List.enumerate 0 as)
      = filter (\<lambda>(_, a). au_id a \<in> V) (List.enumerate 0 as)"
  proof (rule filter_cong [OF refl])
    fix x assume x: "x \<in> set (List.enumerate 0 as)"
    obtain i a where ia: "x = (i, a)" by (cases x)
    from voting_enumerate_index [OF x [unfolded ia] assms, of V]
    show "(case x of (i, _) \<Rightarrow> word_of_nat i \<in> set idx) = (case x of (_, a) \<Rightarrow> au_id a \<in> V)"
      unfolding ia prod.case idx_def .
  qed
  then show ?thesis unfolding idx_def [symmetric] selected_def by (simp only: voting_def)
qed

lemma voting_ids: "set (map (\<lambda>x. au_id (snd x)) (voting V ias)) = (\<lambda>x. au_id (snd x)) ` set ias \<inter> V"
  by (auto simp: voting_def)

lemma sorted_index_voting:
  assumes "length as \<le> 2 ^ 16"
  shows "sorted_wrt (<) (map (\<lambda>x. word_of_nat (fst x) :: u32) (voting V (List.enumerate 0 as)))"
proof -
  have "sorted_wrt (\<lambda>x y. (word_of_nat (fst x) :: u32) < word_of_nat (fst y)) (List.enumerate 0 as)"
    using assms by (auto simp: sorted_wrt_iff_nth_less nth_enumerate_eq u32_of_nat_less)
  then have "sorted_wrt (\<lambda>x y. (word_of_nat (fst x) :: u32) < word_of_nat (fst y)) (voting V (List.enumerate 0 as))"
    unfolding voting_def by (rule sorted_wrt_filter)
  then show ?thesis by (simp add: sorted_wrt_map)
qed

lemma enumerate_authorities:
  assumes "nc_wf c"
  shows "distinct (map (\<lambda>x. au_id (snd x)) (List.enumerate 0 (authorities c)))"
    "sorted_wrt (<) (map (\<lambda>x. au_id (snd x)) (List.enumerate 0 (authorities c)))"
    "\<forall>(_, a) \<in> set (List.enumerate 0 (authorities c)). au_initialised a"
    "(\<lambda>x. au_id (snd x)) ` set (List.enumerate 0 (authorities c)) = set (ids c)"
proof -
  have eq: "map (\<lambda>x. au_id (snd x)) (List.enumerate 0 (authorities c)) = map au_id (authorities c)"
    by (rule nth_equalityI) (simp_all add: nth_enumerate_eq)
  show "distinct (map (\<lambda>x. au_id (snd x)) (List.enumerate 0 (authorities c)))"
    using distinct_ids [OF assms] by (simp add: eq ids_def)
  show "sorted_wrt (<) (map (\<lambda>x. au_id (snd x)) (List.enumerate 0 (authorities c)))"
    using nc_wf_authorities(3) [OF assms] by (simp add: eq)
  show "\<forall>(_, a) \<in> set (List.enumerate 0 (authorities c)). au_initialised a"
    using nc_wf_authorities(2) [OF assms] by (auto simp: in_set_enumerate_eq)
  show "(\<lambda>x. au_id (snd x)) ` set (List.enumerate 0 (authorities c)) = set (ids c)"
    using arg_cong [OF eq, of set] by (simp add: ids_def)
qed

text \<open>What a certificate assembled from votes records, and when assembling succeeds.\<close>

lemma new_unsafe_sound:
  assumes "new_unsafe bls c h votes check = Some (Inr x)" "nc_wf c" "stake_fits c"
  shows "c_header x = h" "sorted_wrt (<) (c_signed_authorities x)"
    "set (cert_signers c x) = fst ` set votes"
    "check \<Longrightarrow> unat (nc_quorum_threshold c) \<le> sum (stake_nat c) (fst ` set votes)"
    "\<exists>b. c_signature_verification_state x = (if check then Unverified b else Unsigned b)"
proof -
  let ?ias = "List.enumerate 0 (authorities c)" and ?V = "fst ` set votes"
  note en = enumerate_authorities [OF assms(2)]
  have len: "length (authorities c) \<le> 2 ^ 16" by (rule nc_wf_authorities(1) [OF assms(2)])
  from assms(1) obtain w sigs idx where
    run: "filter_votes ?ias (sort_key fst votes) 0 [] [] = Some ([], w, sigs, idx)"
    and w: "check \<longrightarrow> nc_quorum_threshold c \<le> w"
    and x: "\<exists>agg. x = \<lparr>c_header = h,
      c_signature_verification_state = (if \<not> check then Unsigned agg else Unverified agg),
      c_signed_authorities = idx\<rparr>"
    by (auto simp: new_unsafe_def split: if_splits)
  from filter_votes_sound [OF run en(1,3)] en(4)
  have sub: "?V \<subseteq> set (ids c)"
    and ws: "w = sum_list (map (\<lambda>x. au_stake (snd x)) (voting ?V ?ias))"
    and idx: "idx = map (\<lambda>x. word_of_nat (fst x)) (voting ?V ?ias)" by auto
  show "c_header x = h" using x by auto
  show sorted: "sorted_wrt (<) (c_signed_authorities x)"
    using x idx sorted_index_voting [OF len] by auto
  have "cert_signers c x = map (\<lambda>x. au_id (snd x)) (voting ?V ?ias)"
    using x idx selected_voting [OF len] by (auto simp: cert_signers_def)
  then have "set (cert_signers c x) = set (ids c) \<inter> ?V" by (simp only: voting_ids en(4))
  then show signers: "set (cert_signers c x) = ?V" using sub by blast
  have "signed_by x c = Some (w, map au_protocol_key (map snd (voting ?V ?ias)))"
    using signed_by_spec [OF assms(2) sorted] x idx ws selected_voting [OF len]
    by (auto simp: comp_def)
  from signed_by_stake(1) [OF assms(2,3) sorted this] signers w
  show "check \<Longrightarrow> unat (nc_quorum_threshold c) \<le> sum (stake_nat c) ?V"
    by (simp add: word_le_nat_alt)
  show "\<exists>b. c_signature_verification_state x = (if check then Unverified b else Unsigned b)"
    using x by auto
qed

lemma sort_key_strict:
  assumes "distinct (map f xs)"
  shows "sorted_wrt (<) (map f (sort_key f xs))"
  using assms distinct_map [of f "sort_key f xs"]
  by (simp add: strict_sorted_iff distinct_map)

lemma new_unverified_complete:
  assumes "nc_wf c" "stake_fits c" "distinct (map fst votes)" "fst ` set votes \<subseteq> set (ids c)"
    and "unat (nc_quorum_threshold c) \<le> sum (stake_nat c) (fst ` set votes)"
    and "\<forall>ss. ss \<noteq> [] \<longrightarrow> nb_aggregate bls ss \<noteq> None"
  shows "\<exists>x. new_unverified bls c h votes = Some (Inr x)"
proof -
  let ?ias = "List.enumerate 0 (authorities c)" and ?V = "fst ` set votes"
  note en = enumerate_authorities [OF assms(1)]
  have len: "length (authorities c) \<le> 2 ^ 16" by (rule nc_wf_authorities(1) [OF assms(1)])
  obtain w sigs idx where
    run: "filter_votes ?ias (sort_key fst votes) 0 [] [] = Some ([], w, sigs, idx)"
    using filter_votes_complete [OF sort_key_strict [OF assms(3)] _ en(2,3), of 0 "[]" "[]"] assms(4) en(4)
    by auto
  from filter_votes_sound [OF run en(1,3)]
  have ws: "w = sum_list (map (\<lambda>x. au_stake (snd x)) (voting ?V ?ias))"
    and idx: "idx = map (\<lambda>x. word_of_nat (fst x)) (voting ?V ?ias)" by auto
  let ?x = "\<lparr>c_header = h, c_signature_verification_state = Genesis, c_signed_authorities = idx\<rparr>"
  have sorted: "sorted_wrt (<) (c_signed_authorities ?x)"
    using idx sorted_index_voting [OF len] by simp
  have "signed_by ?x c = Some (w, map au_protocol_key (map snd (voting ?V ?ias)))"
    using signed_by_spec [OF assms(1) sorted] idx ws selected_voting [OF len] by (simp add: comp_def)
  from signed_by_stake(1) [OF assms(1,2) sorted this]
  have "unat w = sum (stake_nat c) (set (cert_signers c ?x))" .
  also have "cert_signers c ?x = map (\<lambda>x. au_id (snd x)) (voting ?V ?ias)"
    using idx selected_voting [OF len] by (simp add: cert_signers_def)
  also have "set \<dots> = ?V" using assms(4) by (simp only: voting_ids en(4)) blast
  finally have "nc_quorum_threshold c \<le> w" using assms(5) by (simp add: word_le_nat_alt)
  moreover obtain agg where "(if sigs = [] then Inr (nb_default bls)
      else ok_or DagInvalidSignature (nb_aggregate bls (map snd sigs))) = Inr agg"
  proof (cases "sigs = []")
    case False
    then obtain v where "nb_aggregate bls (map snd sigs) = Some v"
      using assms(6) by (metis map_is_Nil_conv not_None_eq)
    with False that show thesis by (simp add: ok_or_def)
  qed (use that in simp)
  ultimately show ?thesis
    using run sorted by (simp add: new_unverified_def new_unsafe_def)
qed

text \<open>What a verified certificate that is not a genesis certificate has been checked for.\<close>

lemma cert_verify_sound:
  assumes "cert_verify bls hash c cache x = Some (Inr y)" "nc_wf c" "stake_fits c"
    and "sorted_wrt (<) (c_signed_authorities x)" "0 < c_round x"
  shows "c_header y = c_header x" "c_signed_authorities y = c_signed_authorities x"
    "hash (c_header x) = c_digest x" "c_epoch x = nc_epoch c" "c_origin x \<in> set (ids c)"
    "unat (nc_quorum_threshold c) \<le> sum (stake_nat c) (set (cert_signers c x))"
    "c_signature_verification_state x = Unverified b \<Longrightarrow>
       nb_verify_aggregate bls b (c_digest x)
         (map au_protocol_key (selected (c_signed_authorities x) 0 (authorities c))) \<and>
       c_signature_verification_state y = VerifiedDirectly b"
    "\<nexists>b. c_signature_verification_state x = Unsigned b"
proof -
  from assms(1,5) obtain w pks where ep: "c_epoch x = nc_epoch c"
    and val: "header_validate hash c cache (c_header x) = Some (Inr ())"
    and sb: "signed_by x c = Some (w, pks)" and q: "nc_quorum_threshold c \<le> w"
    and vs: "verify_signature bls x pks = Inr y"
    by (auto simp: cert_verify_def split: if_splits sum.splits)
  show "c_epoch x = nc_epoch c" by (rule ep)
  from val show "hash (c_header x) = c_digest x"
    by (auto simp: header_validate_def c_digest_def split: if_splits)
  from val have "stake_by_id c (c_origin x) > 0"
    by (auto simp: header_validate_def c_origin_def split: if_splits)
  then show "c_origin x \<in> set (ids c)"
    using stake_by_id_nonmember [OF assms(2)] by fastforce
  show "unat (nc_quorum_threshold c) \<le> sum (stake_nat c) (set (cert_signers c x))"
    using signed_by_stake(1) [OF assms(2-4) sb] q by (simp add: word_le_nat_alt)
  have pks: "pks = map au_protocol_key (selected (c_signed_authorities x) 0 (authorities c))"
    by (rule signed_by_stake(2) [OF assms(2-4) sb])
  show "c_header y = c_header x" "c_signed_authorities y = c_signed_authorities x"
    "\<nexists>b. c_signature_verification_state x = Unsigned b"
    using vs by (auto simp: verify_signature_def split: signature_verification_state.splits if_splits)
  show "nb_verify_aggregate bls b (c_digest x)
         (map au_protocol_key (selected (c_signed_authorities x) 0 (authorities c))) \<and>
       c_signature_verification_state y = VerifiedDirectly b"
    if "c_signature_verification_state x = Unverified b"
    using that vs pks by (auto simp: verify_signature_def split: if_splits)
qed

section \<open>Properties\<close>

definition demo_nbls :: narwhal_bls where
  "demo_nbls = \<lparr>nb_default = [], nb_aggregate = Some, nb_well_formed = (\<lambda>_. True),
     nb_verify_aggregate = (\<lambda>b d pks. b = pks), nb_verify = (\<lambda>s d pk. s = pk)\<rparr>"

definition demo_header :: "nat \<Rightarrow> nat \<Rightarrow> header" where
  "demo_header r i = \<lparr>h_author = word_of_nat i, h_round = r, h_epoch = 5, h_created_at = 0, h_payload = [],
     h_system_messages = [], h_parents = [], h_digest = 100 * r + i\<rparr>"

definition demo_hash :: header_hash where
  "demo_hash h = 100 * h_round h + unat (h_author h)"

definition demo_certificate :: "nat \<Rightarrow> u32 list \<Rightarrow> nat list \<Rightarrow> certificate" where
  "demo_certificate i idx b = \<lparr>c_header = demo_header 1 i, c_signature_verification_state = Unverified b,
     c_signed_authorities = idx\<rparr>"

lemma demo_verifies:
  "cert_verify demo_nbls demo_hash demo_nc [] (demo_certificate 0 [0, 1, 2] [0, 10, 20])
     = Some (Inr ((demo_certificate 0 [0, 1, 2] [0, 10, 20])\<lparr>c_signature_verification_state := VerifiedDirectly [0, 10, 20]\<rparr>))"
  "cert_verify demo_nbls demo_hash demo_nc [] (demo_certificate 1 [1, 2, 3] [10, 20, 30])
     = Some (Inr ((demo_certificate 1 [1, 2, 3] [10, 20, 30])\<lparr>c_signature_verification_state := VerifiedDirectly [10, 20, 30]\<rparr>))"
  by (simp_all add: cert_verify_def header_validate_def demo_certificate_def demo_header_def c_epoch_def
      c_round_def demo_hash_def demo_nc_stake signed_by_def verify_signature_def demo_nbls_def)
    (simp_all add: demo_nc_def authorities_def demo_authority_def authority_stake_def
      authority_protocol_key_def panic_unless_def verify_signature_def c_digest_def)

lemma demo_cert_signers:
  "cert_signers demo_nc (demo_certificate i [0, 1, 2] b) = [0, 1, 2]"
  "cert_signers demo_nc (demo_certificate i [1, 2, 3] b) = [1, 2, 3]"
  by (simp_all add: cert_signers_def selected_def demo_certificate_def demo_nc_def authorities_def
      demo_authority_def)

text \<open>
  C30. Two certificates above round 0 that pass \<^verbatim>\<open>CertificateV2::verify\<close> against the same committee have a
  common signer outside any set of authorities whose stake is below the validity threshold.
\<close>

theorem narwhal_certificates_share_correct_signer:
  assumes "nc_wf c" "stake_fits c"
    and "cert_verify bls hash c cache x = Some (Inr x')" "sorted_wrt (<) (c_signed_authorities x)" "0 < c_round x"
    and "cert_verify bls hash c cache y = Some (Inr y')" "sorted_wrt (<) (c_signed_authorities y)" "0 < c_round y"
    and "sum (stake_nat c) (F \<inter> set (ids c)) < unat (nc_validity_threshold c)"
  shows "\<exists>a. a \<in> set (cert_signers c x) \<and> a \<in> set (cert_signers c y) \<and> a \<notin> F"
proof -
  note q = cert_verify_sound(6) [OF assms(3,1,2,4,5)] cert_verify_sound(6) [OF assms(6,1,2,7,8)]
  show ?thesis
    using narwhal.quorum_intersection_correct [of c "set (cert_signers c x)" "set (cert_signers c y)" F]
      distinct_cert_signers(2) [OF assms(1)] q assms(1,2,9) by blast
qed

theorem narwhal_certificates_share_correct_signer_witness:
  "\<exists>a. a \<in> set (cert_signers demo_nc (demo_certificate 0 [0, 1, 2] [0, 10, 20])) \<and>
       a \<in> set (cert_signers demo_nc (demo_certificate 1 [1, 2, 3] [10, 20, 30])) \<and> a \<notin> {1}"
proof (rule narwhal_certificates_share_correct_signer [OF demo_nc_wf demo_nc_fits
    demo_verifies(1) _ _ demo_verifies(2)])
  show "sum (stake_nat demo_nc) ({1} \<inter> set (ids demo_nc)) < unat (nc_validity_threshold demo_nc)"
    by (simp add: demo_nc_ids stake_nat_def demo_nc_stake) (simp add: demo_nc_def)
qed (simp_all add: demo_certificate_def c_round_def demo_header_def)



end
