(* ===== verification/Consensus_Types.thy ===== *)
theory Consensus_Types
  imports Narwhal_Certificates "HOL-Library.Product_Lexorder"
begin

text \<open>
  \<^verbatim>\<open>narwhal/types/src/consensus.rs\<close>: reputation scores, committed sub-dags and their two stored forms.
  A score is a \<open>u64\<close> that wraps; sequence numbers are natural numbers below \<open>2 ^ 64\<close>.
\<close>

type_synonym sequence_number = nat

section \<open>ReputationScores\<close>

record reputation_scores =
  scores_per_authority :: "(authority_identifier \<times> u64) list"
  final_of_schedule :: bool

definition reputation_new :: "narwhal_committee \<Rightarrow> reputation_scores option" where
  "reputation_new c = do {
     scores \<leftarrow> collect_some (map (\<lambda>a. map_option (\<lambda>i. (i, 0)) (authority_id a)) (authorities c));
     Some \<lparr>scores_per_authority = hm_collect scores, final_of_schedule = False\<rparr> }"

definition add_score :: "authority_identifier \<Rightarrow> u64 \<Rightarrow> reputation_scores \<Rightarrow> reputation_scores" where
  "add_score a score s = s\<lparr>scores_per_authority :=
     (case map_of (scores_per_authority s) a of
        Some value \<Rightarrow> AList.update a (value + score) (scores_per_authority s)
      | None \<Rightarrow> AList.update a score (scores_per_authority s))\<rparr>"

definition total_authorities :: "reputation_scores \<Rightarrow> nat" where
  "total_authorities s = length (scores_per_authority s)"

definition all_zero :: "reputation_scores \<Rightarrow> bool" where
  "all_zero s \<longleftrightarrow> \<not> list_ex (\<lambda>(_, e). e > 0) (scores_per_authority s)"

text \<open>Descending by score, ties descending by identifier.\<close>

definition authorities_by_score_desc :: "reputation_scores \<Rightarrow> (authority_identifier \<times> u64) list" where
  "authorities_by_score_desc s = rev (sort_key (\<lambda>(a, score). (score, a)) (scores_per_authority s))"

section \<open>CommittedSubDag\<close>

record committed_sub_dag =
  sd_certificates :: "certificate list"
  sd_leader :: certificate
  sd_sub_dag_index :: sequence_number
  sd_reputation_score :: reputation_scores
  sd_commit_timestamp :: timestamp_ms

definition sub_dag_new ::
  "certificate list \<Rightarrow> certificate \<Rightarrow> sequence_number \<Rightarrow> reputation_scores \<Rightarrow> committed_sub_dag option \<Rightarrow>
   committed_sub_dag" where
  "sub_dag_new certificates leader sub_dag_index reputation_score previous_sub_dag =
     (let previous_sub_dag_ts = (case previous_sub_dag of None \<Rightarrow> 0 | Some s \<Rightarrow> sd_commit_timestamp s)
      in \<lparr>sd_certificates = certificates, sd_leader = leader, sd_sub_dag_index = sub_dag_index,
          sd_reputation_score = reputation_score,
          sd_commit_timestamp = max previous_sub_dag_ts (h_created_at (c_header leader))\<rparr>)"

definition sd_len :: "committed_sub_dag \<Rightarrow> nat" where
  "sd_len s = length (sd_certificates s)"

definition sd_is_empty :: "committed_sub_dag \<Rightarrow> bool" where
  "sd_is_empty s \<longleftrightarrow> sd_len s = 0"

definition num_batches :: "committed_sub_dag \<Rightarrow> nat" where
  "num_batches s = sum_list (map (\<lambda>x. length (h_payload (c_header x))) (sd_certificates s))"

definition is_last :: "certificate \<Rightarrow> committed_sub_dag \<Rightarrow> bool" where
  "is_last output s \<longleftrightarrow> (if sd_certificates s = [] then False else cert_eq (last (sd_certificates s)) output)"

definition sd_leader_round :: "committed_sub_dag \<Rightarrow> round" where
  "sd_leader_round s = c_round (sd_leader s)"

definition commit_timestamp :: "committed_sub_dag \<Rightarrow> timestamp_ms" where
  "commit_timestamp s =
     (if sd_commit_timestamp s = 0 then h_created_at (c_header (sd_leader s)) else sd_commit_timestamp s)"

section \<open>ConsensusCommit\<close>

record committed_sub_dag_shell =
  sh_certificates :: "certificate_digest list"
  sh_leader :: certificate_digest
  sh_leader_round :: round
  sh_sub_dag_index :: sequence_number
  sh_reputation_score :: reputation_scores

record consensus_commit_v2 =
  v2_certificates :: "certificate_digest list"
  v2_leader :: certificate_digest
  v2_leader_round :: round
  v2_sub_dag_index :: sequence_number
  v2_reputation_score :: reputation_scores
  v2_commit_timestamp :: timestamp_ms

datatype consensus_commit = CommitV1 committed_sub_dag_shell | CommitV2 consensus_commit_v2

fun commit_certificates :: "consensus_commit \<Rightarrow> certificate_digest list" where
  "commit_certificates (CommitV1 s) = sh_certificates s"
| "commit_certificates (CommitV2 s) = v2_certificates s"

fun commit_leader_digest :: "consensus_commit \<Rightarrow> certificate_digest" where
  "commit_leader_digest (CommitV1 s) = sh_leader s"
| "commit_leader_digest (CommitV2 s) = v2_leader s"

fun commit_leader_round :: "consensus_commit \<Rightarrow> round" where
  "commit_leader_round (CommitV1 s) = sh_leader_round s"
| "commit_leader_round (CommitV2 s) = v2_leader_round s"

fun commit_sub_dag_index :: "consensus_commit \<Rightarrow> sequence_number" where
  "commit_sub_dag_index (CommitV1 s) = sh_sub_dag_index s"
| "commit_sub_dag_index (CommitV2 s) = v2_sub_dag_index s"

fun commit_reputation_score :: "consensus_commit \<Rightarrow> reputation_scores" where
  "commit_reputation_score (CommitV1 s) = sh_reputation_score s"
| "commit_reputation_score (CommitV2 s) = v2_reputation_score s"

fun commit_commit_timestamp :: "consensus_commit \<Rightarrow> timestamp_ms" where
  "commit_commit_timestamp (CommitV1 s) = 0"
| "commit_commit_timestamp (CommitV2 s) = v2_commit_timestamp s"

definition shell_from_sub_dag :: "committed_sub_dag \<Rightarrow> committed_sub_dag_shell" where
  "shell_from_sub_dag s =
     \<lparr>sh_certificates = map c_digest (sd_certificates s), sh_leader = c_digest (sd_leader s),
      sh_leader_round = c_round (sd_leader s), sh_sub_dag_index = sd_sub_dag_index s,
      sh_reputation_score = sd_reputation_score s\<rparr>"

definition v2_from_sub_dag :: "committed_sub_dag \<Rightarrow> consensus_commit_v2" where
  "v2_from_sub_dag s =
     \<lparr>v2_certificates = map c_digest (sd_certificates s), v2_leader = c_digest (sd_leader s),
      v2_leader_round = c_round (sd_leader s), v2_sub_dag_index = sd_sub_dag_index s,
      v2_reputation_score = sd_reputation_score s, v2_commit_timestamp = sd_commit_timestamp s\<rparr>"

definition sub_dag_from_commit ::
  "consensus_commit \<Rightarrow> certificate list \<Rightarrow> certificate \<Rightarrow> committed_sub_dag" where
  "sub_dag_from_commit commit certificates leader =
     \<lparr>sd_certificates = certificates, sd_leader = leader,
      sd_sub_dag_index = commit_sub_dag_index commit,
      sd_reputation_score = commit_reputation_score commit,
      sd_commit_timestamp = commit_commit_timestamp commit\<rparr>"

section \<open>Example certificates\<close>

text \<open>Author \<open>i\<close> of round \<open>r\<close> in a dag of four authors, where every certificate has all four of the
  previous round as parents.\<close>

definition demo_node :: "nat \<Rightarrow> nat \<Rightarrow> certificate" where
  "demo_node r i = \<lparr>c_header = \<lparr>h_author = word_of_nat i, h_round = r, h_epoch = 5, h_created_at = 7 * r,
     h_payload = [], h_system_messages = [],
     h_parents = (if r \<le> 1 then [] else [10 * r - 10, 10 * r - 9, 10 * r - 8, 10 * r - 7]),
     h_digest = 10 * r + i\<rparr>, c_signature_verification_state = VerifiedDirectly [], c_signed_authorities = []\<rparr>"

lemma demo_node_simps [simp]:
  "c_round (demo_node r i) = r" "c_origin (demo_node r i) = word_of_nat i" "c_digest (demo_node r i) = 10 * r + i"
  "c_epoch (demo_node r i) = 5" "h_created_at (c_header (demo_node r i)) = 7 * r"
  "c_parents (demo_node r i) = (if r \<le> 1 then [] else [10 * r - 10, 10 * r - 9, 10 * r - 8, 10 * r - 7])"
  by (simp_all add: demo_node_def c_round_def c_origin_def c_digest_def c_epoch_def c_parents_def)

lemma demo_node_eq [simp]: "demo_node r i = demo_node q j \<longleftrightarrow> r = q \<and> i = j"
proof
  assume eq: "demo_node r i = demo_node q j"
  then have "c_round (demo_node r i) = c_round (demo_node q j)" "c_digest (demo_node r i) = c_digest (demo_node q j)" by auto
  then show "r = q \<and> i = j" by simp
qed simp

end
