(* ===== verification/Consensus_Store.thy ===== *)
theory Consensus_Store
  imports Consensus_Types
begin

text \<open>
  \<^verbatim>\<open>narwhal/storage/src/consensus_store.rs\<close>: the persistent sequence of commits. A column family is an
  ordered map; a write batch is applied as a whole or fails as a whole, and whether the write of a
  sub-dag index succeeds is the parameter \<open>db_ok\<close>. Iterating a column family succeeds.
\<close>

record consensus_store =
  cs_last_committed :: "(authority_identifier \<times> round) list"
  cs_committed_sub_dags :: "(sequence_number \<times> consensus_commit) list"

datatype store_error = StoreError

definition store_new ::
  "(authority_identifier \<times> round) list \<Rightarrow> (sequence_number \<times> consensus_commit) list \<Rightarrow> consensus_store" where
  "store_new lc sds = \<lparr>cs_last_committed = lc, cs_committed_sub_dags = sds\<rparr>"

definition store_clear :: "consensus_store \<Rightarrow> consensus_store" where
  "store_clear st = st\<lparr>cs_last_committed := [], cs_committed_sub_dags := []\<rparr>"

definition write_consensus_state ::
  "(sequence_number \<Rightarrow> bool) \<Rightarrow> (authority_identifier \<times> round) list \<Rightarrow> committed_sub_dag \<Rightarrow>
   consensus_store \<Rightarrow> store_error + consensus_store" where
  "write_consensus_state db_ok last_committed sub_dag st =
     (let commit = CommitV2 (v2_from_sub_dag sub_dag)
      in if db_ok (sd_sub_dag_index sub_dag)
         then Inr (st\<lparr>cs_last_committed := fold (\<lambda>(a, r). bt_insert a r) last_committed (cs_last_committed st),
                      cs_committed_sub_dags := bt_insert (sd_sub_dag_index sub_dag) commit (cs_committed_sub_dags st)\<rparr>)
         else Inl StoreError)"

definition read_last_committed :: "consensus_store \<Rightarrow> (authority_identifier \<times> round) list" where
  "read_last_committed st = hm_collect (cs_last_committed st)"

definition get_latest_sub_dag_index :: "consensus_store \<Rightarrow> sequence_number" where
  "get_latest_sub_dag_index st =
     (if cs_committed_sub_dags st = [] then 0 else fst (last (cs_committed_sub_dags st)))"

definition get_latest_sub_dag :: "consensus_store \<Rightarrow> consensus_commit option" where
  "get_latest_sub_dag st =
     (if cs_committed_sub_dags st = [] then None else Some (snd (last (cs_committed_sub_dags st))))"

definition read_committed_sub_dags_from :: "consensus_store \<Rightarrow> sequence_number \<Rightarrow> consensus_commit list" where
  "read_committed_sub_dags_from st from = map snd (dropWhile (\<lambda>(i, _). i < from) (cs_committed_sub_dags st))"

definition read_consensus_commit :: "consensus_store \<Rightarrow> sequence_number \<Rightarrow> consensus_commit option" where
  "read_consensus_commit st seq = map_of (cs_committed_sub_dags st) seq"

definition read_latest_commit_with_final_reputation_scores :: "consensus_store \<Rightarrow> consensus_commit option" where
  "read_latest_commit_with_final_reputation_scores st =
     List.find (\<lambda>commit. final_of_schedule (commit_reputation_score commit))
       (map snd (rev (cs_committed_sub_dags st)))"

end
