(* ===== verification/Leader_Schedule.thy ===== *)
theory Leader_Schedule
  imports Consensus_Store
begin

text \<open>
  \<^verbatim>\<open>narwhal/primary/src/consensus/leader_schedule.rs\<close>: the swap table built from final reputation scores
  and the election of the leader of an even round. The two seeded random choices of \<^verbatim>\<open>rand\<close> are
  parameters: \<open>wchoice\<close> for the stake-weighted choice, \<open>gchoice\<close> for the uniform choice of a good node;
  \<open>None\<close> is the error or the missing element on which the code panics. The in-memory dag is an ordered
  map from rounds to hash maps from authors to certificates.
\<close>

type_synonym dag = "(round \<times> (authority_identifier \<times> (certificate_digest \<times> certificate)) list) list"

record leader_swap_table =
  st_round :: round
  st_good_nodes :: "authority list"
  st_bad_nodes :: "(authority_identifier \<times> authority) list"

record choices =
  wchoice :: "u64 \<Rightarrow> (authority \<times> stake) list \<Rightarrow> (authority \<times> stake) option"
  gchoice :: "round \<Rightarrow> authority list \<Rightarrow> authority option"

definition swap_table_default :: leader_swap_table where
  "swap_table_default = \<lparr>st_round = 0, st_good_nodes = [], st_bad_nodes = []\<rparr>"

text \<open>The loop of \<^verbatim>\<open>retrieve_first_nodes\<close> with the accumulated stake.\<close>

fun retrieve_nodes_loop ::
  "narwhal_committee \<Rightarrow> stake \<Rightarrow> (authority_identifier \<times> u64) list \<Rightarrow> stake \<Rightarrow> authority list option" where
  "retrieve_nodes_loop c limit [] st = Some []"
| "retrieve_nodes_loop c limit ((aid, score) # rest) st =
     (let st' = st + stake_by_id c aid
      in if st' > limit then Some []
         else do {
           a \<leftarrow> authority_safe c aid;
           nodes \<leftarrow> retrieve_nodes_loop c limit rest st';
           Some (a # nodes) })"

definition retrieve_first_nodes ::
  "narwhal_committee \<Rightarrow> (authority_identifier \<times> u64) list \<Rightarrow> u64 \<Rightarrow> authority list option" where
  "retrieve_first_nodes c as stake_threshold =
     retrieve_nodes_loop c (stake_threshold * nc_total_stake c div 100) as 0"

definition swap_table_new ::
  "narwhal_committee \<Rightarrow> round \<Rightarrow> reputation_scores \<Rightarrow> u64 \<Rightarrow> leader_swap_table option" where
  "swap_table_new c rnd scores bad_nodes_stake_threshold = do {
     panic_unless (bad_nodes_stake_threshold \<le> 33);
     panic_unless (final_of_schedule scores);
     good \<leftarrow> retrieve_first_nodes c (authorities_by_score_desc scores) bad_nodes_stake_threshold;
     bad \<leftarrow> retrieve_first_nodes c (rev (authorities_by_score_desc scores)) bad_nodes_stake_threshold;
     tagged \<leftarrow> collect_some (map (\<lambda>a. map_option (\<lambda>i. (i, a)) (authority_id a)) bad);
     Some \<lparr>st_round = rnd, st_good_nodes = good, st_bad_nodes = hm_collect tagged\<rparr> }"

text \<open>The outer option is a panic, the inner one the result.\<close>

definition swap ::
  "choices \<Rightarrow> leader_swap_table \<Rightarrow> authority_identifier \<Rightarrow> round \<Rightarrow> authority option option" where
  "swap ch t leader leader_round =
     (if map_of (st_bad_nodes t) leader \<noteq> None
      then map_option Some (if st_good_nodes t = [] then None else gchoice ch leader_round (st_good_nodes t))
      else Some None)"

record leader_schedule =
  ls_committee :: narwhal_committee
  ls_table :: leader_swap_table

definition schedule_new :: "narwhal_committee \<Rightarrow> leader_swap_table \<Rightarrow> leader_schedule" where
  "schedule_new c table = \<lparr>ls_committee = c, ls_table = table\<rparr>"

definition schedule_from_store ::
  "narwhal_committee \<Rightarrow> consensus_store \<Rightarrow> u64 \<Rightarrow> leader_schedule option" where
  "schedule_from_store c store bad_nodes_stake_threshold = do {
     table \<leftarrow> (case read_latest_commit_with_final_reputation_scores store of
                 None \<Rightarrow> Some swap_table_default
               | Some commit \<Rightarrow> swap_table_new c (commit_leader_round commit)
                                  (commit_reputation_score commit) bad_nodes_stake_threshold);
     Some (schedule_new c table) }"

definition update_leader_swap_table :: "leader_swap_table \<Rightarrow> leader_schedule \<Rightarrow> leader_schedule" where
  "update_leader_swap_table table s = s\<lparr>ls_table := table\<rparr>"

definition schedule_leader :: "choices \<Rightarrow> leader_schedule \<Rightarrow> round \<Rightarrow> authority option" where
  "schedule_leader ch s rnd = do {
     panic_unless (rnd mod 2 = 0);
     leader \<leftarrow> nc_leader (wchoice ch) (ls_committee s) (word_of_nat rnd);
     i \<leftarrow> authority_id leader;
     swapped \<leftarrow> swap ch (ls_table s) i rnd;
     Some (case swapped of Some a \<Rightarrow> a | None \<Rightarrow> leader) }"

definition leader_certificate ::
  "choices \<Rightarrow> leader_schedule \<Rightarrow> round \<Rightarrow> dag \<Rightarrow> (authority \<times> certificate option) option" where
  "leader_certificate ch s rnd dag = do {
     leader \<leftarrow> schedule_leader ch s rnd;
     i \<leftarrow> authority_id leader;
     Some (leader, (case map_of dag rnd of
                      None \<Rightarrow> None
                    | Some x \<Rightarrow> map_option snd (map_of x i))) }"

definition num_of_bad_nodes :: "leader_schedule \<Rightarrow> nat" where
  "num_of_bad_nodes s = length (st_bad_nodes (ls_table s))"

end
