(* ===== verification/Certificate_Store.thy ===== *)
theory Certificate_Store
  imports Consensus_Store
begin

text \<open>
  \<^verbatim>\<open>narwhal/storage/src/certificate_store.rs\<close>: the certificate store with its two secondary indexes and its
  cache. The column families are ordered maps; whether a write batch succeeds is the parameter \<open>db_ok\<close>,
  and reading succeeds. The trait \<^verbatim>\<open>Cache\<close> is a record of operations on a cache state; the operations of
  the \<^verbatim>\<open>lru\<close> crate are a record, too, which the cache of the store is built from. Waking subscribers of
  \<^verbatim>\<open>notify_read\<close> is left out.
\<close>

section \<open>Caches\<close>

record 'l lru =
  lru_put :: "certificate_digest \<Rightarrow> certificate \<Rightarrow> 'l \<Rightarrow> 'l"
  lru_get :: "certificate_digest \<Rightarrow> 'l \<Rightarrow> certificate option \<times> 'l"
  lru_contains :: "certificate_digest \<Rightarrow> 'l \<Rightarrow> bool"
  lru_pop :: "certificate_digest \<Rightarrow> 'l \<Rightarrow> 'l"

record 't cache =
  cache_write :: "certificate \<Rightarrow> 't \<Rightarrow> 't"
  cache_write_all :: "certificate list \<Rightarrow> 't \<Rightarrow> 't"
  cache_read :: "certificate_digest \<Rightarrow> 't \<Rightarrow> certificate option \<times> 't"
  cache_read_all :: "certificate_digest list \<Rightarrow> 't \<Rightarrow> (certificate_digest \<times> certificate option) list \<times> 't"
  cache_contains :: "certificate_digest \<Rightarrow> 't \<Rightarrow> bool"
  cache_multi_contains :: "certificate_digest list \<Rightarrow> 't \<Rightarrow> bool list"
  cache_remove :: "certificate_digest \<Rightarrow> 't \<Rightarrow> 't"
  cache_remove_all :: "certificate_digest list \<Rightarrow> 't \<Rightarrow> 't"

fun lru_get_all ::
  "'l lru \<Rightarrow> certificate_digest list \<Rightarrow> 'l \<Rightarrow> (certificate_digest \<times> certificate option) list \<times> 'l" where
  "lru_get_all l [] t = ([], t)"
| "lru_get_all l (d # ds) t =
     (let (r, t1) = lru_get l d t; (rs, t2) = lru_get_all l ds t1 in ((d, r) # rs, t2))"

definition certificate_store_cache :: "'l lru \<Rightarrow> 'l cache" where
  "certificate_store_cache l =
     \<lparr>cache_write = \<lambda>x. lru_put l (c_digest x) x,
      cache_write_all = fold (\<lambda>x. lru_put l (c_digest x) x),
      cache_read = lru_get l,
      cache_read_all = lru_get_all l,
      cache_contains = lru_contains l,
      cache_multi_contains = \<lambda>ds t. map (\<lambda>d. lru_contains l d t) ds,
      cache_remove = lru_pop l,
      cache_remove_all = fold (lru_pop l)\<rparr>"

definition no_cache :: "unit cache" where
  "no_cache =
     \<lparr>cache_write = \<lambda>_ t. t,
      cache_write_all = \<lambda>_ t. t,
      cache_read = \<lambda>_ t. (None, t),
      cache_read_all = \<lambda>ds t. (map (\<lambda>d. (d, None)) ds, t),
      cache_contains = \<lambda>_ _. False,
      cache_multi_contains = \<lambda>ds _. map (\<lambda>_. False) ds,
      cache_remove = \<lambda>_ t. t,
      cache_remove_all = \<lambda>_ t. t\<rparr>"

section \<open>The store\<close>

record 't certificate_store =
  certificates_by_id :: "(certificate_digest \<times> certificate) list"
  certificate_id_by_round :: "((round \<times> authority_identifier) \<times> certificate_digest) list"
  certificate_id_by_origin :: "((authority_identifier \<times> round) \<times> certificate_digest) list"
  cs_cache :: 't

definition cert_store_new ::
  "(certificate_digest \<times> certificate) list \<Rightarrow> ((round \<times> authority_identifier) \<times> certificate_digest) list \<Rightarrow>
   ((authority_identifier \<times> round) \<times> certificate_digest) list \<Rightarrow> 't \<Rightarrow> 't certificate_store" where
  "cert_store_new by_id by_round by_origin cache =
     \<lparr>certificates_by_id = by_id, certificate_id_by_round = by_round, certificate_id_by_origin = by_origin,
      cs_cache = cache\<rparr>"

definition insert_rows :: "certificate \<Rightarrow> 't certificate_store \<Rightarrow> 't certificate_store" where
  "insert_rows x st = st\<lparr>
     certificates_by_id := bt_insert (c_digest x) x (certificates_by_id st),
     certificate_id_by_round := bt_insert (c_round x, c_origin x) (c_digest x) (certificate_id_by_round st),
     certificate_id_by_origin := bt_insert (c_origin x, c_round x) (c_digest x) (certificate_id_by_origin st)\<rparr>"

definition cert_write ::
  "'t cache \<Rightarrow> bool \<Rightarrow> certificate \<Rightarrow> 't certificate_store \<Rightarrow> (store_error + unit) \<times> 't certificate_store" where
  "cert_write ca db_ok x st =
     (let result = (if db_ok then Inr () else Inl StoreError);
          st1 = (if db_ok then insert_rows x st else st)
      in (result, st1\<lparr>cs_cache := cache_write ca x (cs_cache st1)\<rparr>))"

definition cert_write_all ::
  "'t cache \<Rightarrow> bool \<Rightarrow> certificate list \<Rightarrow> 't certificate_store \<Rightarrow> (store_error + unit) \<times> 't certificate_store" where
  "cert_write_all ca db_ok xs st =
     (let result = (if db_ok then Inr () else Inl StoreError);
          st1 = (if db_ok then fold insert_rows xs st else st)
      in (result, st1\<lparr>cs_cache := cache_write_all ca xs (cs_cache st1)\<rparr>))"

definition cert_read ::
  "'t cache \<Rightarrow> certificate_digest \<Rightarrow> 't certificate_store \<Rightarrow> certificate option \<times> 't certificate_store" where
  "cert_read ca d st =
     (let (r, t) = cache_read ca d (cs_cache st); st1 = st\<lparr>cs_cache := t\<rparr>
      in case r of Some x \<Rightarrow> (Some x, st1) | None \<Rightarrow> (map_of (certificates_by_id st) d, st1))"

definition read_by_index ::
  "'t cache \<Rightarrow> authority_identifier \<Rightarrow> round \<Rightarrow> 't certificate_store \<Rightarrow> certificate option \<times> 't certificate_store" where
  "read_by_index ca origin r st =
     (case map_of (certificate_id_by_origin st) (origin, r) of
        Some d \<Rightarrow> cert_read ca d st
      | None \<Rightarrow> (None, st))"

definition cert_contains :: "'t cache \<Rightarrow> certificate_digest \<Rightarrow> 't certificate_store \<Rightarrow> bool" where
  "cert_contains ca d st \<longleftrightarrow> cache_contains ca d (cs_cache st) \<or> map_of (certificates_by_id st) d \<noteq> None"

definition cert_multi_contains :: "'t cache \<Rightarrow> certificate_digest list \<Rightarrow> 't certificate_store \<Rightarrow> bool list" where
  "cert_multi_contains ca ds st =
     (let digests = List.enumerate 0 ds;
          found = cache_multi_contains ca (map snd digests) (cs_cache st);
          store_lookups = map fst (filter (\<lambda>(_, hit). \<not> hit) (zip digests found));
          store_found = map (\<lambda>(_, d). map_of (certificates_by_id st) d \<noteq> None) store_lookups
      in fold (\<lambda>((i, _), hit) found. if hit then found[i := True] else found) (zip store_lookups store_found) found)"

definition cert_read_all ::
  "'t cache \<Rightarrow> certificate_digest list \<Rightarrow> 't certificate_store \<Rightarrow> certificate option list \<times> 't certificate_store" where
  "cert_read_all ca ds st =
     (let (cached, t) = cache_read_all ca ds (cs_cache st);
          found = fold (\<lambda>(d, x) m. case x of Some y \<Rightarrow> AList.update d y m | None \<Rightarrow> m) cached [];
          missing = map fst (filter (\<lambda>(_, x). x = None) cached);
          from_store = map (map_of (certificates_by_id st)) missing;
          found = fold (\<lambda>(x, d) m. case x of Some y \<Rightarrow> AList.update d y m | None \<Rightarrow> m) (zip from_store missing) found
      in (map (map_of found) ds, st\<lparr>cs_cache := t\<rparr>))"

definition cert_delete ::
  "'t cache \<Rightarrow> bool \<Rightarrow> certificate_digest \<Rightarrow> 't certificate_store \<Rightarrow> (store_error + unit) \<times> 't certificate_store" where
  "cert_delete ca db_ok d st =
     (case cert_read ca d st of
        (None, st1) \<Rightarrow> (Inr (), st1)
      | (Some x, st1) \<Rightarrow>
          if db_ok
          then (Inr (), st1\<lparr>certificates_by_id := AList.delete d (certificates_by_id st1),
                  certificate_id_by_round := AList.delete (c_round x, c_origin x) (certificate_id_by_round st1),
                  cs_cache := cache_remove ca d (cs_cache st1)\<rparr>)
          else (Inl StoreError, st1))"

definition cert_delete_all ::
  "'t cache \<Rightarrow> bool \<Rightarrow> certificate_digest list \<Rightarrow> 't certificate_store \<Rightarrow> (store_error + unit) \<times> 't certificate_store" where
  "cert_delete_all ca db_ok ds st =
     (let (certs, st1) = cert_read_all ca ds st;
          keys_by_round = map (\<lambda>x. (c_round x, c_origin x)) (List.map_filter id certs)
      in if keys_by_round = [] then (Inr (), st1)
         else if db_ok
         then (Inr (), st1\<lparr>
                 certificate_id_by_round := fold AList.delete keys_by_round (certificate_id_by_round st1),
                 certificates_by_id := fold AList.delete ds (certificates_by_id st1),
                 cs_cache := cache_remove_all ca ds (cs_cache st1)\<rparr>)
         else (Inl StoreError, st1))"

section \<open>Queries by round and origin\<close>

text \<open>The iterators of \<^verbatim>\<open>typed-store\<close>: from a key on, and from the last key not after a key on.\<close>

definition skip_to :: "'k::linorder \<Rightarrow> ('k \<times> 'v) list \<Rightarrow> ('k \<times> 'v) list" where
  "skip_to k table = dropWhile (\<lambda>(k', _). k' < k) table"

definition skip_prior_to :: "'k::linorder \<Rightarrow> ('k \<times> 'v) list \<Rightarrow> ('k \<times> 'v) list" where
  "skip_prior_to k table =
     (let upto = takeWhile (\<lambda>(k', _). k' \<le> k) table
      in if upto = [] then [] else last upto # dropWhile (\<lambda>(k', _). k' \<le> k) table)"

definition rows_from_round ::
  "round \<Rightarrow> 't certificate_store \<Rightarrow> ((round \<times> authority_identifier) \<times> certificate_digest) list" where
  "rows_from_round r st =
     (if r > 0 then skip_to (u64_sub r 1, 0) (certificate_id_by_round st) else certificate_id_by_round st)"

definition after_round :: "round \<Rightarrow> 't certificate_store \<Rightarrow> store_error + certificate list" where
  "after_round r st =
     (let digests = map snd (filter (\<lambda>((r', _), _). r' \<ge> r) (rows_from_round r st))
      in ok_or StoreError (collect_some (map (map_of (certificates_by_id st)) digests)))"

definition origins_after_round :: "round \<Rightarrow> 't certificate_store \<Rightarrow> (round \<times> authority_identifier list) list" where
  "origins_after_round r st =
     fold (\<lambda>((r', origin), _) result.
         if r' < r then result
         else bt_insert r' ((case map_of result r' of None \<Rightarrow> [] | Some os \<Rightarrow> os) @ [origin]) result)
       (rows_from_round r st) []"

fun last_two_loop ::
  "(certificate_digest \<times> certificate) list \<Rightarrow> ((round \<times> authority_identifier) \<times> certificate_digest) list \<Rightarrow>
   round \<Rightarrow> certificate list \<Rightarrow> store_error + certificate list" where
  "last_two_loop by_id [] r acc = Inr acc"
| "last_two_loop by_id (((cr, _), d) # rest) r acc =
     (if r \<noteq> 0 \<and> cr < u64_sub r 1 then Inr acc
      else case map_of by_id d of
             None \<Rightarrow> Inl StoreError
           | Some x \<Rightarrow> last_two_loop by_id rest (if r = 0 then cr else r) (acc @ [x]))"

definition last_two_rounds_certs :: "'t certificate_store \<Rightarrow> store_error + certificate list" where
  "last_two_rounds_certs st = last_two_loop (certificates_by_id st) (rev (certificate_id_by_round st)) 0 []"

definition store_last_round ::
  "'t cache \<Rightarrow> authority_identifier \<Rightarrow> 't certificate_store \<Rightarrow> certificate option \<times> 't certificate_store" where
  "store_last_round ca origin st =
     (case skip_prior_to (origin, 2 ^ 64 - 1) (certificate_id_by_origin st) of
        ((name, _), d) # _ \<Rightarrow> if name = origin then cert_read ca d st else (None, st)
      | [] \<Rightarrow> (None, st))"

definition highest_round_number :: "'t certificate_store \<Rightarrow> round" where
  "highest_round_number st = (case rev (certificate_id_by_round st) of ((r, _), _) # _ \<Rightarrow> r | [] \<Rightarrow> 0)"

definition last_round_number :: "authority_identifier \<Rightarrow> 't certificate_store \<Rightarrow> round option" where
  "last_round_number origin st =
     (case skip_prior_to (origin, 2 ^ 64 - 1) (certificate_id_by_origin st) of
        ((name, r), _) # _ \<Rightarrow> if name = origin then Some r else None
      | [] \<Rightarrow> None)"

definition next_round_number :: "authority_identifier \<Rightarrow> round \<Rightarrow> 't certificate_store \<Rightarrow> round option" where
  "next_round_number origin r st =
     (case skip_to (origin, u64_add r 1) (certificate_id_by_origin st) of
        ((name, r'), _) # _ \<Rightarrow> if name = origin then Some r' else None
      | [] \<Rightarrow> None)"

definition cert_store_clear :: "'t certificate_store \<Rightarrow> 't certificate_store" where
  "cert_store_clear st =
     st\<lparr>certificates_by_id := [], certificate_id_by_round := [], certificate_id_by_origin := []\<rparr>"

definition cert_store_is_empty :: "'t certificate_store \<Rightarrow> bool" where
  "cert_store_is_empty st \<longleftrightarrow> certificates_by_id st = []"

end
