(* ===== verification/Consensus_State.thy ===== *)
theory Consensus_State
  imports Leader_Schedule Certificate_Store
begin

text \<open>
  \<^verbatim>\<open>narwhal/primary/src/consensus/state.rs\<close> and \<^verbatim>\<open>utils.rs\<close>: the state of consensus, inserting a
  certificate into the dag, cleaning up after a commit, recovery from the store, and flattening the
  history of a leader. A panic is \<open>None\<close>. Metrics are left out.
\<close>

datatype consensus_error =
    CertificateEquivocation certificate certificate
  | ConsensusStoreError

record consensus_round =
  committed_round :: round
  gc_round :: round

record consensus_state =
  last_round :: consensus_round
  gc_depth :: round
  last_committed :: "(authority_identifier \<times> round) list"
  last_committed_sub_dag :: "committed_sub_dag option"
  state_dag :: dag

section \<open>Rounds\<close>

definition calc_gc_round :: "round \<Rightarrow> round \<Rightarrow> round" where
  "calc_gc_round commit_round depth = commit_round - depth"

definition round_new :: "round \<Rightarrow> round \<Rightarrow> consensus_round" where
  "round_new committed gc = \<lparr>committed_round = committed, gc_round = gc\<rparr>"

definition round_new_with_gc_depth :: "round \<Rightarrow> round \<Rightarrow> consensus_round" where
  "round_new_with_gc_depth committed depth =
     \<lparr>committed_round = committed, gc_round = calc_gc_round committed depth\<rparr>"

definition round_update :: "round \<Rightarrow> round \<Rightarrow> consensus_round \<Rightarrow> consensus_round" where
  "round_update new_committed_round depth r =
     (let last_committed_round = max (committed_round r) new_committed_round
      in \<lparr>committed_round = last_committed_round, gc_round = calc_gc_round last_committed_round depth\<rparr>)"

section \<open>Inserting certificates\<close>

definition check_parents :: "certificate \<Rightarrow> dag \<Rightarrow> round \<Rightarrow> unit option" where
  "check_parents x dag gc =
     (if c_round x \<le> u64_add gc 1 then Some ()
      else case map_of dag (u64_sub (c_round x) 1) of
             Some round_table \<Rightarrow>
               panic_unless (list_all (\<lambda>p. p \<in> set (map (\<lambda>(_, (d, _)). d) round_table)) (c_parents x))
           | None \<Rightarrow> None)"

definition try_insert_in_dag ::
  "dag \<Rightarrow> (authority_identifier \<times> round) list \<Rightarrow> round \<Rightarrow> certificate \<Rightarrow>
   ((consensus_error + bool) \<times> dag) option" where
  "try_insert_in_dag dag committed gc x =
     (if c_round x \<le> gc then Some (Inr False, dag)
      else do {
        check_parents x dag gc;
        let table = (case map_of dag (c_round x) of None \<Rightarrow> [] | Some t \<Rightarrow> t);
        let existing = map_of table (c_origin x);
        let dag' = bt_insert (c_round x) (AList.update (c_origin x) (c_digest x, x) table) dag;
        let fresh = c_round x > (case map_of committed (c_origin x) of None \<Rightarrow> 0 | Some r \<Rightarrow> r);
        Some (case existing of
            Some (_, y) \<Rightarrow> if c_digest y \<noteq> c_digest x then Inl (CertificateEquivocation x y) else Inr fresh
          | None \<Rightarrow> Inr fresh, dag') })"

definition try_insert ::
  "certificate \<Rightarrow> consensus_state \<Rightarrow> ((consensus_error + bool) \<times> consensus_state) option" where
  "try_insert x s = do {
     (r, dag') \<leftarrow> try_insert_in_dag (state_dag s) (last_committed s) (gc_round (last_round s)) x;
     Some (r, s\<lparr>state_dag := dag'\<rparr>) }"

definition state_update :: "certificate \<Rightarrow> consensus_state \<Rightarrow> consensus_state" where
  "state_update x s =
     (let lc = AList.update (c_origin x)
                 (case map_of (last_committed s) (c_origin x) of
                    Some r \<Rightarrow> max r (c_round x) | None \<Rightarrow> c_round x) (last_committed s);
          lr = round_update (c_round x) (gc_depth s) (last_round s)
      in s\<lparr>last_committed := lc, last_round := lr,
           state_dag := filter (\<lambda>(r, _). r > gc_round lr) (state_dag s)\<rparr>)"

definition next_sub_dag_index :: "consensus_state \<Rightarrow> sequence_number" where
  "next_sub_dag_index s =
     u64_add (case last_committed_sub_dag s of None \<Rightarrow> 0 | Some sd \<Rightarrow> sd_sub_dag_index sd) 1"

section \<open>Creation and recovery\<close>

definition state_new :: "round \<Rightarrow> consensus_state" where
  "state_new depth = \<lparr>last_round = \<lparr>committed_round = 0, gc_round = 0\<rparr>, gc_depth = depth,
     last_committed = [], last_committed_sub_dag = None, state_dag = []\<rparr>"

fun insert_all ::
  "dag \<Rightarrow> (authority_identifier \<times> round) list \<Rightarrow> round \<Rightarrow> certificate list \<Rightarrow>
   (consensus_error + dag) option" where
  "insert_all dag committed gc [] = Some (Inr dag)"
| "insert_all dag committed gc (x # xs) = do {
     (r, dag') \<leftarrow> try_insert_in_dag dag committed gc x;
     case r of
       Inl e \<Rightarrow> Some (Inl e)
     | Inr _ \<Rightarrow> insert_all dag' committed gc xs }"

definition construct_dag_from_cert_store ::
  "'t certificate_store \<Rightarrow> (authority_identifier \<times> round) list \<Rightarrow> round \<Rightarrow> (consensus_error + dag) option" where
  "construct_dag_from_cert_store cert_store committed gc =
     (case after_round (u64_add gc 1) cert_store of
        Inl _ \<Rightarrow> None
      | Inr certificates \<Rightarrow> insert_all [] committed gc certificates)"

text \<open>Reading certificates one after the other; a missing one is a panic.\<close>

fun read_each ::
  "'t cache \<Rightarrow> certificate_digest list \<Rightarrow> 't certificate_store \<Rightarrow> (certificate list \<times> 't certificate_store) option" where
  "read_each ca [] st = Some ([], st)"
| "read_each ca (d # ds) st =
     (case cert_read ca d st of
        (None, _) \<Rightarrow> None
      | (Some x, st1) \<Rightarrow> do { (xs, st2) \<leftarrow> read_each ca ds st1; Some (x # xs, st2) })"

definition state_new_from_store ::
  "'t cache \<Rightarrow> round \<Rightarrow> round \<Rightarrow> (authority_identifier \<times> round) list \<Rightarrow> consensus_commit option \<Rightarrow>
   't certificate_store \<Rightarrow> consensus_state option" where
  "state_new_from_store ca last_committed_round depth recovered latest cert_store = do {
     let lr = round_new_with_gc_depth last_committed_round depth;
     res \<leftarrow> construct_dag_from_cert_store cert_store recovered (gc_round lr);
     dag \<leftarrow> (case res of Inl _ \<Rightarrow> None | Inr d \<Rightarrow> Some d);
     sub_dag \<leftarrow> (case latest of
         None \<Rightarrow> Some None
       | Some commit \<Rightarrow> do {
           (certificates, st1) \<leftarrow> read_each ca (commit_certificates commit) cert_store;
           leader \<leftarrow> fst (cert_read ca (commit_leader_digest commit) st1);
           Some (Some (sub_dag_from_commit commit certificates leader)) });
     Some \<lparr>last_round = lr, gc_depth = depth, last_committed = recovered,
           last_committed_sub_dag = sub_dag, state_dag = dag\<rparr> }"

section \<open>Flattening the history of a leader\<close>

definition find_parent :: "dag \<Rightarrow> certificate \<Rightarrow> certificate_digest \<Rightarrow> (certificate_digest \<times> certificate) option" where
  "find_parent dag x parent =
     (case map_of dag (u64_sub (c_round x) 1) of
        None \<Rightarrow> None
      | Some table \<Rightarrow> List.find (\<lambda>(d, _). d = parent) (map snd table))"

definition already_committed :: "(authority_identifier \<times> round) list \<Rightarrow> certificate \<Rightarrow> bool" where
  "already_committed committed x =
     (case map_of committed (c_origin x) of None \<Rightarrow> False | Some r \<Rightarrow> c_round x \<le> r)"

text \<open>The loop over the parents of \<open>x\<close>: the stack (top first) and the digests already ordered.\<close>

fun push_parents ::
  "dag \<Rightarrow> (authority_identifier \<times> round) list \<Rightarrow> certificate \<Rightarrow> certificate_digest list \<Rightarrow>
   certificate list \<Rightarrow> certificate_digest list \<Rightarrow> (certificate list \<times> certificate_digest list) option" where
  "push_parents dag committed x [] buffer ordered = Some (buffer, ordered)"
| "push_parents dag committed x (parent # parents) buffer ordered =
     (case find_parent dag x parent of
        None \<Rightarrow> None
      | Some (d, y) \<Rightarrow>
          if d \<in> set ordered \<or> already_committed committed y
          then push_parents dag committed x parents buffer ordered
          else push_parents dag committed x parents (y # buffer) (d # ordered))"

definition dag_digests :: "dag \<Rightarrow> certificate_digest list" where
  "dag_digests dag = concat (map (\<lambda>row. map (\<lambda>e. fst (snd e)) (snd row)) dag)"

lemma dag_digestsI: "(r, t) \<in> set dag \<Longrightarrow> (a, (d, y)) \<in> set t \<Longrightarrow> d \<in> set (dag_digests dag)"
  by (force simp: dag_digests_def)

lemma find_parent_digest:
  assumes "find_parent dag x parent = Some (d, y)"
  shows "d \<in> set (dag_digests dag)"
proof -
  from assms obtain table where table: "map_of dag (u64_sub (c_round x) 1) = Some table"
    and f: "List.find (\<lambda>(d, _). d = parent) (map snd table) = Some (d, y)"
    by (auto simp: find_parent_def split: option.splits)
  from find_SomeD [OF f] obtain a where a: "(a, (d, y)) \<in> set table" by auto
  from dag_digestsI [OF map_of_SomeD [OF table] a] show ?thesis .
qed

lemma push_parents_measure:
  assumes "push_parents dag committed x parents buffer ordered = Some (buffer', ordered')"
  shows "(buffer', ordered') = (buffer, ordered) \<or>
    card (set (dag_digests dag) - set ordered') < card (set (dag_digests dag) - set ordered)"
  using assms
proof (induction dag committed x parents buffer ordered rule: push_parents.induct)
  case (2 dag committed x parent parents buffer ordered)
  from 2(3) obtain d y where f: "find_parent dag x parent = Some (d, y)"
    by (auto split: option.splits)
  show ?case
  proof (cases "d \<in> set ordered \<or> already_committed committed y")
    case True
    with 2(1) [OF f refl True] 2(3) f show ?thesis by simp
  next
    case False
    let ?D = "set (dag_digests dag)"
    have "card (?D - set (d # ordered)) < card (?D - set ordered)"
      using find_parent_digest [OF f] False by (intro psubset_card_mono) auto
    with 2(2) [OF f refl False] 2(3) f False show ?thesis by auto
  qed
qed simp

function (sequential) order_loop ::
  "dag \<Rightarrow> (authority_identifier \<times> round) list \<Rightarrow> round \<Rightarrow> certificate list \<Rightarrow> certificate_digest list \<Rightarrow>
   certificate list \<Rightarrow> certificate list option" where
  "order_loop dag committed gc [] seen ordered = Some ordered"
| "order_loop dag committed gc (x # buffer) seen ordered =
     (if c_round x = u64_add gc 1 then order_loop dag committed gc buffer seen (ordered @ [x])
      else case push_parents dag committed x (c_parents x) buffer seen of
             None \<Rightarrow> None
           | Some (buffer', seen') \<Rightarrow> order_loop dag committed gc buffer' seen' (ordered @ [x]))"
  by pat_completeness auto
termination
proof (relation "inv_image (less_than <*lex*> less_than)
    (\<lambda>(dag, committed, gc, buffer, seen, ordered).
       (card (set (dag_digests dag) - set seen), length buffer))")
  fix dag committed gc x buffer seen ordered p buffer' seen'
  assume "push_parents dag committed x (c_parents x) buffer seen = Some p" "(buffer', seen') = p"
  then show "((dag, committed, gc, buffer', seen', ordered @ [x]), dag, committed, gc, x # buffer, seen, ordered)
    \<in> inv_image (less_than <*lex*> less_than)
    (\<lambda>(dag, committed, gc, buffer, seen, ordered).
       (card (set (dag_digests dag) - set seen), length buffer))"
    using push_parents_measure [of dag committed x "c_parents x" buffer seen buffer' seen'] by auto
qed auto

definition order_dag :: "certificate \<Rightarrow> consensus_state \<Rightarrow> certificate list option" where
  "order_dag leader s = do {
     panic_unless (c_round leader > 0);
     let gc = c_round leader - gc_depth s;
     ordered \<leftarrow> order_loop (state_dag s) (last_committed s) gc [leader] [] [];
     Some (sort_key c_round ordered) }"

end
