(* ===== verification/Dag_Invariants.thy ===== *)
theory Dag_Invariants
  imports Consensus_State
begin

text \<open>
  The in-memory dag as a set of certificates: lookups, insertion and garbage collection in terms of
  that set, the closure of the dag under parents, and what \<^verbatim>\<open>order_dag\<close> returns: it does not panic, and
  returns every uncommitted certificate of the leader's history above the garbage collection round
  exactly once, by ascending round.
\<close>

section \<open>The certificates of a dag\<close>

definition certs :: "dag \<Rightarrow> certificate set" where
  "certs dag = {x. \<exists>r t a d. (r, t) \<in> set dag \<and> (a, (d, x)) \<in> set t}"

definition row_ok :: "round \<Rightarrow> (authority_identifier \<times> (certificate_digest \<times> certificate)) list \<Rightarrow> bool" where
  "row_ok r t \<longleftrightarrow> distinct (map fst t) \<and>
     (\<forall>(a, (d, x)) \<in> set t. c_round x = r \<and> c_origin x = a \<and> c_digest x = d)"

definition dag_ok :: "dag \<Rightarrow> bool" where
  "dag_ok dag \<longleftrightarrow> bt_wf dag \<and> (\<forall>(r, t) \<in> set dag. row_ok r t)"

lemma certs_Nil [simp]: "certs [] = {}"
  by (simp add: certs_def)

lemma dag_ok_Nil [simp]: "dag_ok []"
  by (simp add: dag_ok_def bt_wf_def)

lemma row_ok_lookup:
  assumes "row_ok r t"
  shows "map_of t a = Some (d, x) \<longleftrightarrow> (a, (d, x)) \<in> set t"
    and "map_of t a = Some (d, x) \<Longrightarrow> c_round x = r \<and> c_origin x = a \<and> c_digest x = d"
proof -
  show eq: "map_of t a = Some (d, x) \<longleftrightarrow> (a, (d, x)) \<in> set t"
    using assms by (simp add: row_ok_def)
  show "map_of t a = Some (d, x) \<Longrightarrow> c_round x = r \<and> c_origin x = a \<and> c_digest x = d"
    using assms eq by (auto simp: row_ok_def)
qed

lemma dag_ok_row:
  assumes "dag_ok dag" "map_of dag r = Some t"
  shows "row_ok r t"
  using assms map_of_SomeD [OF assms(2)] by (auto simp: dag_ok_def)

lemma dag_ok_lookup:
  assumes "dag_ok dag"
  shows "x \<in> certs dag \<longleftrightarrow>
    (\<exists>t. map_of dag (c_round x) = Some t \<and> map_of t (c_origin x) = Some (c_digest x, x))"
proof
  assume "x \<in> certs dag"
  then obtain r t a d where rt: "(r, t) \<in> set dag" and ax: "(a, (d, x)) \<in> set t"
    by (auto simp: certs_def)
  have row: "row_ok r t" using assms rt by (auto simp: dag_ok_def)
  then have "c_round x = r" "map_of t (c_origin x) = Some (c_digest x, x)"
    using row_ok_lookup [OF row, of a d x] ax by auto
  moreover have "map_of dag r = Some t"
    using assms rt by (simp add: dag_ok_def bt_wf_distinct)
  ultimately show "\<exists>t. map_of dag (c_round x) = Some t \<and> map_of t (c_origin x) = Some (c_digest x, x)"
    by auto
next
  assume "\<exists>t. map_of dag (c_round x) = Some t \<and> map_of t (c_origin x) = Some (c_digest x, x)"
  then show "x \<in> certs dag" by (auto simp: certs_def dest!: map_of_SomeD)
qed

lemma row_certs:
  assumes "dag_ok dag" "map_of dag r = Some t"
  shows "snd ` snd ` set t = {x \<in> certs dag. c_round x = r}"
proof (intro set_eqI iffI)
  note row = dag_ok_row [OF assms]
  fix x assume "x \<in> snd ` snd ` set t"
  then obtain a d where ax: "(a, (d, x)) \<in> set t" by auto
  with row_ok_lookup [OF row, of a d x] have "c_round x = r" "c_origin x = a" "c_digest x = d" by auto
  moreover have "x \<in> certs dag" using ax map_of_SomeD [OF assms(2)] by (auto simp: certs_def)
  ultimately show "x \<in> {x \<in> certs dag. c_round x = r}" by simp
next
  fix x assume "x \<in> {x \<in> certs dag. c_round x = r}"
  with dag_ok_lookup [OF assms(1), of x] assms(2)
  have "map_of t (c_origin x) = Some (c_digest x, x)" by auto
  then have "(c_origin x, (c_digest x, x)) \<in> set t" by (rule map_of_SomeD)
  then show "x \<in> snd ` snd ` set t" by force
qed

lemma slot_unique:
  assumes "dag_ok dag" "x \<in> certs dag" "y \<in> certs dag" "c_round x = c_round y" "c_origin x = c_origin y"
  shows "x = y"
  using assms dag_ok_lookup [OF assms(1)] by fastforce

lemma certs_filter:
  assumes "dag_ok dag"
  shows "certs (filter (\<lambda>(r, _). r > g) dag) = {x \<in> certs dag. c_round x > g}"
    and "dag_ok (filter (\<lambda>(r, _). r > g) dag)"
proof -
  have "c_round x = r" if "(r, t) \<in> set dag" "(a, (d, x)) \<in> set t" for r t a d x
    using assms that by (auto simp: dag_ok_def row_ok_def)
  then show "certs (filter (\<lambda>(r, _). r > g) dag) = {x \<in> certs dag. c_round x > g}"
    by (fastforce simp: certs_def)
  show "dag_ok (filter (\<lambda>(r, _). r > g) dag)"
    using assms by (auto simp: dag_ok_def bt_wf_def sorted_wrt_map sorted_wrt_filter)
qed

lemma row_ok_update:
  assumes "row_ok (c_round x) t"
  shows "row_ok (c_round x) (AList.update (c_origin x) (c_digest x, x) t)"
proof -
  let ?P = "\<lambda>(a, (d, y)). c_round y = c_round x \<and> c_origin y = a \<and> c_digest y = d"
  have "\<forall>e \<in> set (AList.update (c_origin x) (c_digest x, x) t). ?P e"
    using assms by (intro ball_alist_update) (auto simp: row_ok_def)
  with assms show ?thesis by (simp add: row_ok_def distinct_update)
qed

lemma row_ok_Nil [simp]: "row_ok r []"
  by (simp add: row_ok_def)

text \<open>Inserting a certificate adds it and evicts the certificate of the same slot.\<close>

lemma dag_insert:
  fixes x dag
  defines "table \<equiv> case map_of dag (c_round x) of None \<Rightarrow> [] | Some t \<Rightarrow> t"
  assumes "dag_ok dag"
  shows "dag_ok (bt_insert (c_round x) (AList.update (c_origin x) (c_digest x, x) table) dag)" (is "dag_ok ?dag")
    and "certs (bt_insert (c_round x) (AList.update (c_origin x) (c_digest x, x) table) dag)
      = insert x {y \<in> certs dag. c_round y \<noteq> c_round x \<or> c_origin y \<noteq> c_origin x}"
proof -
  let ?row = "AList.update (c_origin x) (c_digest x, x) table"
  have bt: "bt_wf dag" using assms(2) by (simp add: dag_ok_def)
  have look: "map_of ?dag = (map_of dag)(c_round x \<mapsto> ?row)" using bt by simp
  have row: "row_ok (c_round x) ?row"
    using assms(2) by (intro row_ok_update) (auto simp: table_def dag_ok_row split: option.splits)
  have bt': "bt_wf ?dag" using bt by simp
  have "row_ok r t" if "(r, t) \<in> set ?dag" for r t
  proof -
    have "map_of ?dag r = Some t" using bt' that by (simp add: bt_wf_distinct)
    then show ?thesis using look row dag_ok_row [OF assms(2), of r t] by (auto split: if_splits)
  qed
  then show ok: "dag_ok ?dag" using bt' by (auto simp: dag_ok_def)
  show "certs ?dag = insert x {y \<in> certs dag. c_round y \<noteq> c_round x \<or> c_origin y \<noteq> c_origin x}"
  proof (intro set_eqI)
    fix y
    show "y \<in> certs ?dag \<longleftrightarrow> y \<in> insert x {y \<in> certs dag. c_round y \<noteq> c_round x \<or> c_origin y \<noteq> c_origin x}"
    proof (cases "c_round y = c_round x")
      case True
      have "y \<in> certs ?dag \<longleftrightarrow> map_of ?row (c_origin y) = Some (c_digest y, y)"
        unfolding dag_ok_lookup [OF ok] look using True by simp
      also have "\<dots> \<longleftrightarrow> (if c_origin y = c_origin x then y = x else map_of table (c_origin y) = Some (c_digest y, y))"
        by (auto simp: update_conv')
      also have "map_of table (c_origin y) = Some (c_digest y, y) \<longleftrightarrow> y \<in> certs dag"
        unfolding dag_ok_lookup [OF assms(2)] using True by (auto simp: table_def split: option.splits)
      finally show ?thesis using True by auto
    next
      case False
      then have "y \<in> certs ?dag \<longleftrightarrow> y \<in> certs dag"
        unfolding dag_ok_lookup [OF ok] dag_ok_lookup [OF assms(2)] look by simp
      with False show ?thesis by auto
    qed
  qed
qed

section \<open>Closure under parents\<close>

text \<open>Above round \<open>g + 1\<close> all parents of a certificate are present, one round below.\<close>

definition closed_above :: "round \<Rightarrow> dag \<Rightarrow> bool" where
  "closed_above g dag \<longleftrightarrow> (\<forall>x \<in> certs dag. c_round x > g + 1 \<longrightarrow>
     (\<forall>p \<in> set (c_parents x). \<exists>y \<in> certs dag. c_digest y = p \<and> c_round y + 1 = c_round x))"

definition rounds_fit :: "certificate set \<Rightarrow> bool" where
  "rounds_fit X \<longleftrightarrow> (\<forall>x \<in> X. c_round x + 2 < 2 ^ 64)"

lemma closed_aboveD:
  assumes "closed_above g dag" "x \<in> certs dag" "c_round x > g + 1" "p \<in> set (c_parents x)"
  obtains y where "y \<in> certs dag" "c_digest y = p" "c_round y + 1 = c_round x"
  using assms unfolding closed_above_def by blast

lemma find_Some_row:
  assumes "row_ok r t" "(a, (p, y)) \<in> set t"
  shows "\<exists>z. List.find (\<lambda>(d, _). d = p) (map snd t) = Some (p, z)"
proof (cases "List.find (\<lambda>(d, _). d = p) (map snd t)")
  case None
  then show ?thesis using assms(2) by (force simp: find_None_iff)
next
  case (Some e)
  with find_SomeD [OF Some] show ?thesis by (cases e) auto
qed

lemma find_parent_spec:
  assumes "dag_ok dag" "closed_above g dag" "rounds_fit (certs dag)"
    and "x \<in> certs dag" "c_round x > g + 1" "p \<in> set (c_parents x)"
  obtains y where "find_parent dag x p = Some (p, y)" "y \<in> certs dag" "c_digest y = p"
    "c_round y + 1 = c_round x"
proof -
  from closed_aboveD [OF assms(2,4-6)] obtain y where
    y: "y \<in> certs dag" "c_digest y = p" "c_round y + 1 = c_round x" .
  have sub: "u64_sub (c_round x) 1 = c_round y"
    using y(3) assms(3,4) by (subst u64_sub_fits) (auto simp: rounds_fit_def)
  from y(1) dag_ok_lookup [OF assms(1)] obtain t where
    t: "map_of dag (c_round y) = Some t" "map_of t (c_origin y) = Some (c_digest y, y)" by auto
  note row = dag_ok_row [OF assms(1) t(1)]
  from map_of_SomeD [OF t(2)] y(2) find_Some_row [OF row] obtain z where
    z: "List.find (\<lambda>(d, _). d = p) (map snd t) = Some (p, z)" by blast
  from find_SomeD [OF z] obtain a where a: "(a, (p, z)) \<in> set t" by auto
  with row_ok_lookup [OF row, of a p z] have "c_round z = c_round y" "c_digest z = p" by auto
  moreover have "z \<in> certs dag" using a map_of_SomeD [OF t(1)] by (auto simp: certs_def)
  moreover have "find_parent dag x p = Some (p, z)"
    unfolding find_parent_def sub using t(1) z by simp
  ultimately show thesis using that y(3) by simp
qed

section \<open>The depth-first search\<close>

text \<open>One step down the part of the history that is not committed.\<close>

definition open_parent ::
  "dag \<Rightarrow> (authority_identifier \<times> round) list \<Rightarrow> certificate \<Rightarrow> certificate \<Rightarrow> bool" where
  "open_parent dag committed x y \<longleftrightarrow> y \<in> certs dag \<and> c_digest y \<in> set (c_parents x) \<and> c_round y + 1 = c_round x \<and>
     \<not> already_committed committed y"

text \<open>The state of the search: the stack and the output hold distinct certificates of the history,
  every one but the leader marked as seen, below the leader and not yet committed; and the parents of
  the output are there, too, or have been committed before.\<close>

definition search_inv ::
  "dag \<Rightarrow> (authority_identifier \<times> round) list \<Rightarrow> round \<Rightarrow> certificate \<Rightarrow> certificate list \<Rightarrow>
   certificate_digest list \<Rightarrow> certificate list \<Rightarrow> bool" where
  "search_inv dag committed g leader buffer seen ordered \<longleftrightarrow>
     distinct (buffer @ ordered) \<and> set (buffer @ ordered) \<subseteq> certs dag \<and>
     leader \<in> set (buffer @ ordered) \<and>
     set seen = c_digest ` (set (buffer @ ordered) - {leader}) \<and>
     (\<forall>x \<in> set (buffer @ ordered). g + 1 \<le> c_round x \<and> (open_parent dag committed)\<^sup>*\<^sup>* leader x \<and>
        (x = leader \<or> c_round x < c_round leader \<and> \<not> already_committed committed x))"

definition covers ::
  "dag \<Rightarrow> (authority_identifier \<times> round) list \<Rightarrow> certificate set \<Rightarrow> certificate \<Rightarrow> certificate_digest list \<Rightarrow> bool" where
  "covers dag committed X x ps \<longleftrightarrow> (\<forall>p \<in> set ps. \<exists>y \<in> certs dag. c_digest y = p \<and> c_round y + 1 = c_round x \<and>
     (y \<in> X \<or> already_committed committed y))"

lemma covers_mono: "covers dag committed X x ps \<Longrightarrow> X \<subseteq> Y \<Longrightarrow> covers dag committed Y x ps"
  unfolding covers_def by blast

lemma push_parents_spec:
  assumes dag: "dag_ok dag" "closed_above g' dag" "rounds_fit (certs dag)" "inj_on c_digest (certs dag)"
    and g: "g' \<le> g" and x: "x \<in> certs dag" "c_round x > g + 1" "c_round x \<le> c_round leader"
    and ps: "set ps \<subseteq> set (c_parents x)"
    and inv: "search_inv dag committed g leader buffer seen (x # ordered)"
  shows "\<exists>buffer' seen'. push_parents dag committed x ps buffer seen = Some (buffer', seen') \<and>
    search_inv dag committed g leader buffer' seen' (x # ordered) \<and> set buffer \<subseteq> set buffer' \<and>
    covers dag committed (set (buffer' @ x # ordered)) x ps"
  using ps inv
proof (induction ps arbitrary: buffer seen)
  case Nil
  then show ?case by (simp add: covers_def)
next
  case (Cons p ps)
  have gt: "c_round x > g' + 1" using x(2) g by simp
  have p: "p \<in> set (c_parents x)" using Cons.prems(1) by simp
  obtain y where f: "find_parent dag x p = Some (p, y)" and y: "y \<in> certs dag" "c_digest y = p"
      "c_round y + 1 = c_round x"
    by (rule find_parent_spec [OF dag(1-3) x(1) gt p])
  have ps: "set ps \<subseteq> set (c_parents x)" using Cons.prems(1) by simp
  have below: "c_round y < c_round leader" using y(3) x(3) by linarith
  have covP: "covers dag committed X x (p # ps)"
    if "covers dag committed X x ps" "y \<in> X \<or> already_committed committed y" for X
    using that y unfolding covers_def by auto
  show ?case
  proof (cases "p \<in> set seen \<or> already_committed committed y")
    case True
    from Cons.IH [OF ps Cons.prems(2)] obtain buffer' seen' where
      IH: "push_parents dag committed x ps buffer seen = Some (buffer', seen')"
        "search_inv dag committed g leader buffer' seen' (x # ordered)" "set buffer \<subseteq> set buffer'"
        "covers dag committed (set (buffer' @ x # ordered)) x ps" by blast
    have "y \<in> set (buffer' @ x # ordered) \<or> already_committed committed y"
    proof (cases "p \<in> set seen")
      case True
      with Cons.prems(2) obtain z where "z \<in> set (buffer @ x # ordered)" "c_digest z = p" "z \<in> certs dag"
        unfolding search_inv_def by auto
      moreover from this y dag(4) have "z = y" by (auto simp: inj_on_def)
      ultimately show ?thesis using IH(3) by auto
    qed (use True in simp)
    with covP IH True f show ?thesis by simp
  next
    case False
    have "y \<notin> set (buffer @ x # ordered)"
      using False y below Cons.prems(2) unfolding search_inv_def by auto
    moreover have "(open_parent dag committed)\<^sup>*\<^sup>* leader y"
    proof (rule rtranclp.rtrancl_into_rtrancl)
      show "(open_parent dag committed)\<^sup>*\<^sup>* leader x" using Cons.prems(2) by (simp add: search_inv_def)
      show "open_parent dag committed x y" using y p False by (simp add: open_parent_def)
    qed
    ultimately have "search_inv dag committed g leader (y # buffer) (p # seen) (x # ordered)"
      using False y below x Cons.prems(2) unfolding search_inv_def by auto
    from Cons.IH [OF ps this] obtain buffer' seen' where
      IH: "push_parents dag committed x ps (y # buffer) (p # seen) = Some (buffer', seen')"
        "search_inv dag committed g leader buffer' seen' (x # ordered)" "set (y # buffer) \<subseteq> set buffer'"
        "covers dag committed (set (buffer' @ x # ordered)) x ps" by blast
    with covP False f show ?thesis by simp
  qed
qed

lemma search_inv_cong:
  assumes "mset (buffer @ ordered) = mset (buffer' @ ordered')"
  shows "search_inv dag committed g leader buffer seen ordered
    \<longleftrightarrow> search_inv dag committed g leader buffer' seen ordered'"
  using mset_eq_setD [OF assms] mset_eq_imp_distinct_iff [OF assms] by (simp only: search_inv_def)

definition history_closed ::
  "dag \<Rightarrow> (authority_identifier \<times> round) list \<Rightarrow> round \<Rightarrow> certificate list \<Rightarrow> certificate set \<Rightarrow> bool" where
  "history_closed dag committed g xs X \<longleftrightarrow>
     (\<forall>x \<in> set xs. c_round x > g + 1 \<longrightarrow> covers dag committed X x (c_parents x))"

lemma order_loop_spec:
  assumes dag: "dag_ok dag" "closed_above g' dag" "rounds_fit (certs dag)" "inj_on c_digest (certs dag)"
    and g: "g' \<le> g" "g + 1 < 2 ^ 64"
    and inv: "search_inv dag committed g leader buffer seen ordered"
    and hist: "history_closed dag committed g ordered (set (buffer @ ordered))"
  shows "\<exists>out seen'. order_loop dag committed g buffer seen ordered = Some out \<and>
    search_inv dag committed g leader [] seen' out \<and> history_closed dag committed g out (set out)"
  using dag g inv hist
proof (induction dag committed g buffer seen ordered rule: order_loop.induct)
  case (1 dag committed g seen ordered)
  then show ?case by auto
next
  case (2 dag committed g x buffer seen ordered)
  note dag = 2(3-6) and g = 2(7,8)
  have inv1: "search_inv dag committed g leader buffer seen (x # ordered)"
    using 2(9) search_inv_cong [of "x # buffer" ordered buffer "x # ordered"] by simp
  then have x: "x \<in> certs dag" "g + 1 \<le> c_round x" "c_round x \<le> c_round leader"
    by (auto simp: search_inv_def)
  have g1: "u64_add g 1 = g + 1" using g(2) by (rule u64_add_fits)
  have swap: "search_inv dag committed g leader buf sn (ordered @ [x])"
    if "search_inv dag committed g leader buf sn (x # ordered)" for buf sn
    using that search_inv_cong [of buf "x # ordered" buf "ordered @ [x]"] by simp
  show ?case
  proof (cases "c_round x = u64_add g 1")
    case True
    have "history_closed dag committed g (ordered @ [x]) (set (buffer @ ordered @ [x]))"
      using 2(10) True g1 by (auto simp: history_closed_def insert_commute)
    from 2(1) [OF True dag g swap [OF inv1] this] True show ?thesis by simp
  next
    case False
    with x(2) g1 have gt: "c_round x > g + 1" by simp
    from push_parents_spec [OF dag g(1) x(1) gt x(3) subset_refl inv1]
    obtain buffer' seen' where push: "push_parents dag committed x (c_parents x) buffer seen = Some (buffer', seen')"
      and inv2: "search_inv dag committed g leader buffer' seen' (x # ordered)"
      and sub: "set buffer \<subseteq> set buffer'"
      and cov: "covers dag committed (set (buffer' @ x # ordered)) x (c_parents x)" by blast
    have sets: "set (buffer' @ ordered @ [x]) = set (buffer' @ x # ordered)" by auto
    have "covers dag committed (set (buffer' @ x # ordered)) z (c_parents z)"
      if "z \<in> set ordered" "c_round z > g + 1" for z
    proof (rule covers_mono)
      show "covers dag committed (set ((x # buffer) @ ordered)) z (c_parents z)"
        using 2(10) that by (simp add: history_closed_def)
      show "set ((x # buffer) @ ordered) \<subseteq> set (buffer' @ x # ordered)" using sub by auto
    qed
    with cov have "history_closed dag committed g (ordered @ [x]) (set (buffer' @ ordered @ [x]))"
      unfolding history_closed_def sets by auto
    from 2(2) [OF False push refl dag g swap [OF inv2] this] push False show ?thesis by simp
  qed
qed

section \<open>order\_dag\<close>

lemma order_dag_spec:
  assumes dag: "dag_ok (state_dag s)" "closed_above g' (state_dag s)" "rounds_fit (certs (state_dag s))"
      "inj_on c_digest (certs (state_dag s))"
    and leader: "leader \<in> certs (state_dag s)" "0 < c_round leader" "0 < gc_depth s"
    and g: "g' \<le> c_round leader - gc_depth s"
  obtains out where "order_dag leader s = Some out" "distinct out" "sorted (map c_round out)"
    "set out \<subseteq> certs (state_dag s)" "leader \<in> set out"
    "\<And>x. x \<in> set out \<Longrightarrow> x \<noteq> leader \<Longrightarrow>
       c_round x < c_round leader \<and> \<not> already_committed (last_committed s) x"
    "\<And>x. x \<in> set out \<Longrightarrow> c_round leader - gc_depth s < c_round x"
    "history_closed (state_dag s) (last_committed s) (c_round leader - gc_depth s) out (set out)"
    "\<And>x. x \<in> set out \<Longrightarrow> (open_parent (state_dag s) (last_committed s))\<^sup>*\<^sup>* leader x"
proof -
  let ?g = "c_round leader - gc_depth s"
  have fits: "?g + 1 < 2 ^ 64" using dag(3) leader(1) by (auto simp: rounds_fit_def)
  have "search_inv (state_dag s) (last_committed s) ?g leader [leader] [] []"
    using leader by (simp add: search_inv_def)
  moreover have "history_closed (state_dag s) (last_committed s) ?g [] (set ([leader] @ []))"
    by (simp add: history_closed_def)
  ultimately obtain out seen where
    out: "order_loop (state_dag s) (last_committed s) ?g [leader] [] [] = Some out"
    and inv: "search_inv (state_dag s) (last_committed s) ?g leader [] seen out"
    and hist: "history_closed (state_dag s) (last_committed s) ?g out (set out)"
    using order_loop_spec [OF dag g fits] by blast
  let ?out = "sort_key c_round out"
  have "order_dag leader s = Some ?out" using out leader(2) by (simp add: order_dag_def panic_unless_def Let_def)
  moreover have "history_closed (state_dag s) (last_committed s) ?g ?out (set ?out)"
    using hist by (simp add: history_closed_def)
  moreover have "\<And>x. x \<in> set ?out \<Longrightarrow> x \<noteq> leader \<Longrightarrow>
       c_round x < c_round leader \<and> \<not> already_committed (last_committed s) x"
    "\<And>x. x \<in> set ?out \<Longrightarrow> c_round leader - gc_depth s < c_round x"
    "\<And>x. x \<in> set ?out \<Longrightarrow> (open_parent (state_dag s) (last_committed s))\<^sup>*\<^sup>* leader x"
    using inv by (auto simp: search_inv_def Suc_le_eq)
  moreover have "distinct ?out" "sorted (map c_round ?out)" "set ?out \<subseteq> certs (state_dag s)" "leader \<in> set ?out"
    using inv by (auto simp: search_inv_def)
  ultimately show thesis by (intro that)
qed

text \<open>The flattened history is exactly what can be reached over uncommitted certificates above the
  garbage collection round.\<close>

lemma order_dag_exact:
  assumes dag: "dag_ok (state_dag s)" "closed_above g' (state_dag s)" "rounds_fit (certs (state_dag s))"
      "inj_on c_digest (certs (state_dag s))"
    and leader: "leader \<in> certs (state_dag s)" "0 < c_round leader" "0 < gc_depth s"
    and g: "g' \<le> c_round leader - gc_depth s"
  shows "\<exists>out. order_dag leader s = Some out \<and> distinct out \<and> sorted (map c_round out) \<and>
    set out = {x. (open_parent (state_dag s) (last_committed s))\<^sup>*\<^sup>* leader x \<and> c_round leader - gc_depth s < c_round x}"
proof -
  let ?g = "c_round leader - gc_depth s" and ?R = "open_parent (state_dag s) (last_committed s)"
  obtain out where out: "order_dag leader s = Some out" "distinct out" "sorted (map c_round out)" "leader \<in> set out"
    "\<forall>x \<in> set out. ?g < c_round x \<and> ?R\<^sup>*\<^sup>* leader x"
    and hist: "history_closed (state_dag s) (last_committed s) ?g out (set out)"
    by (rule order_dag_spec [OF assms]) blast
  have "x \<in> set out" if "?R\<^sup>*\<^sup>* leader x" "?g < c_round x" for x
    using that
  proof (induction rule: rtranclp_induct)
    case (step x y)
    then have y: "y \<in> certs (state_dag s)" "c_digest y \<in> set (c_parents x)" "c_round y + 1 = c_round x"
      "\<not> already_committed (last_committed s) y" by (auto simp: open_parent_def)
    with step have "x \<in> set out" "?g + 1 < c_round x" by auto
    with hist have "covers (state_dag s) (last_committed s) (set out) x (c_parents x)" by (simp add: history_closed_def)
    with y(2) obtain z where "z \<in> certs (state_dag s)" "c_digest z = c_digest y"
      "z \<in> set out \<or> already_committed (last_committed s) z" by (auto simp: covers_def)
    with y inj_onD [OF dag(4), of z y] show ?case by auto
  qed (use out(4) in simp)
  with out show ?thesis by blast
qed

end
