(* ===== verification/Bullshark.thy ===== *)
theory Bullshark
  imports Consensus_State
begin

text \<open>
  \<^verbatim>\<open>narwhal/primary/src/consensus/bullshark.rs\<close> and the event loop of \<^verbatim>\<open>state.rs\<close>: committing leaders and
  their histories as certificates arrive. A handler takes the protocol value and the state, and
  returns its result with both updated; \<open>None\<close> is a panic. Whether the database write of a sub-dag
  succeeds is the parameter \<open>db_ok\<close>. The retry loop of \<^verbatim>\<open>process_certificate\<close> takes fuel, one unit per
  iteration, and starts with the leader's round plus one; running out of fuel is \<open>None\<close>.
\<close>

datatype outcome =
    CertificateBelowCommitRound
  | NoLeaderElectedForOddRound
  | LeaderBelowCommitRound
  | LeaderNotFound
  | NotEnoughSupportForLeader
  | Commit
  | ScheduleChanged

record bullshark =
  bs_committee :: narwhal_committee
  bs_bad_nodes_stake_threshold :: u64
  bs_store :: consensus_store
  bs_max_inserted_certificate_round :: round
  bs_num_sub_dags_per_schedule :: nat
  bs_leader_schedule :: leader_schedule

definition bullshark_new ::
  "narwhal_committee \<Rightarrow> consensus_store \<Rightarrow> u64 \<Rightarrow> nat \<Rightarrow> leader_schedule \<Rightarrow> bullshark" where
  "bullshark_new c store threshold num schedule =
     \<lparr>bs_committee = c, bs_bad_nodes_stake_threshold = threshold, bs_store = store,
      bs_max_inserted_certificate_round = 0, bs_num_sub_dags_per_schedule = num,
      bs_leader_schedule = schedule\<rparr>"

section \<open>Reputation scores of a commit\<close>

text \<open>The remainder of a \<open>u64\<close> panics on 0.\<close>

definition u64_rem :: "nat \<Rightarrow> nat \<Rightarrow> nat option" where
  "u64_rem a b = (if b = 0 then None else Some (a mod b))"

definition score_certificates ::
  "certificate_digest \<Rightarrow> certificate list \<Rightarrow> reputation_scores \<Rightarrow> reputation_scores" where
  "score_certificates leader_digest committed_sequence scores =
     fold (\<lambda>x s. if list_ex (\<lambda>d. d = leader_digest) (c_parents x) then add_score (c_origin x) 1 s else s)
       committed_sequence scores"

definition resolve_reputation_score ::
  "bullshark \<Rightarrow> consensus_state \<Rightarrow> certificate list \<Rightarrow> sequence_number \<Rightarrow> reputation_scores option" where
  "resolve_reputation_score b s committed_sequence sub_dag_index = do {
     reset \<leftarrow> (if sub_dag_index = 1 then Some True
               else map_option (\<lambda>r. r = 0) (u64_rem sub_dag_index (bs_num_sub_dags_per_schedule b)));
     base \<leftarrow> (if reset then reputation_new (bs_committee b)
              else map_option sd_reputation_score (last_committed_sub_dag s));
     let scored = (case last_committed_sub_dag s of
                     None \<Rightarrow> base
                   | Some sd \<Rightarrow> score_certificates (c_digest (sd_leader sd)) committed_sequence base);
     rem \<leftarrow> u64_rem (u64_add sub_dag_index 1) (bs_num_sub_dags_per_schedule b);
     let scores = scored\<lparr>final_of_schedule := (rem = 0)\<rparr>;
     panic_unless (total_authorities scores = nc_size (bs_committee b));
     Some scores }"

text \<open>Whether the schedule changed, and the protocol with the new swap table.\<close>

definition update_leader_schedule ::
  "round \<Rightarrow> reputation_scores \<Rightarrow> bullshark \<Rightarrow> (bool \<times> bullshark) option" where
  "update_leader_schedule leader_round scores b =
     (if final_of_schedule scores
      then do {
        table \<leftarrow> swap_table_new (bs_committee b) leader_round scores (bs_bad_nodes_stake_threshold b);
        Some (True, b\<lparr>bs_leader_schedule := update_leader_swap_table table (bs_leader_schedule b)\<rparr>) }
      else Some (False, b))"

section \<open>Leaders\<close>

fun linked_loop :: "dag \<Rightarrow> round list \<Rightarrow> certificate list \<Rightarrow> certificate list option" where
  "linked_loop dag [] parents = Some parents"
| "linked_loop dag (r # rs) parents =
     (case map_of dag r of
        None \<Rightarrow> None
      | Some table \<Rightarrow> linked_loop dag rs
          (map snd (filter (\<lambda>(d, _). list_ex (\<lambda>x. d \<in> set (c_parents x)) parents) (map snd table))))"

definition linked :: "certificate \<Rightarrow> certificate \<Rightarrow> dag \<Rightarrow> bool option" where
  "linked leader prev_leader dag =
     map_option (list_ex (\<lambda>x. cert_eq x prev_leader))
       (linked_loop dag (rev [c_round prev_leader..<c_round leader]) [leader])"

fun step_by_2 :: "'a list \<Rightarrow> 'a list" where
  "step_by_2 [] = []"
| "step_by_2 [x] = [x]"
| "step_by_2 (x # y # xs) = x # step_by_2 xs"

fun order_leaders_loop ::
  "choices \<Rightarrow> leader_schedule \<Rightarrow> dag \<Rightarrow> round list \<Rightarrow> certificate \<Rightarrow> certificate list \<Rightarrow>
   certificate list option" where
  "order_leaders_loop ch ls dag [] leader to_commit = Some to_commit"
| "order_leaders_loop ch ls dag (r # rs) leader to_commit = do {
     (_, found) \<leftarrow> leader_certificate ch ls r dag;
     case found of
       None \<Rightarrow> order_leaders_loop ch ls dag rs leader to_commit
     | Some prev_leader \<Rightarrow> do {
         path \<leftarrow> linked leader prev_leader dag;
         if path then order_leaders_loop ch ls dag rs prev_leader (prev_leader # to_commit)
         else order_leaders_loop ch ls dag rs leader to_commit } }"

definition order_leaders ::
  "choices \<Rightarrow> bullshark \<Rightarrow> certificate \<Rightarrow> consensus_state \<Rightarrow> certificate list option" where
  "order_leaders ch b leader s = do {
     panic_unless (c_round leader mod 2 = 0);
     let rounds = step_by_2 (rev [u64_add (committed_round (last_round s)) 2..<Suc (u64_sub (c_round leader) 2)]);
     to_commit \<leftarrow> order_leaders_loop ch (bs_leader_schedule b) (state_dag s) rounds leader [leader];
     panic_unless (list_all (\<lambda>x. nc_authority (bs_committee b) (c_origin x) \<noteq> None) to_commit);
     Some to_commit }"

section \<open>Committing\<close>

type_synonym commit_result = "(consensus_error + outcome \<times> committed_sub_dag list) \<times> bullshark \<times> consensus_state"

text \<open>The loop over \<^verbatim>\<open>leaders_to_commit\<close>.\<close>

fun commit_leaders_loop ::
  "(sequence_number \<Rightarrow> bool) \<Rightarrow> certificate list \<Rightarrow> bullshark \<Rightarrow> consensus_state \<Rightarrow>
   committed_sub_dag list \<Rightarrow> commit_result option" where
  "commit_leaders_loop db_ok [] b s committed = Some (Inr (Commit, committed), b, s)"
| "commit_leaders_loop db_ok (leader # leaders) b s committed = do {
     let sub_dag_index = next_sub_dag_index s;
     sequence \<leftarrow> order_dag leader s;
     let s1 = fold state_update sequence s;
     scores \<leftarrow> resolve_reputation_score b s1 sequence sub_dag_index;
     let sub_dag = sub_dag_new sequence leader sub_dag_index scores (last_committed_sub_dag s1);
     case write_consensus_state db_ok (last_committed s1) sub_dag (bs_store b) of
       Inl _ \<Rightarrow> Some (Inl ConsensusStoreError, b, s1)
     | Inr store \<Rightarrow> do {
         let s2 = s1\<lparr>last_committed_sub_dag := Some sub_dag\<rparr>;
         (changed, b2) \<leftarrow> update_leader_schedule (c_round leader) scores (b\<lparr>bs_store := store\<rparr>);
         if changed \<and> leaders \<noteq> [] then Some (Inr (ScheduleChanged, committed @ [sub_dag]), b2, s2)
         else commit_leaders_loop db_ok leaders b2 s2 (committed @ [sub_dag]) } }"

definition leader_support :: "narwhal_committee \<Rightarrow> (authority_identifier \<times> (certificate_digest \<times> certificate)) list \<Rightarrow>
   certificate \<Rightarrow> stake" where
  "leader_support c table leader =
     sum_list (map (\<lambda>(_, x). stake_by_id c (c_origin x))
       (filter (\<lambda>(_, x). c_digest leader \<in> set (c_parents x)) (map snd table)))"

definition commit_leader ::
  "choices \<Rightarrow> (sequence_number \<Rightarrow> bool) \<Rightarrow> round \<Rightarrow> bullshark \<Rightarrow> consensus_state \<Rightarrow> commit_result option" where
  "commit_leader ch db_ok leader_round b s = do {
     (_, found) \<leftarrow> leader_certificate ch (bs_leader_schedule b) leader_round (state_dag s);
     case found of
       None \<Rightarrow> Some (Inr (LeaderNotFound, []), b, s)
     | Some leader \<Rightarrow> do {
         table \<leftarrow> map_of (state_dag s) (u64_add leader_round 1);
         if leader_support (bs_committee b) table leader < nc_validity_threshold (bs_committee b)
         then Some (Inr (NotEnoughSupportForLeader, []), b, s)
         else do {
           leaders_to_commit \<leftarrow> order_leaders ch b leader s;
           commit_leaders_loop db_ok leaders_to_commit b s [] } } }"

fun commit_retry ::
  "nat \<Rightarrow> choices \<Rightarrow> (sequence_number \<Rightarrow> bool) \<Rightarrow> round \<Rightarrow> bullshark \<Rightarrow> consensus_state \<Rightarrow>
   committed_sub_dag list \<Rightarrow> commit_result option" where
  "commit_retry 0 ch db_ok leader_round b s committed = None"
| "commit_retry (Suc fuel) ch db_ok leader_round b s committed = do {
     (r, b1, s1) \<leftarrow> commit_leader ch db_ok leader_round b s;
     case r of
       Inl e \<Rightarrow> Some (Inl e, b1, s1)
     | Inr (outcome, sub_dags) \<Rightarrow>
         if outcome \<noteq> ScheduleChanged then Some (Inr (outcome, committed @ sub_dags), b1, s1)
         else commit_retry fuel ch db_ok leader_round b1 s1 (committed @ sub_dags) }"

section \<open>Processing a certificate\<close>

definition report_leader_on_time_metrics ::
  "choices \<Rightarrow> round \<Rightarrow> bullshark \<Rightarrow> bullshark option" where
  "report_leader_on_time_metrics ch certificate_round b = do {
     (if certificate_round > bs_max_inserted_certificate_round b \<and> certificate_round mod 2 = 0 \<and>
         certificate_round > 2
      then do {
        authority \<leftarrow> schedule_leader ch (bs_leader_schedule b) (u64_sub certificate_round 2);
        panic_unless (au_initialised authority) }
      else Some ());
     Some (b\<lparr>bs_max_inserted_certificate_round := max (bs_max_inserted_certificate_round b) certificate_round\<rparr>) }"

definition process_certificate ::
  "choices \<Rightarrow> (sequence_number \<Rightarrow> bool) \<Rightarrow> certificate \<Rightarrow> bullshark \<Rightarrow> consensus_state \<Rightarrow> commit_result option" where
  "process_certificate ch db_ok x b s = do {
     (ins, s1) \<leftarrow> try_insert x s;
     case ins of
       Inl e \<Rightarrow> Some (Inl e, b, s1)
     | Inr False \<Rightarrow> Some (Inr (CertificateBelowCommitRound, []), b, s1)
     | Inr True \<Rightarrow> do {
         b1 \<leftarrow> report_leader_on_time_metrics ch (c_round x) b;
         let r = u64_sub (c_round x) 1;
         if r mod 2 \<noteq> 0 \<or> r < 2 then Some (Inr (NoLeaderElectedForOddRound, []), b1, s1)
         else if r \<le> committed_round (last_round s1) then Some (Inr (LeaderBelowCommitRound, []), b1, s1)
         else do {
           (res, b2, s2) \<leftarrow> commit_retry (Suc r) ch db_ok r b1 s1 [];
           Some (case res of
               Inl e \<Rightarrow> Inl e
             | Inr (outcome, sub_dags) \<Rightarrow>
                 Inr (if sub_dags = [] then (outcome, sub_dags) else (Commit, sub_dags)), b2, s2) } } }"

section \<open>The event loop\<close>

text \<open>One iteration of \<^verbatim>\<open>Consensus::run_inner\<close> on a received certificate: the sub-dags sent to the
  application and, when something was committed, the message to the primary. The channels are open:
  sending never fails. The error value stops the loop.\<close>

definition run_step ::
  "choices \<Rightarrow> (sequence_number \<Rightarrow> bool) \<Rightarrow> certificate \<Rightarrow> bullshark \<Rightarrow> consensus_state \<Rightarrow>
   ((consensus_error + committed_sub_dag list \<times> (round \<times> certificate list) option) \<times> bullshark \<times> consensus_state)
     option" where
  "run_step ch db_ok x b s =
     (if c_epoch x \<noteq> nc_epoch (bs_committee b) then Some (Inr ([], None), b, s)
      else do {
        (res, b1, s1) \<leftarrow> process_certificate ch db_ok x b s;
        case res of
          Inl e \<Rightarrow> Some (Inl e, b1, s1)
        | Inr (_, sub_dags) \<Rightarrow>
            let committed_certificates = concat (map sd_certificates sub_dags)
            in if committed_certificates = [] then Some (Inr (sub_dags, None), b1, s1)
               else do {
                 let leader_commit_round = fold max (map c_round committed_certificates) 0;
                 panic_unless (committed_round (last_round s1) = leader_commit_round);
                 Some (Inr (sub_dags, Some (leader_commit_round, committed_certificates)), b1, s1) } })"

text \<open>The loop on the certificates received until shutdown: the error it ends with, if any, and all
  sub-dags sent to the application.\<close>

fun run_inner ::
  "choices \<Rightarrow> (sequence_number \<Rightarrow> bool) \<Rightarrow> certificate list \<Rightarrow> bullshark \<Rightarrow> consensus_state \<Rightarrow>
   (consensus_error option \<times> committed_sub_dag list \<times> bullshark \<times> consensus_state) option" where
  "run_inner ch db_ok [] b s = Some (None, [], b, s)"
| "run_inner ch db_ok (x # xs) b s = do {
     (r, b1, s1) \<leftarrow> run_step ch db_ok x b s;
     case r of
       Inl e \<Rightarrow> Some (Some e, [], b1, s1)
     | Inr (sub_dags, _) \<Rightarrow> do {
         (e, rest, b2, s2) \<leftarrow> run_inner ch db_ok xs b1 s1;
         Some (e, sub_dags @ rest, b2, s2) } }"

text \<open>The recovery at the start of \<^verbatim>\<open>Consensus::spawn\<close>.\<close>

definition recover_state ::
  "'t cache \<Rightarrow> round \<Rightarrow> consensus_store \<Rightarrow> 't certificate_store \<Rightarrow> consensus_state option" where
  "recover_state ca depth store cert_store = do {
     let recovered = read_last_committed store;
     let last_committed_round = fold max (map snd recovered) 0;
     let latest = get_latest_sub_dag store;
     panic_unless (case latest of None \<Rightarrow> True | Some sd \<Rightarrow> commit_leader_round sd = last_committed_round);
     state_new_from_store ca last_committed_round depth recovered latest cert_store }"

end
