(* ===== verification/Dag_Paths.thy ===== *)
theory Dag_Paths
  imports Dag_Invariants Bullshark
begin

text \<open>
  Paths in the dag of \<^verbatim>\<open>state.rs\<close> and what \<^verbatim>\<open>bullshark.rs\<close> computes along them: \<^verbatim>\<open>linked\<close> decides whether there
  is a path, a leader with support of a validity threshold is reached from everything two rounds later,
  and \<^verbatim>\<open>order_leaders\<close> and \<^verbatim>\<open>order_dag\<close> give the same answer in any two dags that hold the leader. The
  certificates come from a set without equivocation in which every certificate names a quorum of
  parents; that is what the checks of \<^verbatim>\<open>Certificate::verify\<close> and \<^verbatim>\<open>Header::validate\<close> give.
\<close>

section \<open>Every second round\<close>


lemma step_by_2_set: "set (step_by_2 xs) \<subseteq> set xs"
  by (induction xs rule: step_by_2.induct) auto

lemma step_by_2_sorted: "sorted_wrt P xs \<Longrightarrow> sorted_wrt P (step_by_2 xs)"
proof (induction xs rule: step_by_2.induct)
  case (3 x y xs)
  then show ?case using step_by_2_set [of xs] by auto
qed auto

section \<open>Paths\<close>

definition parent_of :: "dag \<Rightarrow> certificate \<Rightarrow> certificate \<Rightarrow> bool" where
  "parent_of dag x y \<longleftrightarrow> y \<in> certs dag \<and> c_digest y \<in> set (c_parents x) \<and> c_round y + 1 = c_round x"

lemma path_round:
  assumes "(parent_of dag)\<^sup>*\<^sup>* x y"
  shows "x = y \<or> c_round y < c_round x"
  using assms by (induction rule: rtranclp_induct) (auto simp: parent_of_def)

lemma path_step:
  assumes "c_round y < c_round x"
  shows "(parent_of dag)\<^sup>*\<^sup>* x y \<longleftrightarrow> (\<exists>z. parent_of dag x z \<and> (parent_of dag)\<^sup>*\<^sup>* z y)"
  using assms by (auto elim: converse_rtranclpE intro: converse_rtranclp_into_rtranclp)

text \<open>One iteration of \<^verbatim>\<open>linked\<close> goes from certificates of one round to all their parents in the dag.\<close>

lemma linked_row:
  assumes "dag_ok dag" "map_of dag r = Some t" "\<forall>x \<in> set ps. c_round x = Suc r"
  shows "set (map snd (filter (\<lambda>(d, _). list_ex (\<lambda>x. d \<in> set (c_parents x)) ps) (map snd t)))
    = {y. \<exists>x \<in> set ps. parent_of dag x y}" (is "?L = ?R")
proof -
  note row = dag_ok_row [OF assms(1,2)]
  have "?L = {y. y \<in> snd ` snd ` set t \<and> (\<exists>x \<in> set ps. c_digest y \<in> set (c_parents x))}"
    using row by (force simp: row_ok_def list_ex_iff)
  also have "\<dots> = ?R"
    unfolding row_certs [OF assms(1,2)] using assms(3) by (auto simp: parent_of_def)
  finally show ?thesis .
qed

lemma linked_loop_spec:
  assumes "dag_ok dag" "\<forall>r'. r \<le> r' \<and> r' < R \<longrightarrow> map_of dag r' \<noteq> None" "r \<le> R" "\<forall>x \<in> set ps. c_round x = R"
  shows "\<exists>out. linked_loop dag (rev [r..<R]) ps = Some out \<and>
    set out = {y. c_round y = r \<and> (\<exists>x \<in> set ps. (parent_of dag)\<^sup>*\<^sup>* x y)}"
  using assms
proof (induction "R - r" arbitrary: R ps)
  case 0
  then have "R = r" by simp
  with 0(5) path_round show ?case by fastforce
next
  case (Suc n)
  then obtain q where R: "R = Suc q" "r \<le> q" by (cases R) auto
  from Suc(4) R obtain t where t: "map_of dag q = Some t" by fastforce
  let ?ps = "map snd (filter (\<lambda>(d, _). list_ex (\<lambda>x. d \<in> set (c_parents x)) ps) (map snd t))"
  have ps: "set ?ps = {y. \<exists>x \<in> set ps. parent_of dag x y}"
    using linked_row [OF Suc(3) t] Suc(6) R(1) by simp
  then have rounds: "\<forall>x \<in> set ?ps. c_round x = q"
    using Suc(6) R(1) by (auto simp: parent_of_def simp del: set_map)
  have "n = q - r" "\<forall>r'. r \<le> r' \<and> r' < q \<longrightarrow> map_of dag r' \<noteq> None" using Suc(2,4) R by auto
  from Suc(1) [OF this(1) Suc(3) this(2) R(2) rounds] obtain out where
    out: "linked_loop dag (rev [r..<q]) ?ps = Some out"
    "set out = {y. c_round y = r \<and> (\<exists>x \<in> set ?ps. (parent_of dag)\<^sup>*\<^sup>* x y)}"
    by (elim exE conjE)
  have "linked_loop dag (rev [r..<R]) ps = Some out" using out(1) t R by simp
  moreover
  have "(\<exists>x \<in> set ?ps. (parent_of dag)\<^sup>*\<^sup>* x y) \<longleftrightarrow> (\<exists>x \<in> set ps. (parent_of dag)\<^sup>*\<^sup>* x y)"
    if "c_round y = r" for y
    unfolding ps using path_step [of y _ dag] that Suc(6) R by auto
  then have "set out = {y. c_round y = r \<and> (\<exists>x \<in> set ps. (parent_of dag)\<^sup>*\<^sup>* x y)}"
    unfolding out(2) by (intro Collect_cong) metis
  ultimately show ?case by (intro exI [of _ out] conjI)
qed

text \<open>Whether a leader is linked to an earlier certificate is whether there is a path.\<close>

lemma linked_iff_path:
  assumes "dag_ok dag" "inj_on c_digest (certs dag)" "leader \<in> certs dag" "prev \<in> certs dag"
    "\<forall>r. c_round prev \<le> r \<and> r < c_round leader \<longrightarrow> map_of dag r \<noteq> None" "c_round prev \<le> c_round leader"
  shows "linked leader prev dag = Some ((parent_of dag)\<^sup>*\<^sup>* leader prev)"
proof -
  from linked_loop_spec [OF assms(1,5,6), of "[leader]"] obtain out where
    out: "linked_loop dag (rev [c_round prev..<c_round leader]) [leader] = Some out"
    "set out = {y. c_round y = c_round prev \<and> (parent_of dag)\<^sup>*\<^sup>* leader y}" by auto
  have "cert_eq y prev \<longleftrightarrow> y = prev" if "y \<in> set out" for y
  proof -
    have "y \<in> certs dag"
      using that assms(3) unfolding out(2) by (auto elim: rtranclp.cases simp: parent_of_def)
    then show ?thesis using inj_onD [OF assms(2), of y prev] assms(4) by (auto simp: cert_eq_def)
  qed
  then have "list_ex (\<lambda>x. cert_eq x prev) out \<longleftrightarrow> prev \<in> set out" by (auto simp: list_ex_iff)
  with out show ?thesis by (simp add: linked_def)
qed

section \<open>Quorums of parents\<close>

text \<open>The certificates a validator can ever see: no two have the same digest or the same round and
  author, and rounds leave room below \<open>2 ^ 64\<close>.\<close>

definition slot :: "certificate \<Rightarrow> round \<times> authority_identifier" where
  "slot x = (c_round x, c_origin x)"

definition universe :: "certificate set \<Rightarrow> bool" where
  "universe U \<longleftrightarrow> inj_on c_digest U \<and> inj_on slot U \<and> rounds_fit U"

text \<open>They come from members of a committee, and every one above round 1 refers to certificates of the
  previous round from a quorum of authors: validators vote only for such headers.\<close>

definition quorum_parents :: "narwhal_committee \<Rightarrow> certificate set \<Rightarrow> bool" where
  "quorum_parents c U \<longleftrightarrow> (\<forall>x \<in> U. 1 < c_round x \<longrightarrow> unat (nc_quorum_threshold c)
     \<le> sum (stake_nat c) (c_origin ` {y \<in> U. c_digest y \<in> set (c_parents x) \<and> c_round y + 1 = c_round x}))"

definition well_connected :: "narwhal_committee \<Rightarrow> certificate set \<Rightarrow> bool" where
  "well_connected c U \<longleftrightarrow> nc_wf c \<and> stake_fits c \<and> c_origin ` U \<subseteq> set (ids c) \<and> quorum_parents c U"

lemma quorum_parentsD:
  assumes "quorum_parents c U" "x \<in> U" "1 < c_round x"
  shows "unat (nc_quorum_threshold c)
     \<le> sum (stake_nat c) (c_origin ` {y \<in> U. c_digest y \<in> set (c_parents x) \<and> c_round y + 1 = c_round x})"
  using assms unfolding quorum_parents_def by blast

text \<open>The authors behind the stake a leader is supported by.\<close>

lemma row_origins_distinct:
  assumes "row_ok r t"
  shows "distinct (map c_origin (map snd (filter P (map snd t))))"
proof -
  have "map (\<lambda>e. c_origin (snd (snd e))) t = map fst t"
    using assms by (intro map_cong) (auto simp: row_ok_def)
  moreover have "distinct (map fst t)" using assms by (simp add: row_ok_def)
  ultimately have "distinct (map (\<lambda>e. c_origin (snd (snd e))) t)" by (simp only:)
  then show ?thesis by (simp add: filter_map comp_def distinct_map_filter)
qed

lemma leader_support_eq:
  assumes "nc_wf c" "stake_fits c" "dag_ok dag" "map_of dag r = Some table"
  shows "unat (leader_support c table leader)
    = sum (stake_nat c) (c_origin ` {y \<in> certs dag. c_round y = r \<and> c_digest leader \<in> set (c_parents y)})"
proof -
  let ?ys = "map snd (filter (\<lambda>(_, x). c_digest leader \<in> set (c_parents x)) (map snd table))"
  have "leader_support c table leader = sum_list (map (stake_by_id c) (map c_origin ?ys))"
    by (simp add: leader_support_def case_prod_unfold comp_def)
  then have "unat (leader_support c table leader) = sum (stake_nat c) (set (map c_origin ?ys))"
    using unat_stake_sum [OF assms(1,2) row_origins_distinct [OF dag_ok_row [OF assms(3,4)]]] by simp
  also have "set (map c_origin ?ys) = c_origin ` {y \<in> snd ` snd ` set table. c_digest leader \<in> set (c_parents y)}"
    by force
  finally show ?thesis unfolding row_certs [OF assms(3,4)] by (simp add: conj_assoc)
qed

section \<open>A supported leader is in the history of everything later\<close>

lemma parents_in_dag:
  assumes "closed_above g dag" "certs dag \<subseteq> U" "inj_on c_digest U" "x \<in> certs dag" "g + 1 < c_round x"
    "y \<in> U" "c_digest y \<in> set (c_parents x)"
  shows "y \<in> certs dag" "parent_of dag x y"
proof -
  from closed_aboveD [OF assms(1,4,5,7)] obtain z where
    z: "z \<in> certs dag" "c_digest z = c_digest y" "c_round z + 1 = c_round x" .
  with inj_onD [OF assms(3), of z y] assms(2,6) have "z = y" by auto
  with z assms(7) show "y \<in> certs dag" "parent_of dag x y" by (auto simp: parent_of_def)
qed

lemma quorum_parents_ex:
  assumes "well_connected c U" "x \<in> U" "1 < c_round x"
  obtains y where "y \<in> U" "c_digest y \<in> set (c_parents x)" "c_round y + 1 = c_round x"
proof -
  have "unat (nc_quorum_threshold c) > 0" using assms(1) by (simp add: well_connected_def nc_wf_def)
  moreover have "unat (nc_quorum_threshold c)
     \<le> sum (stake_nat c) (c_origin ` {y \<in> U. c_digest y \<in> set (c_parents x) \<and> c_round y + 1 = c_round x})"
    using assms(1) by (intro quorum_parentsD [OF _ assms(2,3)]) (simp add: well_connected_def)
  ultimately have "{y \<in> U. c_digest y \<in> set (c_parents x) \<and> c_round y + 1 = c_round x} \<noteq> {}" by (metis image_empty leD sum.empty)
  then show thesis using that by blast
qed

text \<open>From every certificate a path leads down to every round above the garbage collection round.\<close>

lemma path_down:
  assumes U: "universe U" and c: "well_connected c U"
    and dag: "closed_above g dag" "certs dag \<subseteq> U" and x: "x \<in> certs dag"
    and r: "g < r" "0 < r" "r \<le> c_round x"
  obtains y where "y \<in> certs dag" "c_round y = r" "(parent_of dag)\<^sup>*\<^sup>* x y"
  using x r(3)
proof (induction "c_round x - r" arbitrary: x thesis)
  case 0
  then show ?case by auto
next
  case (Suc n)
  have "x \<in> U" "1 < c_round x" "g + 1 < c_round x" using Suc(2,4) dag(2) r by auto
  from quorum_parents_ex [OF c this(1,2)] obtain z where
    z: "z \<in> U" "c_digest z \<in> set (c_parents x)" "c_round z + 1 = c_round x" .
  have inj: "inj_on c_digest U" using U by (simp add: universe_def)
  note zx = parents_in_dag [OF dag inj Suc(4) \<open>g + 1 < c_round x\<close> z(1,2)]
  from Suc(2) z(3) have "n = c_round z - r" "r \<le> c_round z" by auto
  from Suc(1) [OF this(1) _ zx(1) this(2)] obtain y where
    "y \<in> certs dag" "c_round y = r" "(parent_of dag)\<^sup>*\<^sup>* z y" by blast
  moreover from zx(2) this(3) have "(parent_of dag)\<^sup>*\<^sup>* x y" by (rule converse_rtranclp_into_rtranclp)
  ultimately show ?case using Suc(3) by blast
qed

lemma rows_present:
  assumes "universe U" "well_connected c U" "dag_ok dag"
    "closed_above g dag" "certs dag \<subseteq> U" "x \<in> certs dag" "g < r" "0 < r" "r \<le> c_round x"
  shows "map_of dag r \<noteq> None"
proof -
  from path_down [OF assms(1,2,4-9)] obtain y where "y \<in> certs dag" "c_round y = r" .
  then show ?thesis using dag_ok_lookup [OF assms(3), of y] by auto
qed

lemma supported_leader_path:
  assumes U: "universe U" and c: "well_connected c U"
    and one: "dag_ok dag1" "certs dag1 \<subseteq> U" "map_of dag1 (c_round leader + 1) = Some table"
      "nc_validity_threshold c \<le> leader_support c table leader"
    and leader: "leader \<in> U" "g < c_round leader" "0 < c_round leader"
    and two: "dag_ok dag2" "closed_above g dag2" "certs dag2 \<subseteq> U" "x \<in> certs dag2" "c_round leader + 2 \<le> c_round x"
  shows "leader \<in> certs dag2 \<and> (parent_of dag2)\<^sup>*\<^sup>* x leader"
proof -
  let ?r = "c_round leader"
  have inj: "inj_on c_digest U" and slots: "inj_on slot U" using U by (auto simp: universe_def)
  have wf: "nc_wf c" "stake_fits c" and orig: "c_origin ` U \<subseteq> set (ids c)" and qp: "quorum_parents c U"
    using c by (auto simp: well_connected_def)
  obtain z where z: "z \<in> certs dag2" "c_round z = ?r + 2" "(parent_of dag2)\<^sup>*\<^sup>* x z"
    using path_down [OF U c two(2,3,4), of "?r + 2"] leader two(5) by auto
  let ?Q = "{y \<in> U. c_digest y \<in> set (c_parents z) \<and> c_round y + 1 = c_round z}"
  let ?S = "{y \<in> certs dag1. c_round y = ?r + 1 \<and> c_digest leader \<in> set (c_parents y)}"
  have "unat (nc_quorum_threshold c) \<le> sum (stake_nat c) (c_origin ` ?Q)"
    using z(1,2) two(3) by (intro quorum_parentsD [OF qp]) auto
  moreover have "unat (nc_validity_threshold c) \<le> sum (stake_nat c) (c_origin ` ?S)"
    using leader_support_eq [OF wf one(1,3), of leader] one(4) by (simp add: word_le_nat_alt)
  moreover have "c_origin ` ?Q \<subseteq> set (ids c)" "c_origin ` ?S \<subseteq> set (ids c)" using orig one(2) by auto
  ultimately obtain a where "a \<in> c_origin ` ?Q" "a \<in> c_origin ` ?S"
    using narwhal.quorum_meets [of c "c_origin ` ?Q" "c_origin ` ?S"] wf by blast
  then obtain y y' where y: "y \<in> ?Q" "y' \<in> ?S" "c_origin y = c_origin y'" by auto
  with z(2) have "slot y = slot y'" by (simp add: slot_def)
  with y one(2) have "y = y'" using inj_onD [OF slots, of y y'] by auto
  with y have y: "y \<in> U" "c_digest y \<in> set (c_parents z)" "c_digest leader \<in> set (c_parents y)" by auto
  note zy = parents_in_dag [OF two(2,3) inj z(1) _ y(1,2)]
  have yr: "g + 1 < c_round z" "y \<in> certs dag2" "g + 1 < c_round y"
    using zy z(2) leader by (auto simp: parent_of_def)
  note yl = parents_in_dag [OF two(2,3) inj yr(2,3) leader(1) y(3)]
  from z(3) zy(2) [OF yr(1)] yl(2) have "(parent_of dag2)\<^sup>*\<^sup>* x leader" by (meson rtranclp.rtrancl_into_rtrancl)
  with yl(1) show ?thesis by simp
qed

section \<open>Two dags with a common certificate\<close>

text \<open>A dag whose certificates come from \<open>U\<close> and that is closed under parents above round \<open>g\<close>.\<close>

definition part_of :: "certificate set \<Rightarrow> round \<Rightarrow> dag \<Rightarrow> bool" where
  "part_of U g dag \<longleftrightarrow> dag_ok dag \<and> certs dag \<subseteq> U \<and> closed_above g dag"

lemma path_transfer:
  assumes "(parent_of dag1)\<^sup>*\<^sup>* x y" "certs dag1 \<subseteq> U" "inj_on c_digest U" "part_of U g dag2" "x \<in> certs dag2" "g < c_round y"
  shows "(parent_of dag2)\<^sup>*\<^sup>* x y \<and> y \<in> certs dag2"
  using assms(1,6)
proof (induction rule: rtranclp_induct)
  case base
  then show ?case using assms(5) by simp
next
  case (step y z)
  then have y: "g + 1 < c_round y" "z \<in> U" "c_digest z \<in> set (c_parents y)"
    using assms(2) by (auto simp: parent_of_def)
  with step have "(parent_of dag2)\<^sup>*\<^sup>* x y" "y \<in> certs dag2" by auto
  with parents_in_dag [of g dag2 U y z] y assms(3,4) show ?case
    by (auto simp: part_of_def intro: rtranclp.rtrancl_into_rtrancl)
qed

text \<open>The certificate of an author in a round.\<close>

lemma row_lookup:
  assumes "dag_ok dag"
  shows "(case map_of dag r of None \<Rightarrow> None | Some t \<Rightarrow> map_option snd (map_of t a)) = Some x \<longleftrightarrow>
    x \<in> certs dag \<and> slot x = (r, a)"
proof
  assume "(case map_of dag r of None \<Rightarrow> None | Some t \<Rightarrow> map_option snd (map_of t a)) = Some x"
  then obtain t d where t: "map_of dag r = Some t" "map_of t a = Some (d, x)" by (auto split: option.splits)
  from row_ok_lookup(2) [OF dag_ok_row [OF assms t(1)] t(2)] t show "x \<in> certs dag \<and> slot x = (r, a)"
    unfolding dag_ok_lookup [OF assms] by (auto simp: slot_def)
qed (auto simp: slot_def dag_ok_lookup [OF assms])

lemma leader_certificate_iff:
  assumes "dag_ok dag" "schedule_leader ch ls r = Some a" "authority_id a = Some i"
  shows "leader_certificate ch ls r dag = Some (b, Some x) \<longleftrightarrow> b = a \<and> x \<in> certs dag \<and> slot x = (r, i)"
    "leader_certificate ch ls r dag = Some (b, None) \<longleftrightarrow> b = a \<and> (\<forall>x \<in> certs dag. slot x \<noteq> (r, i))"
    "\<exists>found. leader_certificate ch ls r dag = Some (a, found)"
  using row_lookup [OF assms(1), where r = r and a = i] assms(2,3)
  by (auto simp: leader_certificate_def) (metis not_None_eq)+

lemma linked_path:
  assumes U: "universe U" "well_connected c U" and dag: "part_of U g dag"
    and x: "x \<in> certs dag" "y \<in> certs dag" "c_round y \<le> c_round x" "g < c_round y" "0 < c_round y"
  shows "linked x y dag = Some ((parent_of dag)\<^sup>*\<^sup>* x y)"
proof (rule linked_iff_path)
  show "inj_on c_digest (certs dag)"
    using U(1) dag by (auto simp: universe_def part_of_def intro: inj_on_subset)
  show "\<forall>r. c_round y \<le> r \<and> r < c_round x \<longrightarrow> map_of dag r \<noteq> None"
    using rows_present [OF U, of dag g x] dag x by (auto simp: part_of_def)
qed (use dag x in \<open>auto simp: part_of_def\<close>)

text \<open>The leader of a slot when there is a path to it.\<close>

definition reached :: "dag \<Rightarrow> certificate \<Rightarrow> round \<times> authority_identifier \<Rightarrow> certificate option" where
  "reached dag leader k = (if \<exists>p \<in> certs dag. slot p = k \<and> (parent_of dag)\<^sup>*\<^sup>* leader p
     then Some (THE p. p \<in> certs dag \<and> slot p = k) else None)"

lemma reached_iff:
  assumes "inj_on slot (certs dag)"
  shows "reached dag leader k = Some p \<longleftrightarrow> p \<in> certs dag \<and> slot p = k \<and> (parent_of dag)\<^sup>*\<^sup>* leader p"
    "reached dag leader k = None \<longleftrightarrow> (\<forall>p \<in> certs dag. slot p = k \<longrightarrow> \<not> (parent_of dag)\<^sup>*\<^sup>* leader p)"
proof -
  have the: "(THE p. p \<in> certs dag \<and> slot p = k) = p" if "p \<in> certs dag" "slot p = k" for p
  proof (rule the_equality)
    fix q assume "q \<in> certs dag \<and> slot q = k"
    then show "q = p" using inj_onD [OF assms, of q p] that by simp
  qed (use that in simp)
  show "reached dag leader k = Some p \<longleftrightarrow> p \<in> certs dag \<and> slot p = k \<and> (parent_of dag)\<^sup>*\<^sup>* leader p"
  proof
    assume "reached dag leader k = Some p"
    then obtain q where "q \<in> certs dag" "slot q = k" "(parent_of dag)\<^sup>*\<^sup>* leader q" "p = (THE p. p \<in> certs dag \<and> slot p = k)"
      unfolding reached_def by (auto split: if_splits)
    with the [of q] show "p \<in> certs dag \<and> slot p = k \<and> (parent_of dag)\<^sup>*\<^sup>* leader p" by simp
  next
    assume p: "p \<in> certs dag \<and> slot p = k \<and> (parent_of dag)\<^sup>*\<^sup>* leader p"
    with the [of p] show "reached dag leader k = Some p" unfolding reached_def by auto
  qed
  show "reached dag leader k = None \<longleftrightarrow> (\<forall>p \<in> certs dag. slot p = k \<longrightarrow> \<not> (parent_of dag)\<^sup>*\<^sup>* leader p)"
    by (simp add: reached_def)
qed

lemma part_of_inj:
  assumes "universe U" "part_of U g dag"
  shows "inj_on slot (certs dag)" "inj_on c_digest (certs dag)"
  using assms by (auto simp: universe_def part_of_def intro: inj_on_subset)

lemma reached_agree:
  assumes U: "universe U" and dag: "part_of U g dag1" "part_of U g dag2"
    and leader: "leader \<in> certs dag1" "leader \<in> certs dag2" and r: "g < fst k"
  shows "reached dag1 leader k = reached dag2 leader k"
proof -
  have inj: "inj_on c_digest U" and sub: "certs dag1 \<subseteq> U" "certs dag2 \<subseteq> U"
    using U dag by (auto simp: universe_def part_of_def)
  note iff = reached_iff [OF part_of_inj(1) [OF U dag(1)]] reached_iff [OF part_of_inj(1) [OF U dag(2)]]
  have "reached dag1 leader k = Some p \<longleftrightarrow> reached dag2 leader k = Some p" for p
    using path_transfer [OF _ sub(1) inj dag(2) leader(2), of p] path_transfer [OF _ sub(2) inj dag(1) leader(1), of p] r
    unfolding iff by (auto simp: slot_def)
  then show ?thesis by (metis not_None_eq)
qed

lemma order_leaders_loop_step:
  assumes U: "universe U" "well_connected c U" and dag: "part_of U g dag" "leader \<in> certs dag"
    and r: "g < r" "0 < r" "r < c_round leader"
    and a: "schedule_leader ch ls r = Some a" "authority_id a = Some i"
  shows "order_leaders_loop ch ls dag (r # rs) leader acc = (case reached dag leader (r, i) of
      None \<Rightarrow> order_leaders_loop ch ls dag rs leader acc
    | Some p \<Rightarrow> order_leaders_loop ch ls dag rs p (p # acc))"
proof -
  have ok: "dag_ok dag" using dag by (simp add: part_of_def)
  note iff = reached_iff [OF part_of_inj(1) [OF U(1) dag(1)]]
  show ?thesis
  proof (cases "\<exists>p \<in> certs dag. slot p = (r, i)")
    case True
    then obtain p where p: "p \<in> certs dag" "slot p = (r, i)" by blast
    have "leader_certificate ch ls r dag = Some (a, Some p)"
      using leader_certificate_iff(1) [OF ok a] p by blast
    moreover have "linked leader p dag = Some ((parent_of dag)\<^sup>*\<^sup>* leader p)"
      using linked_path [OF U dag p(1)] p(2) r by (auto simp: slot_def)
    moreover have "q = p" if "q \<in> certs dag" "slot q = (r, i)" for q
      using inj_onD [OF part_of_inj(1) [OF U(1) dag(1)], of q p] that p by simp
    then have "reached dag leader (r, i) = (if (parent_of dag)\<^sup>*\<^sup>* leader p then Some p else None)"
      using iff p by (cases "(parent_of dag)\<^sup>*\<^sup>* leader p") metis+
    ultimately show ?thesis by simp
  next
    case False
    with leader_certificate_iff(2) [OF ok a] have "leader_certificate ch ls r dag = Some (a, None)" by auto
    moreover have "reached dag leader (r, i) = None" using False iff(2) by auto
    ultimately show ?thesis by simp
  qed
qed

text \<open>The search for earlier leaders gives the same result in both dags.\<close>

lemma order_leaders_loop_agree:
  assumes U: "universe U" "well_connected c U" and dag: "part_of U g dag1" "part_of U g dag2"
    and leader: "leader \<in> certs dag1" "leader \<in> certs dag2"
    and rs: "sorted_wrt (>) rs" "\<forall>r \<in> set rs. g < r \<and> 0 < r \<and> r < c_round leader"
  shows "order_leaders_loop ch ls dag1 rs leader acc = order_leaders_loop ch ls dag2 rs leader acc"
  using leader rs
proof (induction rs arbitrary: leader acc)
  case (Cons r rs)
  have r: "g < r" "0 < r" "r < c_round leader" "sorted_wrt (>) rs" "\<forall>q \<in> set rs. g < q \<and> 0 < q \<and> q < r"
    "\<forall>q \<in> set rs. g < q \<and> 0 < q \<and> q < c_round leader" using Cons(4,5) by auto
  show ?case
  proof (cases "schedule_leader ch ls r \<bind> authority_id")
    case None
    then have "leader_certificate ch ls r dag = None" for dag
      by (cases "schedule_leader ch ls r") (auto simp: leader_certificate_def)
    then show ?thesis by simp
  next
    case (Some i)
    then obtain a where a: "schedule_leader ch ls r = Some a" "authority_id a = Some i"
      by (auto simp: bind_eq_Some_conv)
    note step = order_leaders_loop_step [OF U _ _ r(1-3) a]
    have same: "reached dag1 leader (r, i) = reached dag2 leader (r, i)"
      using reached_agree [OF U(1) dag Cons(2,3)] r(1) by simp
    show ?thesis
    proof (cases "reached dag2 leader (r, i)")
      case None
      with same show ?thesis
        unfolding step [OF dag(1) Cons(2)] step [OF dag(2) Cons(3)] by (simp add: Cons(1) [OF Cons(2,3) r(4,6)])
    next
      case (Some p)
      with same have Some1: "reached dag1 leader (r, i) = Some p" by simp
      have p: "p \<in> certs dag1" "p \<in> certs dag2" "c_round p = r"
        using Some1 [unfolded reached_iff(1) [OF part_of_inj(1) [OF U(1) dag(1)]]]
          Some [unfolded reached_iff(1) [OF part_of_inj(1) [OF U(1) dag(2)]]] by (auto simp: slot_def)
      have "\<forall>q \<in> set rs. g < q \<and> 0 < q \<and> q < c_round p" using r(5) p(3) by simp
      from Cons(1) [OF p(1,2) r(4) this] Some same show ?thesis
        unfolding step [OF dag(1) Cons(2)] step [OF dag(2) Cons(3)] by simp
    qed
  qed
qed simp

text \<open>Flattening the history of a common certificate gives the same result in both dags.\<close>

lemma part_of_rounds: "universe U \<Longrightarrow> part_of U g dag \<Longrightarrow> rounds_fit (certs dag)"
  by (auto simp: universe_def part_of_def rounds_fit_def)

lemma find_parent_agree:
  assumes U: "universe U" and dag: "part_of U g dag1" "part_of U g dag2"
    and x: "x \<in> certs dag1" "x \<in> certs dag2" "g + 1 < c_round x" and p: "p \<in> set (c_parents x)"
  obtains y where "find_parent dag1 x p = Some (p, y)" "find_parent dag2 x p = Some (p, y)"
    "y \<in> certs dag1" "y \<in> certs dag2" "c_round y + 1 = c_round x"
proof -
  have ok: "dag_ok dag1" "closed_above g dag1" "dag_ok dag2" "closed_above g dag2" "certs dag1 \<subseteq> U" "certs dag2 \<subseteq> U"
    and inj: "inj_on c_digest U" using dag U by (auto simp: part_of_def universe_def)
  obtain y where y: "find_parent dag1 x p = Some (p, y)" "y \<in> certs dag1" "c_digest y = p" "c_round y + 1 = c_round x"
    by (rule find_parent_spec [OF ok(1,2) part_of_rounds [OF U dag(1)] x(1,3) p])
  obtain z where z: "find_parent dag2 x p = Some (p, z)" "z \<in> certs dag2" "c_digest z = p"
    by (rule find_parent_spec [OF ok(3,4) part_of_rounds [OF U dag(2)] x(2,3) p])
  have "y = z" using inj_onD [OF inj, of y z] y(2,3) z(2,3) ok(5,6) by auto
  with y z that show thesis by blast
qed

lemma push_parents_agree:
  assumes U: "universe U" and dag: "part_of U g dag1" "part_of U g dag2"
    and x: "x \<in> certs dag1" "x \<in> certs dag2" "g + 1 < c_round x" and ps: "set ps \<subseteq> set (c_parents x)"
  shows "push_parents dag1 committed x ps buffer seen = push_parents dag2 committed x ps buffer seen \<and>
    (\<forall>buffer' seen'. push_parents dag1 committed x ps buffer seen = Some (buffer', seen') \<longrightarrow>
       set buffer' \<subseteq> set buffer \<union> {y \<in> certs dag1 \<inter> certs dag2. c_round y + 1 = c_round x})"
  using ps
proof (induction ps arbitrary: buffer seen)
  case (Cons p ps)
  obtain y where y: "find_parent dag1 x p = Some (p, y)" "find_parent dag2 x p = Some (p, y)"
    "y \<in> certs dag1" "y \<in> certs dag2" "c_round y + 1 = c_round x"
    using find_parent_agree [OF U dag x, of p] Cons(2) by auto
  from Cons(2) have sub: "set ps \<subseteq> set (c_parents x)" by simp
  show ?case
  proof (cases "p \<in> set seen \<or> already_committed committed y")
    case True
    with Cons(1) [OF sub, of buffer seen] y(1,2) show ?thesis by simp
  next
    case False
    with Cons(1) [OF sub, of "y # buffer" "p # seen"] y show ?thesis by auto
  qed
qed auto

lemma order_loop_agree:
  assumes U: "universe U" and dag: "part_of U g dag1" "part_of U g dag2" and G: "g \<le> G" "G + 1 < 2 ^ 64"
    and buffer: "set buffer \<subseteq> certs dag1 \<inter> certs dag2" "\<forall>x \<in> set buffer. G < c_round x"
  shows "order_loop dag1 committed G buffer seen ordered = order_loop dag2 committed G buffer seen ordered"
  using buffer dag(1) G(1)
proof (induction dag1 committed G buffer seen ordered rule: order_loop.induct)
  case (2 dag1 committed G x buffer seen ordered)
  have x: "x \<in> certs dag1" "x \<in> certs dag2" and G: "G < c_round x" "c_round x + 2 < 2 ^ 64"
    using 2(3-5) U by (auto simp: part_of_def universe_def rounds_fit_def)
  then have add: "u64_add G 1 = G + 1" by (simp add: u64_add_fits)
  show ?case
  proof (cases "c_round x = u64_add G 1")
    case True
    with 2(1) [OF True] 2(3-6) show ?thesis by simp
  next
    case False
    with G add have r: "g + 1 < c_round x" "G + 1 < c_round x" using 2(6) by auto
    note push = push_parents_agree [OF U 2(5) dag(2) x r(1) subset_refl, of committed buffer seen]
    show ?thesis
    proof (cases "push_parents dag1 committed x (c_parents x) buffer seen")
      case None
      with False push show ?thesis by simp
    next
      case (Some b)
      obtain buffer' seen' where b: "b = (buffer', seen')" by (cases b)
      with push Some have sub: "set buffer' \<subseteq> set buffer \<union> {y \<in> certs dag1 \<inter> certs dag2. c_round y + 1 = c_round x}" by blast
      with 2(3,4) r(2) have "set buffer' \<subseteq> certs dag1 \<inter> certs dag2" "\<forall>y \<in> set buffer'. G < c_round y" by force+
      from 2(2) [OF False Some b [symmetric] this 2(5,6)] False Some b push show ?thesis by simp
    qed
  qed
qed simp

lemma order_dag_agree:
  assumes U: "universe U" and dag: "part_of U g (state_dag s1)" "part_of U g (state_dag s2)"
    and same: "last_committed s1 = last_committed s2" "gc_depth s1 = gc_depth s2" "0 < gc_depth s1"
    and leader: "leader \<in> certs (state_dag s1)" "leader \<in> certs (state_dag s2)" "0 < c_round leader"
      "g \<le> c_round leader - gc_depth s1"
  shows "order_dag leader s1 = order_dag leader s2"
proof -
  have "c_round leader + 2 < 2 ^ 64" using U dag(1) leader(1) by (auto simp: universe_def part_of_def rounds_fit_def)
  with order_loop_agree [OF U dag leader(4), of "[leader]" "last_committed s1" "[]" "[]"] leader same
  show ?thesis by (simp add: order_dag_def)
qed

section \<open>The rounds of earlier leaders\<close>

definition leader_rounds :: "round \<Rightarrow> round \<Rightarrow> round list" where
  "leader_rounds m R = step_by_2 (rev [m + 2..<Suc (R - 2)])"

lemma leader_rounds_step:
  assumes "m + 4 \<le> R"
  shows "leader_rounds m R = (R - 2) # leader_rounds m (R - 2)"
proof -
  obtain q where q: "R = q + 4" "m \<le> q" using assms by (metis add.commute add_le_cancel_right le_Suc_ex le_add1 add.assoc)
  then have "rev [m + 2..<Suc (R - 2)] = (q + 2) # (q + 1) # rev [m + 2..<q + 1] \<or> m = q"
    by (auto simp: numeral_eq_Suc)
  with q show ?thesis by (auto simp: leader_rounds_def numeral_eq_Suc)
qed

lemma leader_rounds_base: "R \<le> m + 3 \<Longrightarrow> leader_rounds m R = []"
  by (simp add: leader_rounds_def)

lemma leader_rounds_props:
  "set (leader_rounds m R) \<subseteq> {r. m + 2 \<le> r \<and> r + 2 \<le> R}" "sorted_wrt (>) (leader_rounds m R)"
proof -
  have "set (leader_rounds m R) \<subseteq> set [m + 2..<Suc (R - 2)]"
    using step_by_2_set [of "rev [m + 2..<Suc (R - 2)]"] by (simp add: leader_rounds_def)
  then show "set (leader_rounds m R) \<subseteq> {r. m + 2 \<le> r \<and> r + 2 \<le> R}" by auto
  show "sorted_wrt (>) (leader_rounds m R)"
    unfolding leader_rounds_def by (intro step_by_2_sorted) (simp add: sorted_wrt_rev del: upt_Suc)
qed

lemma leader_rounds_split:
  assumes "even m" "even r" "even R" "m < r" "r < R"
  shows "leader_rounds m R = leader_rounds r R @ r # leader_rounds m r"
  using assms(3,5)
proof (induction R rule: less_induct)
  case (less R)
  show ?case
  proof (cases "R = r + 2")
    case True
    moreover have "m + 2 \<le> r" using assms by presburger
    ultimately show ?thesis by (simp add: leader_rounds_step leader_rounds_base)
  next
    case False
    with less(2,3) assms(2) have R: "r + 4 \<le> R" by presburger
    with less(1) [of "R - 2"] less(2) have "leader_rounds m (R - 2) = leader_rounds r (R - 2) @ r # leader_rounds m r"
      by simp
    with R assms(4) show ?thesis by (simp add: leader_rounds_step)
  qed
qed

section \<open>Chains of leaders\<close>

lemma leader_certificate_spec:
  assumes "dag_ok dag" "leader_certificate ch ls r dag = Some (a, Some x)"
  shows "x \<in> certs dag \<and> c_round x = r \<and> authority_id a = Some (c_origin x) \<and> schedule_leader ch ls r = Some a \<and> even r"
proof -
  from assms(2) obtain i where a: "schedule_leader ch ls r = Some a" "authority_id a = Some i"
    by (auto simp: leader_certificate_def bind_eq_Some_conv)
  moreover from a(1) have "even r"
    by (auto simp: schedule_leader_def panic_unless_def bind_eq_Some_conv even_iff_mod_2_eq_zero split: if_splits)
  ultimately show ?thesis
    using leader_certificate_iff(1) [OF assms(1) a, of a x] assms(2) by (auto simp: slot_def)
qed

text \<open>Leaders to commit: certificates of the dag in even rounds above round \<open>m\<close>, by ascending round.\<close>

definition leaders_ok :: "dag \<Rightarrow> round \<Rightarrow> certificate list \<Rightarrow> bool" where
  "leaders_ok dag m ls \<longleftrightarrow> sorted_wrt (\<lambda>x y. c_round x < c_round y) ls \<and>
     (\<forall>x \<in> set ls. x \<in> certs dag \<and> m < c_round x \<and> even (c_round x))"

lemma order_leaders_loop_spec:
  assumes "dag_ok dag" "order_leaders_loop ch ls dag rs leader (leader # rest) = Some out"
    "sorted_wrt (>) rs" "\<forall>r \<in> set rs. m < r \<and> r < c_round leader" "leaders_ok dag m (leader # rest)"
  shows "leaders_ok dag m out \<and> (\<exists>pre. out = pre @ leader # rest \<and> c_round ` set pre \<subseteq> set rs)"
  using assms
proof (induction rs arbitrary: leader rest)
  case (Cons r rs)
  from Cons(3) obtain a found where lc: "leader_certificate ch ls r dag = Some (a, found)"
    by (auto simp: bind_eq_Some_conv)
  have rs: "sorted_wrt (>) rs" "\<forall>r' \<in> set rs. r' < r" using Cons(4) by auto
  show ?case
  proof (cases found)
    case None
    with lc Cons(3) have "order_leaders_loop ch ls dag rs leader (leader # rest) = Some out" by simp
    from Cons(1) [OF Cons(2) this rs(1)] Cons(5,6) show ?thesis by auto
  next
    case (Some prev)
    with lc Cons(3) obtain path where
      nxt: "(if path then order_leaders_loop ch ls dag rs prev (prev # leader # rest)
         else order_leaders_loop ch ls dag rs leader (leader # rest)) = Some out"
      by (auto simp: bind_eq_Some_conv)
    from leader_certificate_spec [OF Cons(2)] lc Some have prev: "prev \<in> certs dag" "c_round prev = r" "even r" by auto
    show ?thesis
    proof (cases path)
      case True
      have "leaders_ok dag m (prev # leader # rest)"
        using Cons(5,6) prev by (fastforce simp: leaders_ok_def)
      from Cons(1) [OF Cons(2) _ rs(1) _ this] nxt True rs(2) prev Cons(5) obtain pre where
        "leaders_ok dag m out" "out = pre @ prev # leader # rest" "c_round ` set pre \<subseteq> set rs" by auto
      with prev(2) show ?thesis by (intro conjI exI [of _ "pre @ [prev]"]) auto
    next
      case False
      with nxt have "order_leaders_loop ch ls dag rs leader (leader # rest) = Some out" by simp
      from Cons(1) [OF Cons(2) this rs(1)] Cons(5,6) show ?thesis by auto
    qed
  qed
qed auto

lemma order_leaders_loop_append:
  "order_leaders_loop ch ls dag (rs @ rs') leader (leader # acc)
     = order_leaders_loop ch ls dag rs leader (leader # acc) \<bind> (\<lambda>out. order_leaders_loop ch ls dag rs' (hd out) out)"
proof (induction rs arbitrary: leader acc)
  case (Cons r rs)
  then show ?case by (auto simp: bind_assoc split: option.splits intro!: Option.bind_cong)
qed simp

lemma order_leaders_loop_acc:
  "order_leaders_loop ch ls dag rs leader (xs @ ys) = map_option (\<lambda>out. out @ ys) (order_leaders_loop ch ls dag rs leader xs)"
proof (induction rs arbitrary: leader xs)
  case (Cons r rs)
  have "order_leaders_loop ch ls dag rs prev (prev # xs @ ys)
      = map_option (\<lambda>out. out @ ys) (order_leaders_loop ch ls dag rs prev (prev # xs))" for prev
    using Cons [of prev "prev # xs"] by simp
  with Cons show ?case by (auto simp: map_option_bind comp_def split: option.splits intro!: Option.bind_cong)
qed simp

text \<open>The leaders that a supported leader commits, in a dag whose last committed round is \<open>m\<close>.\<close>

definition chain ::
  "choices \<Rightarrow> narwhal_committee \<Rightarrow> leader_schedule \<Rightarrow> dag \<Rightarrow> round \<Rightarrow> certificate list \<Rightarrow> bool" where
  "chain ch c ls dag m L \<longleftrightarrow> (\<exists>l a table. leader_certificate ch ls (c_round l) dag = Some (a, Some l) \<and> m < c_round l \<and>
     map_of dag (c_round l + 1) = Some table \<and> nc_validity_threshold c \<le> leader_support c table l \<and>
     order_leaders_loop ch ls dag (leader_rounds m (c_round l)) l [l] = Some L)"

lemma part_of_mono: "part_of U g dag \<Longrightarrow> g \<le> g' \<Longrightarrow> part_of U g' dag"
  by (auto simp: part_of_def closed_above_def)

lemma chain_leaders_ok:
  assumes "dag_ok dag" "chain ch c ls dag m L"
  shows "leaders_ok dag m L \<and> L \<noteq> []"
proof -
  from assms(2) obtain l a where l: "leader_certificate ch ls (c_round l) dag = Some (a, Some l)" "m < c_round l"
    and loop: "order_leaders_loop ch ls dag (leader_rounds m (c_round l)) l [l] = Some L" by (auto simp: chain_def)
  have "leaders_ok dag m [l]" using leader_certificate_spec [OF assms(1) l(1)] l(2) by (simp add: leaders_ok_def)
  moreover have "\<forall>r \<in> set (leader_rounds m (c_round l)). m < r \<and> r < c_round l" using leader_rounds_props(1) by fastforce
  ultimately show ?thesis using order_leaders_loop_spec [OF assms(1) loop leader_rounds_props(2)] by auto
qed

text \<open>The chain of a later leader extends the chain of an earlier supported one, whichever dags they are
  found in.\<close>

lemma leader_rounds_above:
  "m \<le> g \<Longrightarrow> \<forall>r \<in> set (leader_rounds g R). m < r \<and> 0 < r \<and> r < R"
  using leader_rounds_props(1) by fastforce

lemma chain_extends:
  assumes U: "universe U" "well_connected c U" and dag: "part_of U g dag1" "part_of U g dag2" and m: "even m" "g \<le> m"
    and one: "leader_certificate ch ls (c_round l1) dag1 = Some (a1, Some l1)" "m < c_round l1"
      "map_of dag1 (c_round l1 + 1) = Some table" "nc_validity_threshold c \<le> leader_support c table l1"
      "order_leaders_loop ch ls dag1 (leader_rounds m (c_round l1)) l1 [l1] = Some L1"
    and two: "leader_certificate ch ls (c_round l2) dag2 = Some (a2, Some l2)" "c_round l1 < c_round l2"
      "order_leaders_loop ch ls dag2 (leader_rounds m (c_round l2)) l2 [l2] = Some L2"
  shows "\<exists>L. L2 = L1 @ L"
proof -
  let ?r = "c_round l1"
  have ok: "dag_ok dag1" "dag_ok dag2" "certs dag1 \<subseteq> U" "certs dag2 \<subseteq> U" "closed_above g dag2"
    using dag by (auto simp: part_of_def)
  note l1 = leader_certificate_spec [OF ok(1) one(1)] and l2 = leader_certificate_spec [OF ok(2) two(1)]
  have r: "g < ?r" "0 < ?r" "even ?r" "even (c_round l2)" using m one(2) l1 l2 by auto
  from two(3) leader_rounds_split [OF m(1) r(3,4) one(2) two(2)] order_leaders_loop_append [of ch ls dag2 _ _ l2 "[]"]
  obtain out where out: "order_leaders_loop ch ls dag2 (leader_rounds ?r (c_round l2)) l2 [l2] = Some out"
    and rest: "order_leaders_loop ch ls dag2 (?r # leader_rounds m ?r) (hd out) out = Some L2"
    by (auto simp: bind_eq_Some_conv simp del: order_leaders_loop.simps)
  have "leaders_ok dag2 ?r [l2]" using l2 two(2) by (simp add: leaders_ok_def)
  with order_leaders_loop_spec [OF ok(2) out leader_rounds_props(2)] leader_rounds_above [of ?r ?r "c_round l2"]
  have "leaders_ok dag2 ?r out" "out \<noteq> []" by auto
  then have hd: "hd out \<in> certs dag2" "?r < c_round (hd out)" "even (c_round (hd out))"
    by (cases out; auto simp: leaders_ok_def)+
  then have "?r + 2 \<le> c_round (hd out)" using r(3) by presburger
  with supported_leader_path [OF U ok(1,3) one(3,4) _ r(1,2) ok(2,5,4) hd(1)] l1 ok(3)
  have path: "l1 \<in> certs dag2" "(parent_of dag2)\<^sup>*\<^sup>* (hd out) l1" by auto
  have "reached dag2 (hd out) (?r, c_origin l1) = Some l1"
    using path unfolding reached_iff(1) [OF part_of_inj(1) [OF U(1) dag(2)]] by (simp add: slot_def)
  with order_leaders_loop_step [OF U dag(2) hd(1) r(1,2) hd(2)] l1 rest
  have "order_leaders_loop ch ls dag2 (leader_rounds m ?r) l1 ([l1] @ out) = Some L2" by simp
  moreover have "order_leaders_loop ch ls dag2 (leader_rounds m ?r) l1 [l1] = Some L1"
    using order_leaders_loop_agree [OF U dag, of l1 "leader_rounds m ?r" ch ls "[l1]"] l1 path(1) one(5)
      leader_rounds_props(2) leader_rounds_above [of g m ?r] m(2) by auto
  ultimately show ?thesis unfolding order_leaders_loop_acc by auto
qed

lemma chain_head_agree:
  assumes U: "universe U" "well_connected c U" and dag: "part_of U g dag1" "part_of U g dag2" and m: "even m" "g \<le> m"
    and L: "chain ch c ls dag1 m L1" "chain ch c ls dag2 m L2"
  shows "hd L1 = hd L2"
proof -
  have ok: "dag_ok dag1" "dag_ok dag2" "certs dag1 \<subseteq> U" "certs dag2 \<subseteq> U" using dag by (auto simp: part_of_def)
  note ne = chain_leaders_ok [OF ok(1) L(1)] chain_leaders_ok [OF ok(2) L(2)]
  from L(1) obtain l1 a1 t1 where one: "leader_certificate ch ls (c_round l1) dag1 = Some (a1, Some l1)" "m < c_round l1"
    "map_of dag1 (c_round l1 + 1) = Some t1" "nc_validity_threshold c \<le> leader_support c t1 l1"
    "order_leaders_loop ch ls dag1 (leader_rounds m (c_round l1)) l1 [l1] = Some L1" by (auto simp: chain_def)
  from L(2) obtain l2 a2 t2 where two: "leader_certificate ch ls (c_round l2) dag2 = Some (a2, Some l2)" "m < c_round l2"
    "map_of dag2 (c_round l2 + 1) = Some t2" "nc_validity_threshold c \<le> leader_support c t2 l2"
    "order_leaders_loop ch ls dag2 (leader_rounds m (c_round l2)) l2 [l2] = Some L2" by (auto simp: chain_def)
  consider "c_round l1 < c_round l2" | "c_round l2 < c_round l1" | "c_round l1 = c_round l2" by linarith
  then show ?thesis
  proof cases
    case 1
    with chain_extends [OF U dag m one two(1) 1 two(5)] ne show ?thesis by auto
  next
    case 2
    with chain_extends [OF U dag(2,1) m two one(1) 2 one(5)] ne show ?thesis by auto
  next
    case 3
    note s = leader_certificate_spec [OF ok(1) one(1)] leader_certificate_spec [OF ok(2) two(1)]
    with 3 have "slot l1 = slot l2" by (auto simp: slot_def)
    then have "l1 = l2" using inj_onD [of slot U l1 l2] U(1) s ok by (auto simp: universe_def)
    with order_leaders_loop_agree [OF U dag, of l1 "leader_rounds m (c_round l1)" ch ls "[l1]"] s one(5) two(5)
      leader_rounds_props(2) leader_rounds_above [of g m "c_round l1"] m(2) show ?thesis by auto
  qed
qed

text \<open>Committing the first leader of a chain leaves the chain of the others.\<close>

lemma order_leaders_loop_tail:
  assumes ok: "dag_ok dag" and m: "even m" and l: "l \<in> certs dag" "even (c_round l)" "m < c_round l"
    and loop: "order_leaders_loop ch ls dag (leader_rounds m (c_round l)) l [l] = Some (h # L)" "L \<noteq> []"
  shows "order_leaders_loop ch ls dag (leader_rounds (c_round h) (c_round l)) l [l] = Some L" "c_round h < c_round l"
proof -
  have lo: "leaders_ok dag m [l]" using l by (simp add: leaders_ok_def)
  have "\<forall>r \<in> set (leader_rounds m (c_round l)). m < r \<and> r < c_round l" using leader_rounds_above [of m m "c_round l"] by blast
  note spec = order_leaders_loop_spec [OF ok loop(1) leader_rounds_props(2) this lo]
  then have sorted: "leaders_ok dag m (h # L)" by blast
  from spec obtain pre where "h # L = pre @ [l]" by blast
  then have h: "c_round h < c_round l" "even (c_round h)" "m < c_round h"
    using loop(2) sorted by (cases pre; auto simp: leaders_ok_def)+
  then show "c_round h < c_round l" by blast
  note split = leader_rounds_split [OF m h(2) l(2) h(3,1)]
  obtain out where out: "order_leaders_loop ch ls dag (leader_rounds (c_round h) (c_round l)) l [l] = Some out"
    and rest: "order_leaders_loop ch ls dag (c_round h # leader_rounds m (c_round h)) (hd out) out = Some (h # L)"
    using loop(1) unfolding split order_leaders_loop_append bind_eq_Some_conv by blast
  have "leaders_ok dag (c_round h) [l]" using l h(1) by (simp add: leaders_ok_def)
  moreover have "\<forall>r \<in> set (leader_rounds (c_round h) (c_round l)). c_round h < r \<and> r < c_round l"
    using leader_rounds_above [of "c_round h" "c_round h" "c_round l"] by blast
  ultimately obtain pre1 where out1: "leaders_ok dag (c_round h) out" "out = pre1 @ [l]"
    using order_leaders_loop_spec [OF ok out leader_rounds_props(2)] by blast
  have "out \<noteq> []" using out1(2) by simp
  then obtain o1 os where os: "out = o1 # os" by (auto simp: neq_Nil_conv)
  have below: "\<forall>r \<in> set (c_round h # leader_rounds m (c_round h)). m < r \<and> r \<le> c_round h"
    using leader_rounds_above [of m m "c_round h"] h(3) by auto
  have "sorted_wrt (>) (c_round h # leader_rounds m (c_round h))"
    using leader_rounds_props(2) leader_rounds_above [of m m "c_round h"] by auto
  moreover have "\<forall>r \<in> set (c_round h # leader_rounds m (c_round h)). m < r \<and> r < c_round o1"
    using below out1(1) os by (fastforce simp: leaders_ok_def)
  moreover have "leaders_ok dag m (o1 # os)" using out1(1) os h(3) by (fastforce simp: leaders_ok_def)
  ultimately obtain pre where pre: "h # L = pre @ out" "c_round ` set pre \<subseteq> set (c_round h # leader_rounds m (c_round h))"
    using order_leaders_loop_spec [OF ok] rest unfolding os list.sel by blast
  have above: "c_round h < c_round x" if "x \<in> set L" for x using sorted that by (simp add: leaders_ok_def)
  have "pre \<noteq> []" using pre(1) out1(1) os by (auto simp: leaders_ok_def)
  then obtain ps where ps: "pre = h # ps" "L = ps @ out" using pre(1) by (cases pre) auto
  have "ps = []"
  proof (rule ccontr)
    assume "ps \<noteq> []"
    then have "hd ps \<in> set ps" by simp
    then have "c_round h < c_round (hd ps)" "c_round (hd ps) \<le> c_round h" using above below pre(2) ps by auto
    then show False by simp
  qed
  with ps out show "order_leaders_loop ch ls dag (leader_rounds (c_round h) (c_round l)) l [l] = Some L" by simp
qed

lemma chain_tail:
  assumes U: "universe U" "well_connected c U" and dag: "part_of U g dag" "part_of U g' dag'" and m: "even m" "g \<le> g'" "g' \<le> c_round h"
    and rows: "\<And>r. g' < r \<Longrightarrow> map_of dag' r = map_of dag r"
    and L: "chain ch c ls dag m (h # L)" "L \<noteq> []"
  shows "chain ch c ls dag' (c_round h) L"
proof -
  have ok: "dag_ok dag" "dag_ok dag'" using dag by (auto simp: part_of_def)
  from L(1) obtain l a t where l: "leader_certificate ch ls (c_round l) dag = Some (a, Some l)" "m < c_round l"
    "map_of dag (c_round l + 1) = Some t" "nc_validity_threshold c \<le> leader_support c t l"
    and loop: "order_leaders_loop ch ls dag (leader_rounds m (c_round l)) l [l] = Some (h # L)" by (auto simp: chain_def)
  have spec: "l \<in> certs dag" "even (c_round l)" using leader_certificate_spec [OF ok(1) l(1)] by auto
  note tail = order_leaders_loop_tail [OF ok(1) m(1) spec l(2) loop L(2)]
  have row: "map_of dag' (c_round l) = map_of dag (c_round l)" using tail(2) m(3) by (intro rows) simp
  have above: "map_of dag' (c_round l + 1) = map_of dag (c_round l + 1)" using tail(2) m(3) by (intro rows) simp
  have l': "leader_certificate ch ls (c_round l) dag' = Some (a, Some l)"
    using l(1) unfolding leader_certificate_def row .
  have "l \<in> certs dag'" using leader_certificate_spec [OF ok(2) l'] by simp
  moreover have "\<forall>r \<in> set (leader_rounds (c_round h) (c_round l)). g' < r \<and> 0 < r \<and> r < c_round l"
    using leader_rounds_above [OF m(3), of "c_round l"] by blast
  ultimately have "order_leaders_loop ch ls dag' (leader_rounds (c_round h) (c_round l)) l [l] = Some L"
    using order_leaders_loop_agree [OF U part_of_mono [OF dag(1) m(2)] dag(2) spec(1) _ leader_rounds_props(2), of "c_round h" "c_round l" ch ls "[l]"]
      tail(1) by simp
  with l(3,4) l' above tail(2) show ?thesis
    unfolding chain_def by (intro exI [of _ l] exI [of _ a] exI [of _ t]) simp
qed

end
