(* ===== verification/Commit_Steps.thy ===== *)
theory Commit_Steps
  imports Dag_Paths
begin

text \<open>
  What a commit is, abstractly: a relation that takes the state over the sub-dag of one leader, a step of
  the protocol that also elects the leader and moves the schedule, and its closure over sequences of
  sub-dags. The handlers of \<^verbatim>\<open>bullshark.rs\<close> refine it, and so everything that
  holds of the relation holds of them: the state invariant, that no certificate is sequenced twice, and
  the order of sub-dags by leader round, index and timestamp.
\<close>

section \<open>The invariant of the consensus state\<close>

text \<open>The shape of the state holds after every update; between commits the last committed round is a
  round of leaders.\<close>

definition state_shape :: "certificate set \<Rightarrow> consensus_state \<Rightarrow> bool" where
  "state_shape U s \<longleftrightarrow> dag_ok (state_dag s) \<and> certs (state_dag s) \<subseteq> U \<and>
     closed_above (gc_round (last_round s)) (state_dag s) \<and>
     (\<forall>x \<in> certs (state_dag s). gc_round (last_round s) < c_round x) \<and>
     gc_round (last_round s) = committed_round (last_round s) - gc_depth s \<and> 0 < gc_depth s \<and>
     (\<forall>(a, r) \<in> set (last_committed s). r \<le> committed_round (last_round s))"

definition state_ok :: "certificate set \<Rightarrow> consensus_state \<Rightarrow> bool" where
  "state_ok U s \<longleftrightarrow> state_shape U s \<and> even (committed_round (last_round s))"

lemma state_ok_part_of: "state_ok U s \<Longrightarrow> part_of U (gc_round (last_round s)) (state_dag s)"
  unfolding state_ok_def state_shape_def part_of_def by blast

lemma state_shape_sub_dag [simp]: "state_shape U (s\<lparr>last_committed_sub_dag := x\<rparr>) = state_shape U s"
  by (simp add: state_shape_def)

lemma state_new_ok: "0 < depth \<Longrightarrow> state_ok U (state_new depth)"
  by (simp add: state_ok_def state_shape_def state_new_def closed_above_def)

lemma state_ok_sub_dag [simp]: "state_ok U (s\<lparr>last_committed_sub_dag := x\<rparr>) = state_ok U s"
  by (simp add: state_ok_def state_shape_def)

lemma closed_above_filter:
  assumes "dag_ok dag" "closed_above g dag" "g \<le> g'"
  shows "closed_above g' (filter (\<lambda>(r, _). r > g') dag)"
  unfolding closed_above_def certs_filter(1) [OF assms(1)]
proof (intro ballI impI)
  fix x p assume x: "x \<in> {x \<in> certs dag. g' < c_round x}" "g' + 1 < c_round x" "p \<in> set (c_parents x)"
  with assms(3) have "x \<in> certs dag" "g + 1 < c_round x" by auto
  from closed_aboveD [OF assms(2) this x(3)] obtain y where
    "y \<in> certs dag" "c_digest y = p" "c_round y + 1 = c_round x" .
  with x(2) show "\<exists>y \<in> {x \<in> certs dag. g' < c_round x}. c_digest y = p \<and> c_round y + 1 = c_round x"
    by auto
qed

lemma state_update_shape:
  assumes "state_shape U s"
  shows "state_shape U (state_update x s)"
proof -
  let ?lr = "round_update (c_round x) (gc_depth s) (last_round s)"
  have lr: "gc_round ?lr = committed_round ?lr - gc_depth s"
    "committed_round ?lr = max (committed_round (last_round s)) (c_round x)"
    by (simp_all add: round_update_def calc_gc_round_def Let_def)
  have le: "gc_round (last_round s) \<le> gc_round ?lr"
    using assms lr by (auto simp: state_shape_def max_def)
  have dag: "dag_ok (state_dag s)" "closed_above (gc_round (last_round s)) (state_dag s)"
    using assms by (auto simp: state_shape_def)
  let ?P = "\<lambda>(a, r). r \<le> committed_round ?lr"
  have "\<forall>e \<in> set (last_committed s). ?P e" using assms lr(2) by (auto simp: state_shape_def)
  moreover have "?P (c_origin x, case map_of (last_committed s) (c_origin x) of
      Some r \<Rightarrow> max r (c_round x) | None \<Rightarrow> c_round x)"
    using assms lr(2) by (auto simp: state_shape_def split: option.splits dest!: map_of_SomeD)
  ultimately have "\<forall>e \<in> set (last_committed (state_update x s)). ?P e"
    using ball_alist_update [of ?P "c_origin x"] unfolding state_update_def Let_def by simp
  with assms lr certs_filter [OF dag(1)] closed_above_filter [OF dag le] show ?thesis
    by (auto simp: state_shape_def state_update_def Let_def)
qed

lemma state_update_simps:
  "gc_depth (state_update x s) = gc_depth s"
  "last_committed_sub_dag (state_update x s) = last_committed_sub_dag s"
  "committed_round (last_round (state_update x s)) = max (committed_round (last_round s)) (c_round x)"
  by (simp_all add: state_update_def round_update_def Let_def)

lemma already_committed_update:
  "already_committed (last_committed (state_update x s)) y \<longleftrightarrow>
     already_committed (last_committed s) y \<or> c_origin y = c_origin x \<and> c_round y \<le> c_round x"
  by (auto simp: already_committed_def state_update_def Let_def update_conv' split: option.splits)

lemma certs_state_update:
  assumes "dag_ok (state_dag s)"
  shows "certs (state_dag (state_update x s))
    = {y \<in> certs (state_dag s). max (committed_round (last_round s)) (c_round x) - gc_depth s < c_round y}"
  using certs_filter [OF assms]
  by (simp add: state_update_def round_update_def calc_gc_round_def Let_def)

text \<open>Updating with a whole sequence.\<close>

lemma fold_update_simps:
  "gc_depth (fold state_update xs s) = gc_depth s"
  "last_committed_sub_dag (fold state_update xs s) = last_committed_sub_dag s"
  "committed_round (last_round (fold state_update xs s)) = fold max (map c_round xs) (committed_round (last_round s))"
  by (induction xs arbitrary: s) (simp_all add: state_update_simps max.commute)

lemma fold_update_shape: "state_shape U s \<Longrightarrow> state_shape U (fold state_update xs s)"
  by (induction xs arbitrary: s) (auto intro: state_update_shape)

lemma fold_already_committed:
  "already_committed (last_committed (fold state_update xs s)) y \<longleftrightarrow>
     already_committed (last_committed s) y \<or> (\<exists>x \<in> set xs. c_origin y = c_origin x \<and> c_round y \<le> c_round x)"
  by (induction xs arbitrary: s) (auto simp: already_committed_update)

lemma certs_fold_update:
  assumes "state_shape U s" "\<forall>x \<in> set xs. c_round x \<le> m" "committed_round (last_round s) \<le> m" "y \<in> certs (state_dag s)"
    "m - gc_depth s < c_round y"
  shows "y \<in> certs (state_dag (fold state_update xs s))"
  using assms
proof (induction xs arbitrary: s)
  case (Cons x xs)
  have "y \<in> certs (state_dag (state_update x s))"
    using Cons.prems by (subst certs_state_update) (auto simp: state_shape_def)
  with Cons.IH [OF state_update_shape [OF Cons.prems(1)], of x] Cons.prems show ?case
    by (simp add: state_update_simps)
qed simp

lemma certs_fold_update_subset:
  assumes "state_shape U s"
  shows "certs (state_dag (fold state_update xs s)) \<subseteq> certs (state_dag s)"
  using assms
proof (induction xs arbitrary: s)
  case (Cons x xs)
  have "certs (state_dag (state_update x s)) \<subseteq> certs (state_dag s)"
    using Cons.prems by (subst certs_state_update) (auto simp: state_shape_def)
  with Cons.IH [OF state_update_shape [OF Cons.prems], of x] show ?case by auto
qed simp

lemma rows_state_update:
  "map_of (state_dag (state_update x s)) r =
     (if max (committed_round (last_round s)) (c_round x) - gc_depth s < r then map_of (state_dag s) r else None)"
  by (simp add: state_update_def round_update_def calc_gc_round_def Let_def map_of_filter_fst)

lemma rows_fold_update:
  assumes "\<forall>x \<in> set xs. c_round x \<le> m" "committed_round (last_round s) \<le> m" "m - gc_depth s < r"
  shows "map_of (state_dag (fold state_update xs s)) r = map_of (state_dag s) r"
  using assms
proof (induction xs arbitrary: s)
  case (Cons x xs)
  have "map_of (state_dag (state_update x s)) r = map_of (state_dag s) r"
    using Cons.prems by (auto simp: rows_state_update)
  with Cons.IH [of "state_update x s"] Cons.prems show ?case by (simp add: state_update_simps)
qed simp

section \<open>Committing one leader\<close>

text \<open>The abstract step: the state commits the sub-dag of a leader that is in the dag above the last
  committed round.\<close>

definition commit_step :: "consensus_state \<Rightarrow> committed_sub_dag \<Rightarrow> consensus_state \<Rightarrow> bool" where
  "commit_step s sd s' \<longleftrightarrow>
     sd_leader sd \<in> certs (state_dag s) \<and> committed_round (last_round s) < c_round (sd_leader sd) \<and>
     even (c_round (sd_leader sd)) \<and>
     order_dag (sd_leader sd) s = Some (sd_certificates sd) \<and>
     sd_sub_dag_index sd = next_sub_dag_index s \<and>
     sd_commit_timestamp sd = max (case last_committed_sub_dag s of None \<Rightarrow> 0 | Some p \<Rightarrow> sd_commit_timestamp p)
       (h_created_at (c_header (sd_leader sd))) \<and>
     s' = (fold state_update (sd_certificates sd) s)\<lparr>last_committed_sub_dag := Some sd\<rparr>"

lemma not_already_committed:
  assumes "state_shape U s" "committed_round (last_round s) < c_round x"
  shows "\<not> already_committed (last_committed s) x"
  using assms by (force simp: state_shape_def already_committed_def dest: map_of_SomeD split: option.splits)

lemma order_dag_ok:
  assumes "universe U" "state_shape U s" "leader \<in> certs (state_dag s)"
    "committed_round (last_round s) < c_round leader"
  obtains out where "order_dag leader s = Some out" "distinct out" "sorted (map c_round out)"
    "set out \<subseteq> certs (state_dag s)" "leader \<in> set out"
    "\<And>x. x \<in> set out \<Longrightarrow> x \<noteq> leader \<Longrightarrow> c_round x < c_round leader"
    "\<And>x. x \<in> set out \<Longrightarrow> \<not> already_committed (last_committed s) x"
    "\<And>x. x \<in> set out \<Longrightarrow> c_round leader - gc_depth s < c_round x"
    "history_closed (state_dag s) (last_committed s) (c_round leader - gc_depth s) out (set out)"
proof -
  have U: "rounds_fit (certs (state_dag s))" "inj_on c_digest (certs (state_dag s))"
    using assms(1,2) by (auto simp: universe_def state_shape_def rounds_fit_def intro: inj_on_subset)
  have s: "dag_ok (state_dag s)" "closed_above (gc_round (last_round s)) (state_dag s)" "0 < gc_depth s"
    "gc_round (last_round s) \<le> c_round leader - gc_depth s" "0 < c_round leader"
    using assms(2,4) by (auto simp: state_shape_def)
  from order_dag_spec [OF s(1,2) U assms(3) s(5,3,4)] not_already_committed [OF assms(2,4)] that
  show thesis by metis
qed

lemma universe_slot: "universe U \<Longrightarrow> inj_on slot U"
  by (simp add: universe_def)

lemma fold_max_attained:
  assumes "(m :: nat) \<in> set xs" "\<forall>x \<in> set xs. x \<le> m" "a \<le> m"
  shows "fold max xs a = m"
proof -
  have "fold max xs a = Max (insert a (set xs))" by (simp add: Max.set_eq_fold [symmetric])
  also have "\<dots> = m" using assms by (intro Max_eqI) auto
  finally show ?thesis .
qed

text \<open>What one step does.\<close>

lemma commit_step_spec:
  assumes U: "universe U" and ok: "state_ok U s" and step: "commit_step s sd s'"
  shows "state_ok U s'" "committed_round (last_round s') = c_round (sd_leader sd)"
    "gc_depth s' = gc_depth s" "last_committed_sub_dag s' = Some sd"
    "certs (state_dag s') \<subseteq> certs (state_dag s)"
    "\<And>y. y \<in> certs (state_dag s) \<Longrightarrow> c_round (sd_leader sd) - gc_depth s < c_round y \<Longrightarrow> y \<in> certs (state_dag s')"
    "distinct (map slot (sd_certificates sd))" "sorted (map c_round (sd_certificates sd))"
    "sd_leader sd \<in> set (sd_certificates sd)" "set (sd_certificates sd) \<subseteq> certs (state_dag s)"
    "\<And>x. x \<in> set (sd_certificates sd) \<Longrightarrow> c_round x \<le> c_round (sd_leader sd)"
    "\<And>x. x \<in> set (sd_certificates sd) \<Longrightarrow> \<not> already_committed (last_committed s) x"
    "\<And>x. x \<in> set (sd_certificates sd) \<Longrightarrow> already_committed (last_committed s') x"
    "\<And>x. already_committed (last_committed s) x \<Longrightarrow> already_committed (last_committed s') x"
    "history_closed (state_dag s) (last_committed s) (c_round (sd_leader sd) - gc_depth s) (sd_certificates sd)
       (set (sd_certificates sd))"
    "\<And>r. c_round (sd_leader sd) - gc_depth s < r \<Longrightarrow> map_of (state_dag s') r = map_of (state_dag s) r"
proof -
  let ?l = "sd_leader sd" and ?xs = "sd_certificates sd"
  have shape: "state_shape U s" using ok by (simp add: state_ok_def)
  have l: "?l \<in> certs (state_dag s)" "committed_round (last_round s) < c_round ?l" "even (c_round ?l)"
    and out: "order_dag ?l s = Some ?xs"
    and s': "s' = (fold state_update ?xs s)\<lparr>last_committed_sub_dag := Some sd\<rparr>"
    using step by (auto simp: commit_step_def)
  from order_dag_ok [OF U shape l(1,2)] out have xs: "distinct ?xs" "sorted (map c_round ?xs)"
    "set ?xs \<subseteq> certs (state_dag s)" "?l \<in> set ?xs"
    "\<And>x. x \<in> set ?xs \<Longrightarrow> x \<noteq> ?l \<Longrightarrow> c_round x < c_round ?l"
    "\<And>x. x \<in> set ?xs \<Longrightarrow> \<not> already_committed (last_committed s) x"
    "history_closed (state_dag s) (last_committed s) (c_round ?l - gc_depth s) ?xs (set ?xs)"
    by (metis option.inject)+
  have le: "\<And>x. x \<in> set ?xs \<Longrightarrow> c_round x \<le> c_round ?l" using xs(5) by force
  have "set ?xs \<subseteq> U" using shape xs(3) by (auto simp: state_shape_def)
  from inj_on_subset [OF universe_slot [OF U] this]
  show "distinct (map slot ?xs)" using xs(1) by (simp add: distinct_map)
  show round: "committed_round (last_round s') = c_round ?l"
    unfolding s' using fold_max_attained [of "c_round ?l" "map c_round ?xs"] xs(4) le l(2)
    by (simp add: fold_update_simps)
  show "state_ok U s'" using fold_update_shape [OF shape, of ?xs] round l(3) unfolding s' by (simp add: state_ok_def)
  show "c_round ?l - gc_depth s < r \<Longrightarrow> map_of (state_dag s') r = map_of (state_dag s) r" for r
    using rows_fold_update [of ?xs "c_round ?l" s r] le l(2) unfolding s' by simp
  show "certs (state_dag s') \<subseteq> certs (state_dag s)"
    using certs_fold_update_subset [OF shape, of ?xs] unfolding s' by simp
  show "y \<in> certs (state_dag s) \<Longrightarrow> c_round ?l - gc_depth s < c_round y \<Longrightarrow> y \<in> certs (state_dag s')" for y
    using certs_fold_update [OF shape, of ?xs "c_round ?l" y] le l(2) unfolding s' by simp
  show "x \<in> set ?xs \<Longrightarrow> already_committed (last_committed s') x"
    "already_committed (last_committed s) x \<Longrightarrow> already_committed (last_committed s') x" for x
    unfolding s' by (auto simp: fold_already_committed)
  show "gc_depth s' = gc_depth s" "last_committed_sub_dag s' = Some sd"
    unfolding s' by (simp_all add: fold_update_simps)
  show "sorted (map c_round ?xs)" "?l \<in> set ?xs" "set ?xs \<subseteq> certs (state_dag s)"
    "history_closed (state_dag s) (last_committed s) (c_round ?l - gc_depth s) ?xs (set ?xs)"
    by (fact xs)+
  show "x \<in> set ?xs \<Longrightarrow> c_round x \<le> c_round ?l" "x \<in> set ?xs \<Longrightarrow> \<not> already_committed (last_committed s) x" for x
    by (fact le xs(6))+
qed

section \<open>Steps of the protocol\<close>

text \<open>A machine is the protocol value with the state. What matters of the protocol value is its
  configuration: everything but the store and the metrics.\<close>

type_synonym machine = "bullshark \<times> consensus_state"

definition config :: "bullshark \<Rightarrow> bullshark" where
  "config b = b\<lparr>bs_store := store_new [] [], bs_max_inserted_certificate_round := 0\<rparr>"

text \<open>Among certificates with quorums of parents, the committed leader is the first of a chain that ends
  in a supported leader.\<close>

definition elected :: "choices \<Rightarrow> certificate set \<Rightarrow> machine \<Rightarrow> certificate list \<Rightarrow> bool" where
  "elected ch U = (\<lambda>(b, s) leaders. well_connected (bs_committee b) U \<longrightarrow>
     chain ch (bs_committee b) (bs_leader_schedule b) (state_dag s) (committed_round (last_round s)) leaders)"

definition machine_step :: "choices \<Rightarrow> certificate set \<Rightarrow> machine \<Rightarrow> committed_sub_dag \<Rightarrow> machine \<Rightarrow> bool" where
  "machine_step ch U = (\<lambda>(b, s) sd (b', s'). commit_step s sd s' \<and>
     (\<exists>leaders. elected ch U (b, s) (sd_leader sd # leaders)) \<and>
     resolve_reputation_score b (fold state_update (sd_certificates sd) s) (sd_certificates sd) (sd_sub_dag_index sd)
       = Some (sd_reputation_score sd) \<and>
     (\<exists>changed store. update_leader_schedule (c_round (sd_leader sd)) (sd_reputation_score sd) (b\<lparr>bs_store := store\<rparr>)
       = Some (changed, b')))"

lemma machine_stepD: "machine_step ch U (b, s) sd (b', s') \<Longrightarrow> commit_step s sd s'"
  by (simp add: machine_step_def)

inductive commits :: "choices \<Rightarrow> certificate set \<Rightarrow> machine \<Rightarrow> committed_sub_dag list \<Rightarrow> machine \<Rightarrow> bool" for ch U where
  commits_none: "commits ch U m [] m"
| commits_one: "machine_step ch U m sd m1 \<Longrightarrow> commits ch U m1 sds m2 \<Longrightarrow> commits ch U m (sd # sds) m2"

inductive_cases commits_NilE: "commits ch U m [] m'"
inductive_cases commits_ConsE: "commits ch U m (sd # sds) m'"

lemma commits_append:
  assumes "commits ch U m xs m1" "commits ch U m1 ys m2"
  shows "commits ch U m (xs @ ys) m2"
  using assms by (induction rule: commits.induct) (auto intro: commits_one)

lemma commits_Cons:
  assumes "commits ch U (b, s) (sd # sds) (b', s')"
  obtains b1 s1 where "machine_step ch U (b, s) sd (b1, s1)" "commit_step s sd s1" "commits ch U (b1, s1) sds (b', s')"
  using assms by (auto elim!: commits_ConsE dest: machine_stepD)

section \<open>Sequences of commits\<close>

text \<open>The certificates of the sub-dags, in order.\<close>

definition sequenced :: "committed_sub_dag list \<Rightarrow> certificate list" where
  "sequenced sds = concat (map sd_certificates sds)"

lemma sequenced_simps [simp]: "sequenced [] = []" "sequenced (sd # sds) = sd_certificates sd @ sequenced sds"
  "sequenced (xs @ ys) = sequenced xs @ sequenced ys"
  by (simp_all add: sequenced_def)

definition last_index :: "consensus_state \<Rightarrow> sequence_number" where
  "last_index s = (case last_committed_sub_dag s of None \<Rightarrow> 0 | Some sd \<Rightarrow> sd_sub_dag_index sd)"

definition last_timestamp :: "consensus_state \<Rightarrow> timestamp_ms" where
  "last_timestamp s = (case last_committed_sub_dag s of None \<Rightarrow> 0 | Some sd \<Rightarrow> sd_commit_timestamp sd)"

lemma commits_ok:
  assumes "commits ch U (b, s) sds (b', s')" "universe U" "state_ok U s"
  shows "state_ok U s'"
  using assms
proof (induction sds arbitrary: b s)
  case (Cons sd sds)
  from Cons(2) show ?case by (rule commits_Cons) (use Cons in \<open>auto dest: commit_step_spec(1)\<close>)
qed (auto elim: commits_NilE)

lemma commits_mono:
  assumes "commits ch U (b, s) sds (b', s')" "universe U" "state_ok U s"
  shows "committed_round (last_round s) \<le> committed_round (last_round s')"
  using assms
proof (induction sds arbitrary: b s)
  case (Cons sd sds)
  from Cons(2) obtain b1 s1 where step: "commit_step s sd s1" and rest: "commits ch U (b1, s1) sds (b', s')"
    by (rule commits_Cons)
  note spec = commit_step_spec [OF Cons(3,4) step]
  from step have "committed_round (last_round s) \<le> committed_round (last_round s1)"
    unfolding spec(2) by (simp add: commit_step_def)
  with Cons(1) [OF rest Cons(3) spec(1)] show ?case by simp
qed (auto elim: commits_NilE)

lemma commits_round:
  assumes "commits ch U (b, s) sds (b', s')" "universe U" "state_ok U s" "sds \<noteq> []"
  shows "committed_round (last_round s') = fold max (map c_round (sequenced sds)) 0 \<and>
    committed_round (last_round s') = sd_leader_round (last sds) \<and> committed_round (last_round s) < sd_leader_round (last sds)"
proof -
  from assms(4,1-3) have "committed_round (last_round s') = sd_leader_round (last sds) \<and>
    committed_round (last_round s) < sd_leader_round (last sds) \<and> sd_leader (last sds) \<in> set (sequenced sds) \<and>
    (\<forall>x \<in> set (sequenced sds). c_round x \<le> committed_round (last_round s'))"
  proof (induction sds arbitrary: b s)
    case (Cons sd sds)
    from Cons(3) obtain b1 s1 where step: "commit_step s sd s1" and rest: "commits ch U (b1, s1) sds (b', s')"
      by (rule commits_Cons)
    note spec = commit_step_spec [OF Cons(4,5) step]
    note mono = commits_mono [OF rest Cons(4) spec(1)]
    have up: "committed_round (last_round s) < c_round (sd_leader sd)" using step by (simp add: commit_step_def)
    show ?case
    proof (cases "sds = []")
      case True
      with rest have "s' = s1" by (auto elim: commits_NilE)
      with True spec(2,9,11) up show ?thesis by (auto simp: sd_leader_round_def)
    next
      case False
      have "\<forall>x \<in> set (sd_certificates sd). c_round x \<le> committed_round (last_round s')"
        using spec(2,11) mono by fastforce
      with Cons(1) [OF False rest Cons(4) spec(1)] False up spec(2) show ?thesis by auto
    qed
  qed simp
  then show ?thesis
    using fold_max_attained [of "committed_round (last_round s')" "map c_round (sequenced sds)" 0]
    by (force simp: sd_leader_round_def)
qed

section \<open>The handlers refine the abstract steps\<close>

lemma order_leaders_rounds:
  assumes "universe U" "state_ok U s" "order_leaders ch b leader s = Some out"
    "leader \<in> certs (state_dag s)" "committed_round (last_round s) < c_round leader"
  shows "order_leaders_loop ch (bs_leader_schedule b) (state_dag s)
      (leader_rounds (committed_round (last_round s)) (c_round leader)) leader [leader] = Some out" "even (c_round leader)"
proof -
  let ?m = "committed_round (last_round s)"
  show even: "even (c_round leader)"
    using assms(3) by (auto simp: order_leaders_def panic_unless_def bind_eq_Some_conv even_iff_mod_2_eq_zero split: if_splits)
  have "c_round leader + 2 < 2 ^ 64"
    using assms(1,2,4) by (auto simp: universe_def state_ok_def state_shape_def rounds_fit_def)
  moreover have "2 \<le> c_round leader" using even assms(5) by presburger
  ultimately have w: "u64_add ?m 2 = ?m + 2" "u64_sub (c_round leader) 2 = c_round leader - 2"
    using assms(5) by (auto simp: u64_add_fits u64_sub_fits)
  from assms(3) show "order_leaders_loop ch (bs_leader_schedule b) (state_dag s)
      (leader_rounds (committed_round (last_round s)) (c_round leader)) leader [leader] = Some out"
    unfolding order_leaders_def w leader_rounds_def by (auto simp: bind_eq_Some_conv Let_def)
qed

lemma order_leaders_spec:
  assumes "universe U" "state_ok U s" "order_leaders ch b leader s = Some out"
    "leader \<in> certs (state_dag s)" "committed_round (last_round s) < c_round leader"
  shows "leaders_ok (state_dag s) (committed_round (last_round s)) out \<and> out \<noteq> [] \<and> last out = leader"
proof -
  let ?m = "committed_round (last_round s)"
  note run = order_leaders_rounds [OF assms]
  have "\<forall>r \<in> set (leader_rounds ?m (c_round leader)). ?m < r \<and> r < c_round leader"
    using leader_rounds_above [of ?m ?m "c_round leader"] by blast
  moreover have "leaders_ok (state_dag s) ?m [leader]" "dag_ok (state_dag s)"
    using assms(2,4,5) run(2) by (auto simp: leaders_ok_def state_ok_def state_shape_def)
  ultimately show ?thesis using order_leaders_loop_spec [OF _ run(1) leader_rounds_props(2)] by fastforce
qed

lemma leaders_ok_step:
  assumes "universe U" "state_ok U s" "commit_step s sd s'"
    "leaders_ok (state_dag s) m (sd_leader sd # ls)"
  shows "leaders_ok (state_dag s') (c_round (sd_leader sd)) ls"
  using assms(4) commit_step_spec(6) [OF assms(1-3)] assms(2)
  by (auto simp: leaders_ok_def state_ok_def state_shape_def)

text \<open>The later leaders are elected in the new state when the schedule stays.\<close>

lemma elected_step:
  assumes U: "universe U" and ok: "state_ok U s" and step: "commit_step s sd s'"
    and el: "elected ch U (b, s) (sd_leader sd # ls)" "ls \<noteq> []" and b: "b' = b\<lparr>bs_store := store\<rparr>"
  shows "elected ch U (b', s') ls"
  unfolding elected_def prod.case
proof
  assume "well_connected (bs_committee b') U"
  then have wc: "well_connected (bs_committee b) U" using b by simp
  note spec = commit_step_spec [OF U ok step]
  have g: "gc_round (last_round s) = committed_round (last_round s) - gc_depth s"
    "gc_round (last_round s') = c_round (sd_leader sd) - gc_depth s" "committed_round (last_round s) \<le> c_round (sd_leader sd)"
    "even (committed_round (last_round s))"
    using ok spec(1-3) step by (auto simp: state_ok_def state_shape_def commit_step_def)
  have "chain ch (bs_committee b) (bs_leader_schedule b) (state_dag s) (committed_round (last_round s)) (sd_leader sd # ls)"
    using el(1) wc by (simp add: elected_def)
  from chain_tail [OF U wc state_ok_part_of [OF ok] state_ok_part_of [OF spec(1)] g(4) _ _ _ this el(2)] spec(2,16) g b
  show "chain ch (bs_committee b') (bs_leader_schedule b') (state_dag s') (committed_round (last_round s')) ls"
    by simp
qed

lemma update_leader_schedule_same:
  "update_leader_schedule r scores b = Some (False, b') \<Longrightarrow> b' = b"
  by (auto simp: update_leader_schedule_def bind_eq_Some_conv split: if_splits)

text \<open>A result that extends the sub-dags \<open>acc\<close> by commits from \<open>m\<close>.\<close>

definition extends ::
  "choices \<Rightarrow> certificate set \<Rightarrow> machine \<Rightarrow> committed_sub_dag list \<Rightarrow> commit_result \<Rightarrow> bool" where
  "extends ch U m acc = (\<lambda>(res, m'). state_ok U (snd m') \<and>
     (\<forall>out sds. res = Inr (out, sds) \<longrightarrow> (\<exists>new. sds = acc @ new \<and> commits ch U m new m')))"

lemma extends_trans:
  assumes "extends ch U m acc (Inr (out, sds), m1)" "extends ch U m1 sds result"
  shows "extends ch U m acc result"
  using assms unfolding extends_def by (fastforce intro: commits_append)

lemma extends_refl: "state_ok U s \<Longrightarrow> extends ch U (b, s) acc (Inr (out, acc), b, s)"
  by (auto simp: extends_def intro: commits_none)

text \<open>How many leaders a result commits.\<close>

definition stops_at :: "certificate list \<Rightarrow> committed_sub_dag list \<Rightarrow> consensus_error + outcome \<times> committed_sub_dag list \<Rightarrow> bool" where
  "stops_at ls acc res \<longleftrightarrow> (\<forall>out sds. res = Inr (out, sds) \<longrightarrow>
     (\<exists>new. sds = acc @ new \<and> map sd_leader new = take (length new) ls \<and> (new = [] \<longrightarrow> ls = []) \<and>
       (if length new < length ls then out = ScheduleChanged else out = Commit)))"

lemma stops_at_Cons:
  assumes "stops_at ls (acc @ [sd]) res" "sd_leader sd = leader"
  shows "stops_at (leader # ls) acc res"
  unfolding stops_at_def
proof (intro allI impI)
  fix out sds assume "res = Inr (out, sds)"
  with assms(1) obtain new where "sds = (acc @ [sd]) @ new" "map sd_leader new = take (length new) ls"
    "if length new < length ls then out = ScheduleChanged else out = Commit" unfolding stops_at_def by blast
  with assms(2) show "\<exists>new. sds = acc @ new \<and> map sd_leader new = take (length new) (leader # ls) \<and>
      (new = [] \<longrightarrow> leader # ls = []) \<and>
      (if length new < length (leader # ls) then out = ScheduleChanged else out = Commit)"
    by (intro exI [of _ "sd # new"]) simp
qed

text \<open>One iteration of the loop is an error of the store or a step.\<close>

lemma commit_leaders_loop_step:
  assumes U: "universe U" and ok: "state_ok U s" and ls: "leaders_ok (state_dag s) (committed_round (last_round s)) (leader # ls)"
    and el: "elected ch U (b, s) (leader # ls)"
    and run: "commit_leaders_loop db_ok (leader # ls) b s acc = Some (res, b', s')"
  obtains (error) "res = Inl ConsensusStoreError" "state_ok U s'"
  | (step) sd b2 s2 where "machine_step ch U (b, s) sd (b2, s2)" "sd_leader sd = leader"
      "ls \<noteq> []" "res = Inr (ScheduleChanged, acc @ [sd])" "b' = b2" "s' = s2"
  | (next_leader) sd b2 s2 where "machine_step ch U (b, s) sd (b2, s2)" "sd_leader sd = leader"
      "commit_leaders_loop db_ok ls b2 s2 (acc @ [sd]) = Some (res, b', s')" "ls \<noteq> [] \<longrightarrow> elected ch U (b2, s2) ls"
proof -
  from run obtain seq scores where seq: "order_dag leader s = Some seq"
    and scores: "resolve_reputation_score b (fold state_update seq s) seq (next_sub_dag_index s) = Some scores"
    by (auto simp: bind_eq_Some_conv Let_def)
  define s1 where "s1 = fold state_update seq s"
  define sd where "sd = sub_dag_new seq leader (next_sub_dag_index s) scores (last_committed_sub_dag s1)"
  have sd: "sd_leader sd = leader" "sd_certificates sd = seq" "sd_reputation_score sd = scores"
    "sd_sub_dag_index sd = next_sub_dag_index s" by (simp_all add: sd_def sub_dag_new_def Let_def)
  define s2 where "s2 = s1\<lparr>last_committed_sub_dag := Some sd\<rparr>"
  note run' = run [unfolded commit_leaders_loop.simps Let_def seq Option.bind.simps scores,
      folded s1_def, folded sd_def, folded s2_def]
  have step: "commit_step s sd s2"
    using ls seq unfolding commit_step_def s2_def s1_def sd_def sub_dag_new_def
    by (simp add: leaders_ok_def Let_def fold_update_simps)
  note ok2 = commit_step_spec(1) [OF U ok step]
  show thesis
  proof (cases "write_consensus_state db_ok (last_committed s1) sd (bs_store b)")
    case (Inl e)
    with run' scores have "res = Inl ConsensusStoreError" "s' = s1" by (auto simp: s1_def)
    with error ok2 show thesis by (simp add: s2_def)
  next
    case (Inr store)
    then obtain changed b2 where
      up: "update_leader_schedule (c_round leader) scores (b\<lparr>bs_store := store\<rparr>) = Some (changed, b2)"
      and nxt: "(if changed \<and> ls \<noteq> [] then Some (Inr (ScheduleChanged, acc @ [sd]), b2, s2)
         else commit_leaders_loop db_ok ls b2 s2 (acc @ [sd])) = Some (res, b', s')"
      using run' by (auto simp: bind_eq_Some_conv)
    have ms: "machine_step ch U (b, s) sd (b2, s2)"
      using step scores up el unfolding machine_step_def prod.case sd by blast
    have "elected ch U (b2, s2) ls" if "\<not> changed" "ls \<noteq> []"
    proof (rule elected_step [OF U ok step, unfolded sd, OF el that(2)])
      show "b2 = b\<lparr>bs_store := store\<rparr>" using up that(1) by (auto dest: update_leader_schedule_same)
    qed
    with nxt ms sd(1) that(2,3) show thesis by (cases "changed \<and> ls \<noteq> []") auto
  qed
qed

text \<open>The loop over the leaders commits a sequence of sub-dags; it stops before the last leader
  exactly when the schedule changes.\<close>

lemma commit_leaders_loop_refines:
  assumes "universe U" "state_ok U s" "leaders_ok (state_dag s) (committed_round (last_round s)) ls"
    "ls \<noteq> [] \<longrightarrow> elected ch U (b, s) ls" "commit_leaders_loop db_ok ls b s acc = Some (res, b', s')"
  shows "extends ch U (b, s) acc (res, b', s') \<and> stops_at ls acc res"
  using assms
proof (induction ls arbitrary: b s acc)
  case Nil
  then show ?case by (auto simp: stops_at_def intro: extends_refl)
next
  case (Cons leader ls)
  have one: "extends ch U (b, s) acc (Inr (out, acc @ [sd]), b2, s2)"
    if "machine_step ch U (b, s) sd (b2, s2)" for sd b2 s2 out
    using that commit_step_spec(1) [OF Cons(2,3) machine_stepD [OF that]]
    by (auto simp: extends_def intro!: commits.intros)
  show ?case
  proof (rule commit_leaders_loop_step [OF Cons(2,3,4) _ Cons(6)])
    show "elected ch U (b, s) (leader # ls)" using Cons(5) by simp
  next
    assume "res = Inl ConsensusStoreError" "state_ok U s'"
    then show ?thesis by (simp add: extends_def stops_at_def)
  next
    fix sd b2 s2 assume "machine_step ch U (b, s) sd (b2, s2)" "sd_leader sd = leader"
      "ls \<noteq> []" "res = Inr (ScheduleChanged, acc @ [sd])" "b' = b2" "s' = s2"
    with one show ?thesis by (auto simp: stops_at_def)
  next
    fix sd b2 s2 assume step: "machine_step ch U (b, s) sd (b2, s2)" "sd_leader sd = leader"
      and rest: "commit_leaders_loop db_ok ls b2 s2 (acc @ [sd]) = Some (res, b', s')" "ls \<noteq> [] \<longrightarrow> elected ch U (b2, s2) ls"
    note spec = commit_step_spec [OF Cons(2,3) machine_stepD [OF step(1)]]
    have "leaders_ok (state_dag s2) (committed_round (last_round s2)) ls"
      using leaders_ok_step [OF Cons(2,3) machine_stepD [OF step(1)], unfolded step(2), OF Cons(4)] spec(2) step(2) by simp
    from Cons(1) [OF Cons(2) spec(1) this rest(2,1)] have
      "extends ch U (b2, s2) (acc @ [sd]) (res, b', s')" "stops_at ls (acc @ [sd]) res" by auto
    with extends_trans [OF one [OF step(1)]] stops_at_Cons [OF _ step(2)] show ?thesis by blast
  qed
qed

end
