(* ===== verification/Bullshark_Safety.thy ===== *)
theory Bullshark_Safety
  imports Commit_Steps
begin

text \<open>
  Safety of \<^verbatim>\<open>bullshark.rs\<close>: every run of the event loop is a trace of an abstract machine that inserts
  certificates and commits leaders. From the traces: no certificate is sequenced twice, sub-dags are
  ordered by leader round and index, parents come before children, and the assertion of the event loop
  holds. The certificates come from a set without equivocation, which is what the quorums of
  \<^verbatim>\<open>Certificate::verify\<close> give.
\<close>

section \<open>Inserting a certificate\<close>

lemma check_parents_spec:
  assumes "dag_ok dag" "check_parents x dag g = Some ()" "g + 1 < c_round x" "c_round x < 2 ^ 64"
    "p \<in> set (c_parents x)"
  shows "\<exists>y \<in> certs dag. c_digest y = p \<and> c_round y + 1 = c_round x"
proof -
  have w: "u64_add g 1 = g + 1" "u64_sub (c_round x) 1 = c_round x - 1"
    using assms(3,4) by (auto simp: u64_add_fits u64_sub_fits)
  from assms(2,3) obtain t where t: "map_of dag (c_round x - 1) = Some t"
    and all: "\<forall>p \<in> set (c_parents x). p \<in> set (map (\<lambda>(_, (d, _)). d) t)"
    unfolding check_parents_def w by (auto simp: panic_unless_def list_all_iff split: option.splits if_splits)
  from all assms(5) obtain a y where y: "(a, (p, y)) \<in> set t" by force
  have "y \<in> certs dag" using y map_of_SomeD [OF t] by (auto simp: certs_def)
  moreover have "c_digest y = p" "c_round y = c_round x - 1"
    using dag_ok_row [OF assms(1) t] y by (auto simp: row_ok_def)
  ultimately show ?thesis using assms(3) by (intro bexI [of _ y]) auto
qed

lemma try_insert_in_dag_spec:
  assumes ok: "dag_ok dag" and g: "g < c_round x" and run: "try_insert_in_dag dag committed g x = Some (r, dag')"
  shows "dag_ok dag'" "check_parents x dag g = Some ()"
    "certs dag' = insert x {y \<in> certs dag. c_round y \<noteq> c_round x \<or> c_origin y \<noteq> c_origin x}"
    "r = (if \<exists>y \<in> certs dag. slot y = slot x \<and> c_digest y \<noteq> c_digest x
      then Inl (CertificateEquivocation x (THE y. y \<in> certs dag \<and> slot y = slot x))
      else Inr (\<not> already_committed committed x))"
proof -
  define table where "table = (case map_of dag (c_round x) of None \<Rightarrow> [] | Some t \<Rightarrow> t)"
  define fresh where "fresh \<longleftrightarrow> c_round x > (case map_of committed (c_origin x) of None \<Rightarrow> 0 | Some r \<Rightarrow> r)"
  have fresh: "fresh \<longleftrightarrow> \<not> already_committed committed x"
    using g by (auto simp: fresh_def already_committed_def split: option.splits)
  from run g have dag': "dag' = bt_insert (c_round x) (AList.update (c_origin x) (c_digest x, x) table) dag"
    and r: "r = (case map_of table (c_origin x) of
        Some (_, y) \<Rightarrow> if c_digest y \<noteq> c_digest x then Inl (CertificateEquivocation x y) else Inr fresh
      | None \<Rightarrow> Inr fresh)"
    and "check_parents x dag g = Some ()"
    unfolding try_insert_in_dag_def Let_def table_def [symmetric] fresh_def [symmetric]
    by (auto simp: bind_eq_Some_conv split: option.splits)
  then show "check_parents x dag g = Some ()" by simp
  show "dag_ok dag'" "certs dag' = insert x {y \<in> certs dag. c_round y \<noteq> c_round x \<or> c_origin y \<noteq> c_origin x}"
    unfolding dag' table_def using dag_insert [OF ok] by auto
  have look: "map_of table (c_origin x) = Some (c_digest y, y) \<longleftrightarrow> y \<in> certs dag" if "slot y = slot x" for y
    using that unfolding dag_ok_lookup [OF ok] by (auto simp: slot_def table_def split: option.splits)
  show "r = (if \<exists>y \<in> certs dag. slot y = slot x \<and> c_digest y \<noteq> c_digest x
      then Inl (CertificateEquivocation x (THE y. y \<in> certs dag \<and> slot y = slot x))
      else Inr (\<not> already_committed committed x))"
  proof (cases "\<exists>y \<in> certs dag. slot y = slot x")
    case True
    then obtain y where y: "y \<in> certs dag" "slot y = slot x" by blast
    then have "z = y" if "z \<in> certs dag" "slot z = slot x" for z
      using that slot_unique [OF ok] by (auto simp: slot_def)
    with y have the: "(THE y. y \<in> certs dag \<and> slot y = slot x) = y"
      and "(\<exists>y \<in> certs dag. slot y = slot x \<and> c_digest y \<noteq> c_digest x) \<longleftrightarrow> c_digest y \<noteq> c_digest x"
      by blast+
    with look [OF y(2)] y(1) r fresh show ?thesis by simp
  next
    case False
    have "map_of table (c_origin x) = None"
    proof (rule ccontr)
      assume "map_of table (c_origin x) \<noteq> None"
      then obtain t d y where t: "map_of dag (c_round x) = Some t" "map_of t (c_origin x) = Some (d, y)"
        by (auto simp: table_def split: option.splits)
      from row_ok_lookup(2) [OF dag_ok_row [OF ok t(1)] t(2)] t have "slot y = slot x" "y \<in> certs dag"
        unfolding dag_ok_lookup [OF ok] by (auto simp: slot_def)
      with False show False by blast
    qed
    with False r fresh show ?thesis by auto
  qed
qed

lemma try_insert_same:
  assumes "try_insert x s = Some (r, s1)"
  shows "last_committed s1 = last_committed s" "last_round s1 = last_round s" "gc_depth s1 = gc_depth s"
    "last_index s1 = last_index s" "last_timestamp s1 = last_timestamp s"
  using assms by (auto simp: try_insert_def bind_eq_Some_conv last_index_def last_timestamp_def)

lemma try_insert_spec:
  assumes U: "universe U" and ok: "state_ok U s" and x: "x \<in> U" and run: "try_insert x s = Some (r, s1)"
  shows "state_ok U s1" "s1 = s\<lparr>state_dag := state_dag s1\<rparr>"
    "certs (state_dag s1) = certs (state_dag s) \<union> (if gc_round (last_round s) < c_round x then {x} else {})"
    "r = Inr (gc_round (last_round s) < c_round x \<and> \<not> already_committed (last_committed s) x)"
proof -
  let ?g = "gc_round (last_round s)" and ?dag = "state_dag s"
  from run have s1: "s1 = s\<lparr>state_dag := state_dag s1\<rparr>"
    and ins: "try_insert_in_dag ?dag (last_committed s) ?g x = Some (r, state_dag s1)"
    by (auto simp: try_insert_def bind_eq_Some_conv)
  show "s1 = s\<lparr>state_dag := state_dag s1\<rparr>" by (fact s1)
  have dag: "dag_ok ?dag" "closed_above ?g ?dag" "certs ?dag \<subseteq> U" using ok by (auto simp: state_ok_def state_shape_def)
  have same: "y = x" if "y \<in> certs ?dag" "slot y = slot x" for y
    using inj_onD [OF universe_slot [OF U] that(2)] that(1) dag(3) x by auto
  have fit: "c_round x < 2 ^ 64" using U x by (auto simp: universe_def rounds_fit_def)
  show certs: "certs (state_dag s1) = certs ?dag \<union> (if ?g < c_round x then {x} else {})"
  proof (cases "?g < c_round x")
    case True
    with try_insert_in_dag_spec(3) [OF dag(1) True ins] same show ?thesis by (auto simp: slot_def)
  qed (use ins in \<open>simp add: try_insert_in_dag_def\<close>)
  show "r = Inr (?g < c_round x \<and> \<not> already_committed (last_committed s) x)"
  proof (cases "?g < c_round x")
    case True
    with try_insert_in_dag_spec(4) [OF dag(1) True ins] same show ?thesis by auto
  qed (use ins in \<open>simp add: try_insert_in_dag_def\<close>)
  show "state_ok U s1"
  proof (cases "?g < c_round x")
    case True
    have "closed_above ?g (state_dag s1)"
      unfolding closed_above_def
    proof (intro ballI impI)
      fix y p assume y: "y \<in> certs (state_dag s1)" "?g + 1 < c_round y" "p \<in> set (c_parents y)"
      have "\<exists>z \<in> certs ?dag. c_digest z = p \<and> c_round z + 1 = c_round y"
      proof (cases "y = x")
        case True
        with check_parents_spec [OF dag(1) try_insert_in_dag_spec(2) [OF dag(1) \<open>?g < c_round x\<close> ins]] y fit
        show ?thesis by simp
      next
        case False
        with y certs have "y \<in> certs ?dag" by (auto split: if_splits)
        from closed_aboveD [OF dag(2) this y(2,3)] show ?thesis by metis
      qed
      then show "\<exists>z \<in> certs (state_dag s1). c_digest z = p \<and> c_round z + 1 = c_round y"
        using certs by auto
    qed
    moreover have "dag_ok (state_dag s1)" by (rule try_insert_in_dag_spec(1) [OF dag(1) True ins])
    ultimately show ?thesis using ok certs True x by (subst s1) (auto simp: state_ok_def state_shape_def)
  next
    case False
    with ins have "state_dag s1 = state_dag s" by (simp add: try_insert_in_dag_def)
    with s1 have "s1 = s" by simp
    with ok show ?thesis by simp
  qed
qed

section \<open>Processing a certificate\<close>

text \<open>A supported leader that is found is elected with the leaders before it.\<close>

lemma commit_leader_cases:
  assumes U: "universe U" and ok: "state_ok U s" and r: "committed_round (last_round s) < r" "r + 1 < 2 ^ 64"
    and run: "commit_leader ch db_ok r b s = Some (res, b', s')"
  obtains (none) out where "res = Inr (out, [])" "out \<noteq> ScheduleChanged" "b' = b" "s' = s"
  | (leaders) leader ls where "leader \<in> certs (state_dag s)" "c_round leader = r" "ls \<noteq> []" "last ls = leader"
      "leaders_ok (state_dag s) (committed_round (last_round s)) ls" "elected ch U (b, s) ls"
      "commit_leaders_loop db_ok ls b s [] = Some (res, b', s')"
proof -
  from run obtain a found where lc: "leader_certificate ch (bs_leader_schedule b) r (state_dag s) = Some (a, found)"
    by (auto simp: commit_leader_def bind_eq_Some_conv)
  consider "res = Inr (LeaderNotFound, [])" "b' = b" "s' = s" | "res = Inr (NotEnoughSupportForLeader, [])" "b' = b" "s' = s"
    | leader table ls where "found = Some leader" "map_of (state_dag s) (r + 1) = Some table"
        "nc_validity_threshold (bs_committee b) \<le> leader_support (bs_committee b) table leader"
        "order_leaders ch b leader s = Some ls" "commit_leaders_loop db_ok ls b s [] = Some (res, b', s')"
    using run lc r(2) by (auto simp: commit_leader_def bind_eq_Some_conv u64_add_fits split: option.splits if_splits)
  then show thesis
  proof cases
    case 3
    have leader: "leader \<in> certs (state_dag s)" "c_round leader = r"
      using leader_certificate_spec [of "state_dag s"] lc 3(1) ok by (auto simp: state_ok_def state_shape_def)
    then have up: "committed_round (last_round s) < c_round leader" using r(1) by simp
    have "elected ch U (b, s) ls"
      using order_leaders_rounds(1) [OF U ok 3(4) leader(1) up] lc 3(1-3) r(1) leader(2)
      unfolding elected_def chain_def by auto
    with leader order_leaders_spec [OF U ok 3(4) leader(1) up] 3(5) leaders show thesis by blast
  qed (use none in auto)
qed

lemma commit_leader_refines:
  assumes U: "universe U" and ok: "state_ok U s" and r: "committed_round (last_round s) < r" "r + 1 < 2 ^ 64"
    and run: "commit_leader ch db_ok r b s = Some (res, b', s')"
  shows "extends ch U (b, s) [] (res, b', s')"
    "res = Inr (ScheduleChanged, sds) \<Longrightarrow>
       committed_round (last_round s) < committed_round (last_round s') \<and> committed_round (last_round s') < r"
proof -
  have "extends ch U (b, s) [] (res, b', s') \<and> (\<forall>sds. res = Inr (ScheduleChanged, sds) \<longrightarrow>
       committed_round (last_round s) < committed_round (last_round s') \<and> committed_round (last_round s') < r)"
  proof (rule commit_leader_cases [OF assms])
    fix leader ls assume leader: "c_round leader = r" and ls: "ls \<noteq> []" "last ls = leader"
      "leaders_ok (state_dag s) (committed_round (last_round s)) ls" "elected ch U (b, s) ls"
      and loop: "commit_leaders_loop db_ok ls b s [] = Some (res, b', s')"
    note ref = commit_leaders_loop_refines [OF U ok ls(3) _ loop, of ch] 
    have "committed_round (last_round s) < committed_round (last_round s') \<and> committed_round (last_round s') < r"
      if res: "res = Inr (ScheduleChanged, sds)" for sds
    proof -
      from ref res ls(4) have new: "commits ch U (b, s) sds (b', s')" "map sd_leader sds = take (length sds) ls"
        "sds \<noteq> []" "length sds < length ls" using ls(1) by (auto simp: extends_def stops_at_def split: if_splits)
      note last = commits_round [OF new(1) U ok new(3)]
      from new(3) have "sd_leader (last sds) = map sd_leader sds ! (length sds - 1)" by (simp add: last_conv_nth)
      also have "\<dots> = ls ! (length sds - 1)" unfolding new(2) using new(3) by simp
      finally have "sd_leader_round (last sds) = c_round (ls ! (length sds - 1))" by (simp add: sd_leader_round_def)
      moreover have "c_round (ls ! (length sds - 1)) < c_round (ls ! (length ls - 1))"
        using ls(3) new(3,4) unfolding leaders_ok_def sorted_wrt_iff_nth_less by (cases sds) auto
      moreover have "ls ! (length ls - 1) = leader" using ls(1,2) by (simp add: last_conv_nth)
      ultimately show ?thesis using last leader by simp
    qed
    with ref ls(4) show ?thesis by blast
  qed (use ok in \<open>auto intro: extends_refl\<close>)
  then show "extends ch U (b, s) [] (res, b', s')" "res = Inr (ScheduleChanged, sds) \<Longrightarrow>
       committed_round (last_round s) < committed_round (last_round s') \<and> committed_round (last_round s') < r"
    by auto
qed

lemma commit_retry_refines:
  assumes "universe U" "state_ok U s" "committed_round (last_round s) < r"
    "r + 1 < 2 ^ 64" "commit_retry fuel ch db_ok r b s acc = Some result"
  shows "extends ch U (b, s) acc result"
  using assms
proof (induction fuel arbitrary: b s acc)
  case (Suc fuel)
  from Suc(6) obtain res b1 s1 where one: "commit_leader ch db_ok r b s = Some (res, b1, s1)"
    by (auto simp: bind_eq_Some_conv)
  note spec = commit_leader_refines [OF Suc(2-5) one]
  show ?case
  proof (cases res)
    case (Inl e)
    with Suc(6) one spec(1) show ?thesis by (auto simp: extends_def)
  next
    case (Inr p)
    obtain out sds where p: "p = (out, sds)" by (cases p)
    have ext: "extends ch U (b, s) acc (Inr (out', acc @ sds), b1, s1)" for out'
      using spec(1) Inr p by (auto simp: extends_def)
    show ?thesis
    proof (cases "out = ScheduleChanged")
      case True
      with Suc(6) one Inr p have "commit_retry fuel ch db_ok r b1 s1 (acc @ sds) = Some result" by simp
      moreover have "state_ok U s1" "committed_round (last_round s1) < r"
        using spec Inr p True by (auto simp: extends_def)
      ultimately have "extends ch U (b1, s1) (acc @ sds) result" using Suc(1,2,5) by blast
      from extends_trans [OF ext this] show ?thesis .
    next
      case False
      with Suc(6) one Inr p have "result = (Inr (out, acc @ sds), b1, s1)" by simp
      with ext show ?thesis by simp
    qed
  qed
qed simp

text \<open>Running out of fuel: more fuel than rounds between the last commit and the leader never changes
  the result.\<close>

lemma commit_retry_fuel:
  assumes "universe U" "state_ok U s" "committed_round (last_round s) < r"
    "r + 1 < 2 ^ 64" "r - committed_round (last_round s) \<le> fuel"
  shows "commit_retry (fuel + k) ch db_ok r b s acc = commit_retry fuel ch db_ok r b s acc"
  using assms
proof (induction fuel arbitrary: b s acc)
  case (Suc fuel)
  show ?case
  proof (cases "commit_leader ch db_ok r b s")
    case (Some t)
    obtain res b1 s1 where t: "t = (res, b1, s1)" by (cases t)
    note spec = commit_leader_refines [OF Suc(2-5) Some [unfolded t]]
    have "commit_retry (fuel + k) ch db_ok r b1 s1 acc' = commit_retry fuel ch db_ok r b1 s1 acc'"
      if "res = Inr (ScheduleChanged, sds)" for sds acc'
      using Suc(1) [OF Suc(2), of s1] spec(2) [OF that] spec(1) Suc(5,6) by (auto simp: extends_def)
    with Some t show ?thesis by (auto split: sum.splits)
  qed simp
qed simp

text \<open>What processing a certificate does: insert it, then commit.\<close>

lemma process_certificate_refines:
  assumes U: "universe U" and ok: "state_ok U s" and x: "x \<in> U"
    and run: "process_certificate ch db_ok x b s = Some (res, b', s')"
  obtains s1 r b1 where "try_insert x s = Some (r, s1)" "config b1 = config b" "extends ch U (b1, s1) [] (res, b', s')"
proof -
  from run obtain r s1 where ins: "try_insert x s = Some (r, s1)"
    by (auto simp: process_certificate_def bind_eq_Some_conv)
  note spec = try_insert_spec [OF U ok x ins]
  have none: "extends ch U (b1, s1) [] (Inr (out, []), b1, s1)" for out b1
    using spec(1) by (rule extends_refl)
  have "\<exists>b1. config b1 = config b \<and> extends ch U (b1, s1) [] (res, b', s')"
  proof (cases "r = Inr True")
    case True
    let ?r = "u64_sub (c_round x) 1"
    have "0 < c_round x" "c_round x + 2 < 2 ^ 64" using spec(4) True U x by (auto simp: universe_def rounds_fit_def)
    then have fit: "?r + 1 < 2 ^ 64" by (simp add: u64_sub_fits)
    from run ins True obtain b1 where report: "report_leader_on_time_metrics ch (c_round x) b = Some b1"
      by (auto simp: process_certificate_def bind_eq_Some_conv)
    then have b1: "config b1 = config b"
      by (auto simp: report_leader_on_time_metrics_def bind_eq_Some_conv config_def)
    consider "res = Inr (NoLeaderElectedForOddRound, [])" "b' = b1" "s' = s1" | "res = Inr (LeaderBelowCommitRound, [])" "b' = b1" "s' = s1"
      | res' where "committed_round (last_round s1) < ?r" "commit_retry (Suc ?r) ch db_ok ?r b1 s1 [] = Some (res', b', s')"
        "res = (case res' of Inl e \<Rightarrow> Inl e | Inr (outcome, sub_dags) \<Rightarrow>
           Inr (if sub_dags = [] then (outcome, sub_dags) else (Commit, sub_dags)))"
      using run ins True report
      by (fastforce simp: process_certificate_def bind_eq_Some_conv Let_def split: if_splits)
    then show ?thesis
    proof cases
      case 3
      from commit_retry_refines [OF U spec(1) 3(1) _ 3(2)] fit 3(3) b1 show ?thesis
        by (auto simp: extends_def split: sum.splits if_splits)
    qed (use none b1 in auto)
  next
    case False
    with spec(4) have "r = Inr False" by auto
    with run ins none show ?thesis by (auto simp: process_certificate_def)
  qed
  with ins that show thesis by blast
qed

section \<open>Traces\<close>

text \<open>The abstract state machine: certificates of \<open>U\<close> are inserted and leaders committed, in any order.
  The list holds the sub-dags in the order of their commits.\<close>

inductive trace ::
  "choices \<Rightarrow> certificate set \<Rightarrow> machine \<Rightarrow> committed_sub_dag list \<Rightarrow> machine \<Rightarrow> bool" for ch U m where
  trace_start: "trace ch U m [] m"
| trace_insert: "trace ch U m sds (b1, s1) \<Longrightarrow> x \<in> U \<Longrightarrow> try_insert x s1 = Some (r, s2) \<Longrightarrow> config b2 = config b1 \<Longrightarrow>
    trace ch U m sds (b2, s2)"
| trace_commit: "trace ch U m sds (b1, s1) \<Longrightarrow> machine_step ch U (b1, s1) sd (b2, s2) \<Longrightarrow> trace ch U m (sds @ [sd]) (b2, s2)"

text \<open>The state of a trace, without the protocol value.\<close>

inductive strace ::
  "certificate set \<Rightarrow> consensus_state \<Rightarrow> committed_sub_dag list \<Rightarrow> consensus_state \<Rightarrow> bool" for U s where
  strace_start: "strace U s [] s"
| strace_insert: "strace U s sds s1 \<Longrightarrow> x \<in> U \<Longrightarrow> try_insert x s1 = Some (r, s2) \<Longrightarrow> strace U s sds s2"
| strace_commit: "strace U s sds s1 \<Longrightarrow> commit_step s1 sd s2 \<Longrightarrow> strace U s (sds @ [sd]) s2"

lemma trace_strace:
  assumes "trace ch U m sds m'"
  shows "strace U (snd m) sds (snd m')"
  using assms by (induction rule: trace.induct) (auto intro: strace.intros dest: machine_stepD)

lemma strace_ok:
  assumes "strace U s sds s'" "universe U" "state_ok U s"
  shows "state_ok U s'"
  using assms by (induction rule: strace.induct) (auto dest: commit_step_spec(1) try_insert_spec(1))

lemma strace_depth: "strace U s sds s' \<Longrightarrow> gc_depth s' = gc_depth s"
  by (induction rule: strace.induct) (auto simp: try_insert_same commit_step_def fold_update_simps)

text \<open>What a strace leaves in the state: the last committed round of every author, of everybody, and the
  last index and timestamp.\<close>

lemma strace_already_committed:
  assumes "strace U s sds s'" "universe U" "state_ok U s"
  shows "already_committed (last_committed s') y \<longleftrightarrow> already_committed (last_committed s) y \<or>
    (\<exists>x \<in> set (sequenced sds). c_origin y = c_origin x \<and> c_round y \<le> c_round x)"
  using assms
proof (induction rule: strace.induct)
  case (strace_insert sds s1 x r s2)
  then show ?case by (simp add: try_insert_same [OF strace_insert(3)])
next
  case (strace_commit sds s1 sd s2)
  then show ?case by (auto simp: commit_step_def fold_already_committed)
qed simp

lemma strace_once:
  assumes "strace U s sds s'" "universe U" "state_ok U s"
  shows "distinct (map slot (sequenced sds)) \<and> (\<forall>x \<in> set (sequenced sds). x \<in> U \<and> \<not> already_committed (last_committed s) x)"
  using assms
proof (induction rule: strace.induct)
  case (strace_commit sds s1 sd s2)
  note ok = strace_ok [OF strace_commit(1,4,5)]
  note spec = commit_step_spec [OF strace_commit(4) ok strace_commit(2)]
  note ac = strace_already_committed [OF strace_commit(1,4,5)]
  have "slot x \<noteq> slot y" if "x \<in> set (sequenced sds)" "y \<in> set (sd_certificates sd)" for x y
    using spec(12) [OF that(2)] that(1) unfolding ac by (auto simp: slot_def)
  then have "slot ` set (sequenced sds) \<inter> slot ` set (sd_certificates sd) = {}" by blast
  moreover have "x \<in> U \<and> \<not> already_committed (last_committed s) x" if "x \<in> set (sd_certificates sd)" for x
    using spec(10) spec(12) [OF that] that ok unfolding ac by (auto simp: state_ok_def state_shape_def)
  ultimately show ?case using strace_commit(3) [OF strace_commit(4,5)] spec(7) by auto
qed simp_all

lemma strace_order:
  assumes "strace U s sds s'" "universe U" "state_ok U s"
  shows "sorted_wrt (\<lambda>a b. sd_leader_round a < sd_leader_round b \<and> sd_commit_timestamp a \<le> sd_commit_timestamp b) sds \<and>
    (\<forall>sd \<in> set sds. committed_round (last_round s) < sd_leader_round sd \<and> sd_leader_round sd \<le> committed_round (last_round s') \<and>
       last_timestamp s \<le> sd_commit_timestamp sd \<and> sd_commit_timestamp sd \<le> last_timestamp s') \<and>
    committed_round (last_round s) \<le> committed_round (last_round s') \<and> last_timestamp s \<le> last_timestamp s'"
  using assms
proof (induction rule: strace.induct)
  case (strace_insert sds s1 x r s2)
  then show ?case by (simp add: try_insert_same [OF strace_insert(3)])
next
  case (strace_commit sds s1 sd s2)
  note spec = commit_step_spec [OF strace_commit(4) strace_ok [OF strace_commit(1,4,5)] strace_commit(2)]
  have "committed_round (last_round s1) < sd_leader_round sd" "last_timestamp s1 \<le> sd_commit_timestamp sd"
    using strace_commit(2) by (auto simp: commit_step_def sd_leader_round_def last_timestamp_def)
  moreover have "committed_round (last_round s2) = sd_leader_round sd" "last_timestamp s2 = sd_commit_timestamp sd"
    using spec(2,4) by (auto simp: sd_leader_round_def last_timestamp_def)
  ultimately show ?case using strace_commit(3) [OF strace_commit(4,5)]
    by (fastforce simp: sorted_wrt_append)
qed simp

lemma strace_index:
  assumes "strace U s sds s'" "universe U" "state_ok U s" "last_index s + length sds < 2 ^ 64"
  shows "map sd_sub_dag_index sds = [last_index s + 1..<last_index s + 1 + length sds] \<and>
    last_index s' = last_index s + length sds"
  using assms
proof (induction rule: strace.induct)
  case (strace_insert sds s1 x r s2)
  then show ?case by (simp add: try_insert_same [OF strace_insert(3)])
next
  case (strace_commit sds s1 sd s2)
  then have IH: "map sd_sub_dag_index sds = [last_index s + 1..<last_index s + 1 + length sds]"
    "last_index s1 = last_index s + length sds" by auto
  have "sd_sub_dag_index sd = last_index s1 + 1" "last_index s2 = sd_sub_dag_index sd"
    using strace_commit(2,6) IH(2)
    by (auto simp: commit_step_def next_sub_dag_index_def last_index_def u64_add_fits)
  with IH show ?case by simp
qed simp

text \<open>Causal order: a parent above the garbage collection round of the commit comes earlier, or its
  author had a later certificate sequenced by an earlier commit.\<close>

lemma strace_causal:
  assumes "strace U s sds s'" "universe U" "state_ok U s" "sds = pre @ sd # post"
    "x \<in> set (sd_certificates sd)" "p \<in> set (c_parents x)" "sd_leader_round sd - gc_depth s + 1 < c_round x"
  shows "\<exists>y \<in> U. c_digest y = p \<and> c_round y + 1 = c_round x \<and>
    (y \<in> set (sd_certificates sd) \<or> already_committed (last_committed s) y \<or>
     (\<exists>z \<in> set (sequenced pre). c_origin y = c_origin z \<and> c_round y \<le> c_round z))"
  using assms
proof (induction arbitrary: post rule: strace.induct)
  case (strace_commit sds s1 sd' s2)
  note ok = strace_ok [OF strace_commit(1,4,5)]
  note spec = commit_step_spec [OF strace_commit(4) ok strace_commit(2)]
  note ac = strace_already_committed [OF strace_commit(1,4,5)]
  show ?case
  proof (cases post rule: rev_cases)
    case Nil
    with strace_commit(6) have eq: "sd' = sd" "pre = sds" by auto
    note depth = strace_depth [OF strace_commit(1)]
    have "covers (state_dag s1) (last_committed s1) (set (sd_certificates sd)) x (c_parents x)"
      using spec(15) strace_commit(7,9) unfolding eq depth by (auto simp: history_closed_def sd_leader_round_def)
    with strace_commit(8) obtain y where "y \<in> certs (state_dag s1)" "c_digest y = p" "c_round y + 1 = c_round x"
      "y \<in> set (sd_certificates sd) \<or> already_committed (last_committed s1) y"
      by (auto simp: covers_def)
    with ok show ?thesis unfolding ac eq by (intro bexI [of _ y]) (auto simp: state_ok_def state_shape_def)
  next
    case (snoc post' last)
    with strace_commit(6) have "sds = pre @ sd # post'" by simp
    from strace_commit(3) [OF strace_commit(4,5) this strace_commit(7-9)] show ?thesis .
  qed
qed auto

section \<open>The event loop\<close>

lemma trace_commits:
  assumes "commits ch U m1 new m2" "trace ch U m sds m1"
  shows "trace ch U m (sds @ new) m2"
  using assms
proof (induction arbitrary: sds rule: commits.induct)
  case (commits_one m1 sd m2 new m3)
  obtain b1 s1 b2 s2 where m: "m1 = (b1, s1)" "m2 = (b2, s2)" by (cases m1, cases m2)
  from commits_one(3) [unfolded m, OF trace_commit [OF commits_one(4,1) [unfolded m]]] show ?case by simp
qed simp

lemma run_step_refines:
  assumes U: "universe U" and ok: "state_ok U s" and x: "x \<in> U"
    and run: "run_step ch db_ok x b s = Some (res, b', s')"
  shows "state_ok U s' \<and> (\<forall>sds msg. res = Inr (sds, msg) \<longrightarrow> trace ch U (b, s) sds (b', s'))"
proof (cases "c_epoch x = nc_epoch (bs_committee b)")
  case True
  with run obtain r where p: "process_certificate ch db_ok x b s = Some (r, b', s')"
    and res: "case r of Inl e \<Rightarrow> res = Inl e | Inr (out, sds) \<Rightarrow> \<exists>msg. res = Inr (sds, msg)"
    by (fastforce simp: run_step_def bind_eq_Some_conv Let_def split: sum.splits if_splits prod.splits)
  obtain ins s1 b1 where ins: "try_insert x s = Some (ins, s1)" "config b1 = config b"
    and ext: "extends ch U (b1, s1) [] (r, b', s')"
    by (rule process_certificate_refines [OF U ok x p])
  note start = trace_insert [OF trace_start x ins]
  have "trace ch U (b, s) sds (b', s')" if "res = Inr (sds, msg)" for sds msg
  proof -
    from that res obtain out where "r = Inr (out, sds)" by (auto split: sum.splits)
    with ext have "commits ch U (b1, s1) sds (b', s')" by (auto simp: extends_def)
    from trace_commits [OF this start] show ?thesis by simp
  qed
  with ext show ?thesis by (auto simp: extends_def)
next
  case False
  with run have "res = Inr ([], None)" "b' = b" "s' = s" by (auto simp: run_step_def)
  with ok show ?thesis by (auto intro: trace_start)
qed

lemma trace_trans:
  assumes "trace ch U m2 ys m3" "trace ch U m1 xs m2"
  shows "trace ch U m1 (xs @ ys) m3"
  using assms
proof (induction rule: trace.induct)
  case (trace_commit sds b s sd b' s')
  from trace.trace_commit [OF trace_commit(3) [OF trace_commit(4)] trace_commit(2)] show ?case by simp
qed (auto intro: trace_insert)

lemma run_inner_refines:
  assumes "universe U" "state_ok U s" "set xs \<subseteq> U" "run_inner ch db_ok xs b s = Some (e, sds, b', s')"
  shows "\<exists>m. trace ch U (b, s) sds m \<and> (e = None \<longrightarrow> m = (b', s') \<and> state_ok U s')"
  using assms
proof (induction xs arbitrary: b s sds)
  case Nil
  then show ?case by (auto intro: trace_start)
next
  case (Cons x xs)
  from Cons(5) obtain r b1 s1 where step: "run_step ch db_ok x b s = Some (r, b1, s1)"
    by (auto simp: bind_eq_Some_conv)
  from Cons(4) have x: "x \<in> U" "set xs \<subseteq> U" by auto
  note one = run_step_refines [OF Cons(2,3) x(1) step]
  show ?case
  proof (cases r)
    case (Inl err)
    with Cons(5) step show ?thesis by (auto intro: trace_start)
  next
    case (Inr p)
    obtain out msg where p: "p = (out, msg)" by (cases p)
    with Cons(5) step Inr obtain rest where rest: "run_inner ch db_ok xs b1 s1 = Some (e, rest, b', s')" "sds = out @ rest"
      by (auto simp: bind_eq_Some_conv)
    from Cons(1) [OF Cons(2) _ x(2) rest(1)] one obtain m where
      "trace ch U (b1, s1) rest m" "e = None \<longrightarrow> m = (b', s') \<and> state_ok U s'" by auto
    with trace_trans one Inr p rest(2) show ?thesis by blast
  qed
qed

end
