(* ===== verification/Bullshark_Agreement.thy ===== *)
theory Bullshark_Agreement
  imports Bullshark_Safety "HOL-Library.Sublist"
begin

text \<open>
  Agreement of \<^verbatim>\<open>bullshark.rs\<close>: two machines that start alike and take certificates of the same set, in
  any order, commit the same sequence of sub-dags as far as both go. A commit is a function of what the
  machine has committed so far, whatever else its dag holds.
\<close>

section \<open>What a machine has committed\<close>

text \<open>Everything but the dag, the store and the metrics.\<close>

definition committed_part :: "machine \<Rightarrow> bullshark \<times> consensus_state" where
  "committed_part = (\<lambda>(b, s). (config b, s\<lparr>state_dag := []\<rparr>))"

lemma config_eqD:
  assumes "config b1 = config b2"
  shows "bs_committee b1 = bs_committee b2" "bs_bad_nodes_stake_threshold b1 = bs_bad_nodes_stake_threshold b2"
    "bs_num_sub_dags_per_schedule b1 = bs_num_sub_dags_per_schedule b2" "bs_leader_schedule b1 = bs_leader_schedule b2"
  using assms by (cases b1; cases b2; simp add: config_def)+

lemma committed_part_eqD:
  assumes "committed_part (b1, s1) = committed_part (b2, s2)"
  shows "config b1 = config b2" "last_round s1 = last_round s2" "last_committed s1 = last_committed s2"
    "last_committed_sub_dag s1 = last_committed_sub_dag s2" "gc_depth s1 = gc_depth s2"
  using assms by (cases s1; cases s2; simp add: committed_part_def)+

lemma state_update_dag:
  "(state_update x s)\<lparr>state_dag := []\<rparr> = (state_update x (s\<lparr>state_dag := []\<rparr>))\<lparr>state_dag := []\<rparr>"
  by (simp add: state_update_def Let_def)

lemma fold_update_dag:
  "s1\<lparr>state_dag := []\<rparr> = s2\<lparr>state_dag := []\<rparr> \<Longrightarrow>
   (fold state_update xs s1)\<lparr>state_dag := []\<rparr> = (fold state_update xs s2)\<lparr>state_dag := []\<rparr>"
proof (induction xs arbitrary: s1 s2)
  case (Cons x xs)
  have "(state_update x s1)\<lparr>state_dag := []\<rparr> = (state_update x s2)\<lparr>state_dag := []\<rparr>"
    using state_update_dag [of x s1] state_update_dag [of x s2] Cons(2) by simp
  from Cons(1) [OF this] show ?case by simp
qed simp

lemma erase_dag_sub_dag:
  "(s\<lparr>last_committed_sub_dag := x\<rparr>)\<lparr>state_dag := []\<rparr> = (s\<lparr>state_dag := []\<rparr>)\<lparr>last_committed_sub_dag := x\<rparr>"
  by simp

lemma resolve_reputation_score_agree:
  assumes "config b1 = config b2" "last_committed_sub_dag s1 = last_committed_sub_dag s2"
  shows "resolve_reputation_score b1 s1 xs i = resolve_reputation_score b2 s2 xs i"
  unfolding resolve_reputation_score_def assms(2) config_eqD [OF assms(1)] ..

lemma update_leader_schedule_agree:
  assumes "config b1 = config b2" "update_leader_schedule r scores (b1\<lparr>bs_store := t1\<rparr>) = Some (c1, b1')"
    "update_leader_schedule r scores (b2\<lparr>bs_store := t2\<rparr>) = Some (c2, b2')"
  shows "config b1' = config b2'"
proof (cases "final_of_schedule scores")
  case True
  with assms(2,3) config_eqD [OF assms(1)] obtain table where
    "b1' = b1\<lparr>bs_store := t1, bs_leader_schedule := update_leader_swap_table table (bs_leader_schedule b1)\<rparr>"
    "b2' = b2\<lparr>bs_store := t2, bs_leader_schedule := update_leader_swap_table table (bs_leader_schedule b1)\<rparr>"
    by (auto simp: update_leader_schedule_def bind_eq_Some_conv)
  with assms(1) show ?thesis by (cases b1; cases b2; simp add: config_def)
next
  case False
  with assms show ?thesis by (auto simp: update_leader_schedule_def config_def)
qed

text \<open>Two steps from machines that have committed the same.\<close>

lemma machine_step_leader:
  assumes U: "universe U" "well_connected (bs_committee b1) U" and ok: "state_ok U s1" "state_ok U s2"
    and same: "committed_part (b1, s1) = committed_part (b2, s2)"
    and step: "machine_step ch U (b1, s1) sd1 m1" "machine_step ch U (b2, s2) sd2 m2"
  shows "sd_leader sd1 = sd_leader sd2"
proof -
  note eq = committed_part_eqD [OF same] and b = config_eqD [OF committed_part_eqD(1) [OF same]]
  have m: "even (committed_round (last_round s1))" "gc_round (last_round s1) \<le> committed_round (last_round s1)"
    using ok(1) by (auto simp: state_ok_def state_shape_def)
  from step U(2) eq b obtain L1 L2 where
    L: "chain ch (bs_committee b1) (bs_leader_schedule b1) (state_dag s1) (committed_round (last_round s1)) (sd_leader sd1 # L1)"
    "chain ch (bs_committee b1) (bs_leader_schedule b1) (state_dag s2) (committed_round (last_round s1)) (sd_leader sd2 # L2)"
    unfolding machine_step_def elected_def by (cases m1; cases m2) auto
  have "part_of U (gc_round (last_round s1)) (state_dag s2)" using state_ok_part_of [OF ok(2)] eq(2) by simp
  from chain_head_agree [OF U state_ok_part_of [OF ok(1)] this m L] show ?thesis by simp
qed

lemma machine_step_agree:
  assumes U: "universe U" "well_connected (bs_committee b1) U" and ok: "state_ok U s1" "state_ok U s2"
    and same: "committed_part (b1, s1) = committed_part (b2, s2)"
    and step: "machine_step ch U (b1, s1) sd1 (b1', s1')" "machine_step ch U (b2, s2) sd2 (b2', s2')"
  shows "sd1 = sd2" "committed_part (b1', s1') = committed_part (b2', s2')"
proof -
  note eq = committed_part_eqD [OF same]
  note c = machine_stepD [OF step(1)] machine_stepD [OF step(2)]
  have leader: "sd_leader sd1 = sd_leader sd2" by (rule machine_step_leader [OF U ok same step])
  have "part_of U (gc_round (last_round s1)) (state_dag s2)" using state_ok_part_of [OF ok(2)] eq(2) by simp
  moreover have "0 < gc_depth s1" "gc_round (last_round s1) \<le> c_round (sd_leader sd1) - gc_depth s1" "0 < c_round (sd_leader sd1)"
    "sd_leader sd1 \<in> certs (state_dag s1)" "sd_leader sd1 \<in> certs (state_dag s2)"
    using ok(1) c leader by (auto simp: state_ok_def state_shape_def commit_step_def)
  ultimately have "order_dag (sd_leader sd1) s1 = order_dag (sd_leader sd1) s2"
    using order_dag_agree [OF U(1) state_ok_part_of [OF ok(1)] _ eq(3,5)] by simp
  with c leader have certs: "sd_certificates sd1 = sd_certificates sd2" by (simp add: commit_step_def)
  have index: "sd_sub_dag_index sd1 = sd_sub_dag_index sd2" "sd_commit_timestamp sd1 = sd_commit_timestamp sd2"
    using c leader eq(4) by (auto simp: commit_step_def next_sub_dag_index_def)
  have "resolve_reputation_score b1 (fold state_update (sd_certificates sd1) s1) = resolve_reputation_score b2 (fold state_update (sd_certificates sd1) s2)"
    using eq(1,4) by (intro ext resolve_reputation_score_agree) (simp_all add: fold_update_simps)
  with step certs index have scores: "sd_reputation_score sd1 = sd_reputation_score sd2"
    by (auto simp: machine_step_def)
  with leader certs index show sd: "sd1 = sd2" by simp
  have "config b1' = config b2'"
    using step leader scores update_leader_schedule_agree [OF eq(1)] by (auto simp: machine_step_def)
  moreover have "s1\<lparr>state_dag := []\<rparr> = s2\<lparr>state_dag := []\<rparr>" using same by (simp add: committed_part_def)
  note rest = fold_update_dag [OF this, of "sd_certificates sd1"]
  have "s1' = (fold state_update (sd_certificates sd1) s1)\<lparr>last_committed_sub_dag := Some sd1\<rparr>"
    "s2' = (fold state_update (sd_certificates sd1) s2)\<lparr>last_committed_sub_dag := Some sd1\<rparr>"
    using c sd by (simp_all add: commit_step_def)
  then have "s1'\<lparr>state_dag := []\<rparr> = s2'\<lparr>state_dag := []\<rparr>" by (simp only: erase_dag_sub_dag rest)
  ultimately show "committed_part (b1', s1') = committed_part (b2', s2')" by (simp add: committed_part_def)
qed

section \<open>Traces from the same start\<close>

lemma trace_ok:
  assumes "trace ch U (b, s) sds (b', s')" "universe U" "state_ok U s"
  shows "state_ok U s'"
  using strace_ok [OF trace_strace [OF assms(1)] assms(2)] assms(3) by simp

lemma insert_committed_part:
  assumes "try_insert x s = Some (r, s')" "config b' = config b"
  shows "committed_part (b', s') = committed_part (b, s)"
  using assms by (auto simp: committed_part_def try_insert_def bind_eq_Some_conv)

lemma machine_step_committee:
  assumes "machine_step ch U (b, s) sd (b', s')"
  shows "bs_committee b' = bs_committee b"
  using assms by (auto simp: machine_step_def update_leader_schedule_def bind_eq_Some_conv split: if_splits)

lemma trace_committee:
  assumes "trace ch U m sds m'"
  shows "bs_committee (fst m') = bs_committee (fst m)"
  using assms by (induction rule: trace.induct) (auto dest: config_eqD(1) machine_step_committee)

lemma trace_Nil:
  assumes "trace ch U m sds m'" "sds = []"
  shows "committed_part m' = committed_part m"
  using assms by (induction rule: trace.induct) (auto simp: insert_committed_part)

text \<open>The last commit of a trace, up to insertions after it.\<close>

lemma trace_snoc:
  assumes "trace ch U m sds m'" "sds = xs @ [sd]"
  obtains b1 s1 b2 s2 where "trace ch U m xs (b1, s1)" "machine_step ch U (b1, s1) sd (b2, s2)"
    "committed_part m' = committed_part (b2, s2)"
  using assms
proof (induction arbitrary: thesis rule: trace.induct)
  case (trace_insert sds b1 s1 x r s2 b2)
  from trace_insert(5) [OF _ trace_insert(7)] obtain b3 s3 b4 s4 where "trace ch U m xs (b3, s3)" "machine_step ch U (b3, s3) sd (b4, s4)"
    "committed_part (b1, s1) = committed_part (b4, s4)" by blast
  with trace_insert(6) insert_committed_part [OF trace_insert(3,4)] show ?case by metis
qed auto

lemma trace_prefix:
  assumes "trace ch U m sds m'" "sds = xs @ ys"
  shows "\<exists>m1. trace ch U m xs m1"
  using assms
proof (induction arbitrary: ys rule: trace.induct)
  case (trace_commit sds b1 s1 sd b2 s2)
  show ?case
  proof (cases ys rule: rev_cases)
    case Nil
    with trace_commit trace.trace_commit show ?thesis by (metis append_Nil2)
  next
    case (snoc zs z)
    with trace_commit(3) [of zs] trace_commit(4) show ?thesis by auto
  qed
next
  case trace_start
  then show ?case by (metis append_is_Nil_conv trace.trace_start)
qed

lemma trace_committed_part:
  assumes U: "universe U" "well_connected (bs_committee b1) U" and ok: "state_ok U s1" "state_ok U s2"
    and same: "committed_part (b1, s1) = committed_part (b2, s2)"
    and run: "trace ch U (b1, s1) sds m1" "trace ch U (b2, s2) sds m2"
  shows "committed_part m1 = committed_part m2"
  using run
proof (induction sds arbitrary: m1 m2 rule: rev_induct)
  case Nil
  with trace_Nil same show ?case by metis
next
  case (snoc sd sds)
  obtain c1 t1 c1' t1' where one: "trace ch U (b1, s1) sds (c1, t1)" "machine_step ch U (c1, t1) sd (c1', t1')"
    "committed_part m1 = committed_part (c1', t1')" using trace_snoc [OF snoc(2)] by blast
  obtain c2 t2 c2' t2' where two: "trace ch U (b2, s2) sds (c2, t2)" "machine_step ch U (c2, t2) sd (c2', t2')"
    "committed_part m2 = committed_part (c2', t2')" using trace_snoc [OF snoc(3)] by blast
  have "bs_committee c1 = bs_committee b1" using trace_committee [OF one(1)] by simp
  with machine_step_agree(2) [OF U(1) _ trace_ok [OF one(1) U(1) ok(1)] trace_ok [OF two(1) U(1) ok(2)]
      snoc(1) [OF one(1) two(1)] one(2) two(2)] U(2) one(3) two(3) show ?case by simp
qed

text \<open>Two traces never fork.\<close>

lemma trace_agree:
  assumes U: "universe U" "well_connected (bs_committee b1) U" and ok: "state_ok U s1" "state_ok U s2"
    and same: "committed_part (b1, s1) = committed_part (b2, s2)"
    and run: "trace ch U (b1, s1) sds1 m1" "trace ch U (b2, s2) sds2 m2"
  shows "prefix sds1 sds2 \<or> prefix sds2 sds1"
proof (rule ccontr)
  assume "\<not> (prefix sds1 sds2 \<or> prefix sds2 sds1)"
  then have "sds1 \<parallel> sds2" by auto
  from parallel_decomp [OF this] obtain xs sd1 ys1 sd2 ys2 where
    fork: "sd1 \<noteq> sd2" "sds1 = (xs @ [sd1]) @ ys1" "sds2 = (xs @ [sd2]) @ ys2" by auto
  from trace_prefix [OF run(1) fork(2)] trace_prefix [OF run(2) fork(3)] obtain n1 n2 where
    "trace ch U (b1, s1) (xs @ [sd1]) n1" "trace ch U (b2, s2) (xs @ [sd2]) n2" by blast
  then obtain c1 t1 c1' t1' c2 t2 c2' t2' where
    one: "trace ch U (b1, s1) xs (c1, t1)" "machine_step ch U (c1, t1) sd1 (c1', t1')"
    and two: "trace ch U (b2, s2) xs (c2, t2)" "machine_step ch U (c2, t2) sd2 (c2', t2')"
    by (meson trace_snoc)
  have "bs_committee c1 = bs_committee b1" using trace_committee [OF one(1)] by simp
  with machine_step_agree(1) [OF U(1) _ trace_ok [OF one(1) U(1) ok(1)] trace_ok [OF two(1) U(1) ok(2)]
      trace_committed_part [OF U ok same one(1) two(1)] one(2) two(2)] U(2) fork(1) show False by simp
qed

end
