(* ===== verification/Leader_Schedule_Laws.thy ===== *)
theory Leader_Schedule_Laws
  imports Leader_Schedule
begin

text \<open>
  The swap table of \<^verbatim>\<open>leader_schedule.rs\<close> and the election of leaders: which authorities the table takes
  from the two ends of the ranking, that the two sides never meet, that a bad node never leads, and when
  the election cannot panic.
\<close>

section \<open>Prefixes within a budget\<close>

text \<open>The longest prefix whose weight is within the limit.\<close>

fun within :: "('a \<Rightarrow> nat) \<Rightarrow> nat \<Rightarrow> 'a list \<Rightarrow> 'a list" where
  "within w l [] = []"
| "within w l (x # xs) = (if w x \<le> l then x # within w (l - w x) xs else [])"

lemma within_prefix: "\<exists>ys. xs = within w l xs @ ys"
  by (induction w l xs rule: within.induct) auto

lemma within_weight: "sum_list (map w (within w l xs)) \<le> l"
  by (induction w l xs rule: within.induct) auto

lemma within_set: "set (within w l xs) \<subseteq> set xs"
  using within_prefix [of xs w l] by (metis Un_iff set_append subsetI)

lemma within_distinct: "distinct xs \<Longrightarrow> distinct (within w l xs)"
  using within_prefix [of xs w l] by (metis distinct_append)

lemma within_Nil_iff: "within w l xs = [] \<longleftrightarrow> xs = [] \<or> l < w (hd xs)"
  by (cases xs) auto

lemma within_maximal:
  assumes "xs = within w l xs @ y # ys"
  shows "l < sum_list (map w (within w l xs)) + w y"
  using assms
proof (induction w l xs rule: within.induct)
  case (2 w l x xs)
  then show ?case by (cases "w x \<le> l") auto
qed simp

text \<open>The prefix from the front and the one from the back do not meet when both limits together are
  less than the whole.\<close>

lemma within_disjoint:
  assumes "distinct xs" "2 * l < sum_list (map w xs)"
  shows "set (within w l xs) \<inter> set (within w l (rev xs)) = {}"
proof -
  let ?g = "within w l xs" and ?b = "within w l (rev xs)"
  obtain ys where g: "xs = ?g @ ys" using within_prefix [of xs w l] by blast
  obtain zs where "rev xs = ?b @ zs" using within_prefix [of "rev xs" w l] by blast
  then have b: "xs = rev zs @ rev ?b" by (metis rev_append rev_rev_ident)
  have "?g @ ys = rev zs @ rev ?b" using g b by metis
  then obtain us where us: "?g = rev zs @ us \<or> rev zs = ?g @ us" unfolding append_eq_append_conv2 by metis
  have "?g \<noteq> rev zs @ us"
  proof
    assume "?g = rev zs @ us"
    then have "sum_list (map w (rev zs)) \<le> sum_list (map w ?g)" by simp
    also have "\<dots> \<le> l" by (rule within_weight)
    finally have "sum_list (map w (rev zs)) \<le> l" .
    moreover have "sum_list (map w (rev ?b)) \<le> l" using within_weight [of w l "rev xs"] by (simp add: sum_list_rev flip: rev_map)
    moreover have "sum_list (map w xs) = sum_list (map w (rev zs)) + sum_list (map w (rev ?b))"
      using b by (metis map_append sum_list_append)
    ultimately show False using assms(2) by simp
  qed
  with us b have "xs = ?g @ us @ rev ?b" by simp
  then have "distinct (?g @ us @ rev ?b)" using assms(1) by metis
  then show ?thesis by auto
qed

section \<open>Reputation scores of a committee\<close>

definition scores_ok :: "narwhal_committee \<Rightarrow> reputation_scores \<Rightarrow> bool" where
  "scores_ok c sc \<longleftrightarrow> distinct (map fst (scores_per_authority sc)) \<and> fst ` set (scores_per_authority sc) = set (ids c)"

lemma collect_some_Some: "\<forall>x \<in> set xs. f x = Some (g x) \<Longrightarrow> collect_some (map f xs) = Some (map g xs)"
  by (induction xs) auto

lemma authority_id_member:
  assumes "nc_wf c" "a \<in> set (authorities c)"
  shows "authority_id a = Some (au_id a)"
proof -
  from assms(2) obtain i where "i < nc_size c" "a = authorities c ! i"
    by (auto simp: in_set_conv_nth authorities_def nc_size_def)
  with assms(1) show ?thesis by (simp add: nc_wf_def authority_id_def panic_unless_def)
qed

lemma reputation_new_ok:
  assumes "nc_wf c"
  shows "\<exists>sc. reputation_new c = Some sc \<and> scores_ok c sc"
proof -
  have c: "collect_some (map (\<lambda>a. map_option (\<lambda>i. (i, 0)) (authority_id a)) (authorities c))
    = Some (map (\<lambda>a. (au_id a, 0 :: u64)) (authorities c))"
    using authority_id_member [OF assms] by (intro collect_some_Some) auto
  have "distinct (map fst (map (\<lambda>a. (au_id a, 0 :: u64)) (authorities c)))"
    using distinct_ids [OF assms] by (simp add: ids_def comp_def)
  with hm_collect_distinct [OF this] show ?thesis
    unfolding reputation_new_def c by (auto simp: scores_ok_def ids_def image_image)
qed

lemma add_score_ok: "scores_ok c sc \<Longrightarrow> a \<in> set (ids c) \<Longrightarrow> scores_ok c (add_score a k sc)"
  by (auto simp: scores_ok_def add_score_def dom_update distinct_update split: option.splits)

lemma scores_total:
  assumes "nc_wf c" "scores_ok c sc"
  shows "total_authorities sc = nc_size c"
proof -
  have "total_authorities sc = card (fst ` set (scores_per_authority sc))"
    using assms(2) distinct_card [of "map fst (scores_per_authority sc)"] by (simp add: scores_ok_def total_authorities_def)
  also have "\<dots> = length (ids c)" using assms by (simp add: scores_ok_def distinct_card distinct_ids)
  finally show ?thesis by (simp add: ids_def authorities_def nc_size_def)
qed

text \<open>The authorities by descending score.\<close>

definition ranking :: "reputation_scores \<Rightarrow> authority_identifier list" where
  "ranking sc = map fst (authorities_by_score_desc sc)"

lemma ranking_ok:
  assumes "scores_ok c sc"
  shows "distinct (ranking sc)" "set (ranking sc) = set (ids c)"
proof -
  have "mset (ranking sc) = mset (map fst (scores_per_authority sc))"
    by (simp add: ranking_def authorities_by_score_desc_def)
  then have "distinct (ranking sc) \<longleftrightarrow> distinct (map fst (scores_per_authority sc))" "set (ranking sc) = set (map fst (scores_per_authority sc))"
    by (rule mset_eq_imp_distinct_iff, rule mset_eq_setD)
  with assms show "distinct (ranking sc)" "set (ranking sc) = set (ids c)" by (auto simp: scores_ok_def)
qed

text \<open>Earlier in the ranking means a score at least as high.\<close>

lemma ranking_sorted:
  "sorted_wrt (\<lambda>x y. snd y \<le> snd x) (authorities_by_score_desc sc)"
proof -
  have "sorted_wrt (\<lambda>x y. snd x \<le> snd y) (sort_key (\<lambda>(a, score). (score, a)) (scores_per_authority sc))"
    by (rule sorted_wrt_mono_rel [OF _ sorted_sort_key [unfolded sorted_map]]) (auto simp: less_eq_prod_def split: prod.splits)
  then show ?thesis by (simp add: authorities_by_score_desc_def sorted_wrt_rev)
qed

section \<open>The swap table\<close>

lemma retrieve_nodes_loop_spec:
  assumes "nc_wf c" "distinct (map fst xs)" "fst ` set xs \<subseteq> set (ids c)"
    "unat st + sum (stake_nat c) (fst ` set xs) < 2 ^ 64" "st \<le> limit"
  shows "\<exists>nodes. retrieve_nodes_loop c limit xs st = Some nodes \<and> set nodes \<subseteq> set (authorities c) \<and>
    map au_id nodes = within (stake_nat c) (unat limit - unat st) (map fst xs)"
  using assms(2-5)
proof (induction xs arbitrary: st)
  case (Cons x xs)
  obtain i score where x: "x = (i, score)" by (cases x)
  from Cons(2,4) x have sum: "unat st + (stake_nat c i + sum (stake_nat c) (fst ` set xs)) < 2 ^ 64"
    by (auto simp: sum.insert_if image_iff)
  then have st: "unat (st + stake_by_id c i) = unat st + stake_nat c i"
    unfolding stake_nat_def by (intro unat_add_lem [THEN iffD1]) simp
  have le: "unat st \<le> unat limit" using Cons(5) by (simp add: word_le_nat_alt)
  show ?case
  proof (cases "st + stake_by_id c i \<le> limit")
    case True
    then have fits: "stake_nat c i \<le> unat limit - unat st" using st le by (simp add: word_le_nat_alt)
    obtain a where a: "authority_safe c i = Some a" "a \<in> set (authorities c)" "au_id a = i"
      using Cons(3) x authority_safe_member [OF assms(1), of i] authority_safe_iff [OF assms(1)] by auto
    have "distinct (map fst xs)" "fst ` set xs \<subseteq> set (ids c)" "unat (st + stake_by_id c i) + sum (stake_nat c) (fst ` set xs) < 2 ^ 64"
      using Cons(2,3) sum st by auto
    from Cons(1) [OF this True] obtain nodes where "retrieve_nodes_loop c limit xs (st + stake_by_id c i) = Some nodes"
      "set nodes \<subseteq> set (authorities c)" "map au_id nodes = within (stake_nat c) (unat limit - (unat st + stake_nat c i)) (map fst xs)"
      unfolding st by blast
    with a x fits True show ?thesis by (auto simp: Let_def not_less diff_diff_left)
  next
    case False
    then have "\<not> stake_nat c i \<le> unat limit - unat st" using st le by (simp add: word_le_nat_alt)
    with x False show ?thesis by (simp add: Let_def not_le)
  qed
qed simp

text \<open>How much stake a side of the table may hold.\<close>

definition swap_limit :: "narwhal_committee \<Rightarrow> u64 \<Rightarrow> nat" where
  "swap_limit c threshold = unat threshold * stake_total c div 100"

lemma retrieve_first_nodes_spec:
  assumes "nc_wf c" "stake_fits c" "unat threshold * stake_total c < 2 ^ 64" "distinct (map fst xs)" "fst ` set xs = set (ids c)"
  shows "\<exists>nodes. retrieve_first_nodes c xs threshold = Some nodes \<and> set nodes \<subseteq> set (authorities c) \<and>
    map au_id nodes = within (stake_nat c) (swap_limit c threshold) (map fst xs)"
proof -
  have "unat (threshold * nc_total_stake c) = unat threshold * stake_total c"
    using assms(2,3) by (intro trans [OF unat_mult_lem [THEN iffD1]]) (simp_all add: unat_total_stake)
  then have limit: "unat (threshold * nc_total_stake c div 100) = swap_limit c threshold"
    by (simp add: unat_div swap_limit_def)
  have "sum (stake_nat c) (fst ` set xs) = stake_total c" unfolding assms(5) by (rule stake_nat_total [OF assms(1)])
  with assms(2) have "unat (0 :: u64) + sum (stake_nat c) (fst ` set xs) < 2 ^ 64" by (simp add: stake_fits_def)
  from retrieve_nodes_loop_spec [OF assms(1,4) _ this, of "threshold * nc_total_stake c div 100"] assms(5) limit
  show ?thesis by (auto simp: retrieve_first_nodes_def)
qed

definition table_ok :: "narwhal_committee \<Rightarrow> u64 \<Rightarrow> authority_identifier list \<Rightarrow> leader_swap_table \<Rightarrow> bool" where
  "table_ok c threshold rank t \<longleftrightarrow> set (st_good_nodes t) \<subseteq> set (authorities c) \<and>
     map au_id (st_good_nodes t) = within (stake_nat c) (swap_limit c threshold) rank \<and>
     map fst (st_bad_nodes t) = within (stake_nat c) (swap_limit c threshold) (rev rank) \<and>
     (\<forall>(i, a) \<in> set (st_bad_nodes t). a \<in> set (authorities c) \<and> au_id a = i)"

lemma swap_table_new_spec:
  assumes c: "nc_wf c" "stake_fits c" and t: "threshold \<le> 33" "unat threshold * stake_total c < 2 ^ 64"
    and sc: "scores_ok c sc" "final_of_schedule sc"
  obtains table where "swap_table_new c rnd sc threshold = Some table" "st_round table = rnd"
    "table_ok c threshold (ranking sc) table"
proof -
  let ?xs = "authorities_by_score_desc sc"
  note rank = ranking_ok [OF sc(1)]
  have xs: "distinct (map fst ?xs)" "fst ` set ?xs = set (ids c)" "distinct (map fst (rev ?xs))" "fst ` set (rev ?xs) = set (ids c)"
    using rank by (simp_all add: ranking_def rev_map [symmetric])
  from retrieve_first_nodes_spec [OF c t(2) xs(1,2)] obtain good where
    good: "retrieve_first_nodes c ?xs threshold = Some good" "set good \<subseteq> set (authorities c)"
    "map au_id good = within (stake_nat c) (swap_limit c threshold) (ranking sc)" by (auto simp: ranking_def)
  from retrieve_first_nodes_spec [OF c t(2) xs(3,4)] obtain bad where
    bad: "retrieve_first_nodes c (rev ?xs) threshold = Some bad" "set bad \<subseteq> set (authorities c)"
    "map au_id bad = within (stake_nat c) (swap_limit c threshold) (rev (ranking sc))" by (auto simp: ranking_def rev_map)
  have tagged: "collect_some (map (\<lambda>a. map_option (\<lambda>i. (i, a)) (authority_id a)) bad) = Some (map (\<lambda>a. (au_id a, a)) bad)"
    using bad(2) authority_id_member [OF c(1)] by (intro collect_some_Some) auto
  have "distinct (map au_id bad)" unfolding bad(3) using rank(1) by (intro within_distinct) simp
  then have hm: "hm_collect (map (\<lambda>a. (au_id a, a)) bad) = map (\<lambda>a. (au_id a, a)) bad"
    by (intro hm_collect_distinct) (simp add: comp_def)
  let ?t = "\<lparr>st_round = rnd, st_good_nodes = good, st_bad_nodes = map (\<lambda>a. (au_id a, a)) bad\<rparr>"
  have "swap_table_new c rnd sc threshold = Some ?t"
    using t(1) sc(2) good(1) bad(1) tagged hm by (simp add: swap_table_new_def panic_unless_def)
  moreover have "table_ok c threshold (ranking sc) ?t" using good bad by (auto simp: table_ok_def comp_def)
  ultimately show thesis using that by simp
qed

lemma swap_limit_half:
  assumes "stake_fits c" "threshold \<le> 33"
  shows "2 * swap_limit c threshold < stake_total c"
proof -
  have "unat threshold \<le> 33" using assms(2) by (simp add: word_le_nat_alt)
  then have "unat threshold * stake_total c \<le> 33 * stake_total c" by (rule mult_le_mono1)
  then have "swap_limit c threshold \<le> 33 * stake_total c div 100" unfolding swap_limit_def by (rule div_le_mono)
  moreover have "2 * (33 * stake_total c div 100) < stake_total c" using assms(1) by (auto simp: stake_fits_def)
  ultimately show ?thesis by linarith
qed

lemma sum_list_distinct: "distinct xs \<Longrightarrow> sum_list (map f xs) = sum f (set xs)"
  by (induction xs) auto

lemma table_disjoint:
  assumes "nc_wf c" "stake_fits c" "threshold \<le> 33" "table_ok c threshold rank t" "distinct rank" "set rank = set (ids c)"
  shows "au_id ` set (st_good_nodes t) \<inter> fst ` set (st_bad_nodes t) = {}"
proof -
  have "sum_list (map (stake_nat c) rank) = stake_total c"
    using sum_list_distinct [OF assms(5)] stake_nat_total [OF assms(1)] assms(6) by metis
  with swap_limit_half [OF assms(2,3)] within_disjoint [OF assms(5), of "swap_limit c threshold" "stake_nat c"]
  have "set (map au_id (st_good_nodes t)) \<inter> set (map fst (st_bad_nodes t)) = {}"
    using assms(4) unfolding table_ok_def by metis
  then show ?thesis by simp
qed

lemma table_stake:
  assumes "table_ok c threshold rank t" "distinct rank"
  shows "sum (stake_nat c) (au_id ` set (st_good_nodes t)) \<le> swap_limit c threshold"
    "sum (stake_nat c) (fst ` set (st_bad_nodes t)) \<le> swap_limit c threshold"
proof -
  have eq: "au_id ` set (st_good_nodes t) = set (within (stake_nat c) (swap_limit c threshold) rank)"
    "fst ` set (st_bad_nodes t) = set (within (stake_nat c) (swap_limit c threshold) (rev rank))"
    using assms(1) unfolding table_ok_def by (metis list.set_map)+
  have "distinct (within (stake_nat c) (swap_limit c threshold) rank)" "distinct (within (stake_nat c) (swap_limit c threshold) (rev rank))"
    using assms(2) by (simp_all add: within_distinct)
  then show "sum (stake_nat c) (au_id ` set (st_good_nodes t)) \<le> swap_limit c threshold"
    "sum (stake_nat c) (fst ` set (st_bad_nodes t)) \<le> swap_limit c threshold"
    unfolding eq using within_weight [of "stake_nat c" "swap_limit c threshold"] sum_list_distinct by metis+
qed

section \<open>Electing a leader\<close>

text \<open>What the documentation of \<^verbatim>\<open>rand\<close> promises: a choice is one of the items, \<^verbatim>\<open>choose_weighted\<close> succeeds when
  some weight is positive, and \<^verbatim>\<open>choose\<close> when there is an item.\<close>

definition choices_ok :: "choices \<Rightarrow> bool" where
  "choices_ok ch \<longleftrightarrow> (\<forall>s xs x. wchoice ch s xs = Some x \<longrightarrow> x \<in> set xs) \<and>
     (\<forall>s xs. (\<exists>x \<in> set xs. 0 < snd x) \<longrightarrow> wchoice ch s xs \<noteq> None) \<and>
     (\<forall>r xs a. gchoice ch r xs = Some a \<longrightarrow> a \<in> set xs) \<and> (\<forall>r xs. xs \<noteq> [] \<longrightarrow> gchoice ch r xs \<noteq> None)"

text \<open>A schedule whose swap table can replace every bad node.\<close>

definition schedule_ok :: "narwhal_committee \<Rightarrow> leader_schedule \<Rightarrow> bool" where
  "schedule_ok c ls \<longleftrightarrow> ls_committee ls = c \<and> set (st_good_nodes (ls_table ls)) \<subseteq> set (authorities c) \<and>
     (st_bad_nodes (ls_table ls) = [] \<or> st_good_nodes (ls_table ls) \<noteq> [])"

lemma schedule_default_ok: "schedule_ok c (schedule_new c swap_table_default)"
  by (simp add: schedule_ok_def schedule_new_def swap_table_default_def)

lemma nc_leader_total:
  assumes "stake_fits c" "choices_ok ch"
  shows "\<exists>a. nc_leader (wchoice ch) c seed = Some a \<and> a \<in> set (authorities c)"
proof -
  let ?xs = "map (\<lambda>a. (a, au_stake a)) (authorities c)"
  have "0 < sum_list (map (\<lambda>a. unat (au_stake a)) (authorities c))" using assms(1) by (simp add: stake_fits_def stake_total_def)
  moreover have "sum_list (map f xs) = 0" if "\<forall>x \<in> set xs. f x = 0" for f :: "authority \<Rightarrow> nat" and xs
    using that by (induction xs) auto
  ultimately have "\<not> (\<forall>a \<in> set (authorities c). unat (au_stake a) = 0)" by fastforce
  then obtain a where "a \<in> set (authorities c)" "0 < unat (au_stake a)" by auto
  then have "\<exists>x \<in> set ?xs. 0 < snd x" by (auto simp: word_less_nat_alt)
  with assms(2) have "wchoice ch seed ?xs \<noteq> None" unfolding choices_ok_def by blast
  then obtain x where x: "wchoice ch seed ?xs = Some x" by blast
  with assms(2) have "x \<in> set ?xs" unfolding choices_ok_def by blast
  with x show ?thesis by (auto simp: nc_leader_def)
qed

lemma schedule_leader_member:
  assumes "nc_wf c" "stake_fits c" "choices_ok ch" "schedule_ok c ls" "even r"
  shows "\<exists>a. schedule_leader ch ls r = Some a \<and> a \<in> set (authorities c)"
proof -
  from nc_leader_total [OF assms(2,3)] obtain a where
    a: "nc_leader (wchoice ch) (ls_committee ls) (word_of_nat r) = Some a" "a \<in> set (authorities c)"
    using assms(4) unfolding schedule_ok_def by metis
  have "\<exists>found. swap ch (ls_table ls) (au_id a) r = Some found \<and> (\<forall>b. found = Some b \<longrightarrow> b \<in> set (authorities c))"
  proof (cases "map_of (st_bad_nodes (ls_table ls)) (au_id a)")
    case (Some b)
    then have good: "st_good_nodes (ls_table ls) \<noteq> []" "set (st_good_nodes (ls_table ls)) \<subseteq> set (authorities c)"
      using assms(4) by (auto simp: schedule_ok_def)
    with assms(3) obtain g where "gchoice ch r (st_good_nodes (ls_table ls)) = Some g" "g \<in> set (st_good_nodes (ls_table ls))"
      unfolding choices_ok_def by (metis option.exhaust)
    with Some good show ?thesis by (auto simp: swap_def)
  qed (simp add: swap_def)
  with a authority_id_member [OF assms(1) a(2)] assms(5) show ?thesis
    by (auto simp: schedule_leader_def panic_unless_def even_iff_mod_2_eq_zero split: option.splits)
qed

lemma schedule_leader_good:
  assumes "nc_wf c" "choices_ok ch" "schedule_leader ch (schedule_new c t) r = Some a"
    "au_id ` set (st_good_nodes t) \<inter> fst ` set (st_bad_nodes t) = {}"
  shows "au_id a \<notin> fst ` set (st_bad_nodes t)"
proof -
  from assms(3) obtain l found where l: "nc_leader (wchoice ch) c (word_of_nat r) = Some l"
    and found: "swap ch t (au_id l) r = Some found" and a: "a = (case found of Some b \<Rightarrow> b | None \<Rightarrow> l)"
    by (auto simp: schedule_leader_def schedule_new_def bind_eq_Some_conv authority_id_def)
  show ?thesis
  proof (cases "map_of (st_bad_nodes t) (au_id l)")
    case None
    then have "au_id l \<notin> fst ` set (st_bad_nodes t)" by (simp add: map_of_eq_None_iff)
    moreover have "a = l" using None found a by (simp add: swap_def)
    ultimately show ?thesis by simp
  next
    case (Some b)
    with found a have "gchoice ch r (st_good_nodes t) = Some a" by (auto simp: swap_def split: if_splits)
    with assms(2) have "a \<in> set (st_good_nodes t)" unfolding choices_ok_def by blast
    with assms(4) show ?thesis by blast
  qed
qed

text \<open>With equal stakes the first of the ranking fits exactly when the last does.\<close>

definition equal_stakes :: "narwhal_committee \<Rightarrow> bool" where
  "equal_stakes c \<longleftrightarrow> (\<forall>a \<in> set (authorities c). \<forall>b \<in> set (authorities c). au_stake a = au_stake b)"

lemma equal_stakes_safe:
  assumes "nc_wf c" "equal_stakes c" "table_ok c threshold rank t" "set rank = set (ids c)"
  shows "st_bad_nodes t = [] \<longleftrightarrow> st_good_nodes t = []"
proof -
  have same: "stake_nat c i = stake_nat c j" if "i \<in> set rank" "j \<in> set rank" for i j
  proof -
    from that assms(4) obtain a b where "a \<in> set (authorities c)" "b \<in> set (authorities c)" "i = au_id a" "j = au_id b"
      by (auto simp: ids_def)
    moreover from this assms(2) have "au_stake a = au_stake b" unfolding equal_stakes_def by blast
    ultimately show ?thesis using stake_by_id_authority [OF assms(1)] by (simp add: stake_nat_def)
  qed
  have "within (stake_nat c) l rank = [] \<longleftrightarrow> within (stake_nat c) l (rev rank) = []" for l
  proof (cases "rank = []")
    case False
    then have "stake_nat c (hd rank) = stake_nat c (hd (rev rank))" using same by (simp add: hd_rev)
    with False show ?thesis by (simp add: within_Nil_iff)
  qed simp
  then have "map fst (st_bad_nodes t) = [] \<longleftrightarrow> map au_id (st_good_nodes t) = []"
    using assms(3) unfolding table_ok_def by simp
  then show ?thesis by simp
qed

lemma table_schedule_ok:
  assumes "nc_wf c" "equal_stakes c" "table_ok c threshold rank t" "set rank = set (ids c)"
  shows "schedule_ok c (schedule_new c t)"
  using assms(3) equal_stakes_safe [OF assms] by (auto simp: schedule_ok_def schedule_new_def table_ok_def)

section \<open>Properties\<close>

definition demo_scores :: reputation_scores where
  "demo_scores = \<lparr>scores_per_authority = [(0, 5), (1, 2), (2, 9), (3, 4)], final_of_schedule = True\<rparr>"

definition skewed_authority :: "nat \<Rightarrow> authority" where
  "skewed_authority i = (demo_authority i)\<lparr>au_stake := (if i = 3 then 7 else 1)\<rparr>"

definition skewed_nc :: narwhal_committee where
  "skewed_nc = \<lparr>nc_authorities = map (\<lambda>i. (10 * i, skewed_authority i)) [0, 1, 2, 3],
     nc_authorities_by_id = map (\<lambda>i. (word_of_nat i, skewed_authority i)) [0, 1, 2, 3],
     nc_epoch = 5, nc_quorum_threshold = 7, nc_validity_threshold = 4\<rparr>"

definition skewed_scores :: reputation_scores where
  "skewed_scores = \<lparr>scores_per_authority = [(0, 0), (1, 2), (2, 4), (3, 9)], final_of_schedule = True\<rparr>"

lemma demo_scores_ok: "scores_ok demo_nc demo_scores" "final_of_schedule demo_scores"
  by (auto simp: scores_ok_def demo_scores_def demo_nc_ids)

lemma skewed_total: "stake_total skewed_nc = 10"
  by (simp add: stake_total_def authorities_def skewed_nc_def skewed_authority_def demo_authority_def)

lemma skewed_wf: "nc_wf skewed_nc" "stake_fits skewed_nc" "scores_ok skewed_nc skewed_scores"
proof -
  show "nc_wf skewed_nc" unfolding nc_wf_def skewed_total
    by (auto simp: authorities_def skewed_nc_def skewed_authority_def demo_authority_def nc_size_def bt_wf_def nth_Cons' less_Suc_eq)
  show "stake_fits skewed_nc" by (simp add: stake_fits_def skewed_total)
  show "scores_ok skewed_nc skewed_scores"
    by (auto simp: scores_ok_def skewed_scores_def ids_def authorities_def skewed_nc_def skewed_authority_def demo_authority_def)
qed

lemma skewed_ranking: "ranking skewed_scores = [3, 2, 1, 0]"
  by (simp add: ranking_def authorities_by_score_desc_def skewed_scores_def)

text \<open>For a committee with final scores of all its members and a threshold of at most 33 per cent, the swap
  table is built without a panic; the good nodes are the highest ranked and the bad nodes the lowest
  ranked that fit into the threshold, each side holds at most that share of the stake, and no authority
  is on both sides.\<close>

lemma swap_table_sides:
  assumes "nc_wf c" "stake_fits c" "threshold \<le> 33" "unat threshold * stake_total c < 2 ^ 64"
    "scores_ok c sc" "final_of_schedule sc"
  shows "\<exists>t. swap_table_new c rnd sc threshold = Some t \<and> st_round t = rnd \<and>
    map au_id (st_good_nodes t) = within (stake_nat c) (unat threshold * stake_total c div 100) (ranking sc) \<and>
    map fst (st_bad_nodes t) = within (stake_nat c) (unat threshold * stake_total c div 100) (rev (ranking sc)) \<and>
    100 * sum (stake_nat c) (fst ` set (st_bad_nodes t)) \<le> unat threshold * stake_total c \<and>
    au_id ` set (st_good_nodes t) \<inter> fst ` set (st_bad_nodes t) = {}"
proof -
  obtain t where t: "swap_table_new c rnd sc threshold = Some t" "st_round t = rnd" "table_ok c threshold (ranking sc) t"
    by (rule swap_table_new_spec [OF assms])
  note rank = ranking_ok [OF assms(5)]
  from table_stake(2) [OF t(3) rank(1)] have "100 * sum (stake_nat c) (fst ` set (st_bad_nodes t)) \<le> unat threshold * stake_total c"
    unfolding swap_limit_def by linarith
  with t table_disjoint [OF assms(1,2,3) t(3) rank] show ?thesis by (auto simp: table_ok_def swap_limit_def)
qed

lemma swap_table_sides_witness:
  "\<exists>t. swap_table_new demo_nc 8 demo_scores 33 = Some t \<and>
    map au_id (st_good_nodes t) = within (stake_nat demo_nc) 1 [2, 0, 3, 1] \<and>
    map fst (st_bad_nodes t) = within (stake_nat demo_nc) 1 [1, 3, 0, 2]"
proof -
  have "ranking demo_scores = [2, 0, 3, 1]" by (simp add: ranking_def authorities_by_score_desc_def demo_scores_def)
  with swap_table_sides [OF demo_nc_wf demo_nc_fits _ _ demo_scores_ok, of 33 8] show ?thesis
    by (auto simp: demo_nc_total word_le_nat_alt)
qed

text \<open>C21. An authority that the swap table marks as bad never leads: \<^verbatim>\<open>LeaderSchedule::leader\<close> elects a member
  that is not among the bad nodes.\<close>

theorem bad_node_never_leads:
  assumes "nc_wf c" "stake_fits c" "threshold \<le> 33" "unat threshold * stake_total c < 2 ^ 64"
    "scores_ok c sc" "choices_ok ch" "swap_table_new c rnd sc threshold = Some t"
    "schedule_leader ch (schedule_new c t) r = Some a"
  shows "au_id a \<notin> fst ` set (st_bad_nodes t)"
proof -
  have "final_of_schedule sc" using assms(7) by (auto simp: swap_table_new_def panic_unless_def bind_eq_Some_conv split: if_splits)
  from swap_table_new_spec [OF assms(1-5) this] assms(7) have "table_ok c threshold (ranking sc) t" by (metis option.inject)
  from table_disjoint [OF assms(1,2,3) this ranking_ok [OF assms(5)]] schedule_leader_good [OF assms(1,6,8)]
  show ?thesis by blast
qed

definition first_choices :: choices where
  "first_choices = \<lparr>wchoice = \<lambda>_ xs. List.find (\<lambda>x. 0 < snd x) xs, gchoice = \<lambda>_ xs. (case xs of [] \<Rightarrow> None | x # _ \<Rightarrow> Some x)\<rparr>"

lemma first_choices_ok: "choices_ok first_choices"
  unfolding choices_ok_def
proof (intro conjI allI impI)
  show "x \<in> set xs" if "wchoice first_choices s xs = Some x" for s xs x
    using find_SomeD [of "\<lambda>x. 0 < snd x" xs x] that by (simp add: first_choices_def)
  show "wchoice first_choices s xs \<noteq> None" if "\<exists>x \<in> set xs. 0 < snd x" for s xs
  proof -
    have "List.find (\<lambda>x. 0 < snd x) xs \<noteq> None" using that unfolding find_None_iff by blast
    then show ?thesis by (simp add: first_choices_def)
  qed
  show "a \<in> set xs" if "gchoice first_choices r xs = Some a" for r xs a
    using that by (cases xs) (auto simp: first_choices_def)
  show "gchoice first_choices r xs \<noteq> None" if "xs \<noteq> []" for r xs
    using that by (cases xs) (auto simp: first_choices_def)
qed

theorem bad_node_never_leads_witness:
  "\<exists>t a. swap_table_new demo_nc 8 demo_scores 33 = Some t \<and> schedule_leader first_choices (schedule_new demo_nc t) 10 = Some a \<and>
    au_id a \<notin> fst ` set (st_bad_nodes t)"
proof -
  have rank: "ranking demo_scores = [2, 0, 3, 1]" by (simp add: ranking_def authorities_by_score_desc_def demo_scores_def)
  obtain t where t: "swap_table_new demo_nc 8 demo_scores 33 = Some t" "table_ok demo_nc 33 [2, 0, 3, 1] t"
    using swap_table_new_spec [OF demo_nc_wf demo_nc_fits _ _ demo_scores_ok, of 33 8] rank by (auto simp: demo_nc_total word_le_nat_alt)
  have "equal_stakes demo_nc" by (auto simp: equal_stakes_def authorities_def demo_nc_def demo_authority_def)
  from table_schedule_ok [OF demo_nc_wf this t(2)] have "schedule_ok demo_nc (schedule_new demo_nc t)" by (auto simp: demo_nc_ids)
  from schedule_leader_member [OF demo_nc_wf demo_nc_fits first_choices_ok this, of 10] obtain a where
    a: "schedule_leader first_choices (schedule_new demo_nc t) 10 = Some a" by auto
  from bad_node_never_leads [OF demo_nc_wf demo_nc_fits _ _ demo_scores_ok(1) first_choices_ok t(1) a] t(1) a show ?thesis
    by (auto simp: demo_nc_total word_le_nat_alt)
qed

text \<open>C22. When all members have the same stake, every even round has a leader: the swap table built from final
  scores never leaves a bad node without a replacement.\<close>

theorem equal_stakes_elect:
  assumes "nc_wf c" "stake_fits c" "threshold \<le> 33" "unat threshold * stake_total c < 2 ^ 64"
    "scores_ok c sc" "final_of_schedule sc" "equal_stakes c" "choices_ok ch" "even r"
  shows "\<exists>t a. swap_table_new c rnd sc threshold = Some t \<and> schedule_leader ch (schedule_new c t) r = Some a \<and>
    a \<in> set (authorities c)"
proof -
  obtain t where t: "swap_table_new c rnd sc threshold = Some t" "table_ok c threshold (ranking sc) t"
    by (rule swap_table_new_spec [OF assms(1-6)])
  from schedule_leader_member [OF assms(1,2,8) table_schedule_ok [OF assms(1,7) t(2) ranking_ok(2) [OF assms(5)]] assms(9)] t(1)
  show ?thesis by blast
qed

theorem equal_stakes_elect_witness:
  "\<exists>t a. swap_table_new demo_nc 8 demo_scores 33 = Some t \<and> schedule_leader first_choices (schedule_new demo_nc t) 10 = Some a"
proof -
  have "equal_stakes demo_nc" by (auto simp: equal_stakes_def authorities_def demo_nc_def demo_authority_def)
  with equal_stakes_elect [OF demo_nc_wf demo_nc_fits _ _ demo_scores_ok _ first_choices_ok, of 33 10 8] show ?thesis
    by (auto simp: demo_nc_total word_le_nat_alt)
qed

text \<open>C23. With unequal stakes the schedule can panic: in a committee with stakes 1, 1, 1 and 7 whose largest member
  scores best, the swap table has bad nodes but no good node, and electing a bad node panics.\<close>

theorem skewed_stakes_panic:
  "\<exists>t. swap_table_new skewed_nc 8 skewed_scores 33 = Some t \<and> st_good_nodes t = [] \<and> map fst (st_bad_nodes t) = [0, 1, 2] \<and>
    swap ch t 0 10 = None \<and> schedule_leader (first_choices\<lparr>gchoice := g\<rparr>) (schedule_new skewed_nc t) 10 = None"
proof -
  obtain t where t: "swap_table_new skewed_nc 8 skewed_scores 33 = Some t" "table_ok skewed_nc 33 [3, 2, 1, 0] t"
    using swap_table_new_spec [OF skewed_wf(1,2) _ _ skewed_wf(3), of 33 8] skewed_ranking
    by (auto simp: skewed_total skewed_scores_def word_le_nat_alt)
  have stake: "stake_nat skewed_nc 0 = 1" "stake_nat skewed_nc 1 = 1" "stake_nat skewed_nc 2 = 1" "stake_nat skewed_nc 3 = 7"
    by (simp_all add: stake_nat_def stake_by_id_def skewed_nc_def skewed_authority_def demo_authority_def)
  from t(2) have "map au_id (st_good_nodes t) = []" "map fst (st_bad_nodes t) = [0, 1, 2]"
    by (simp_all add: table_ok_def swap_limit_def skewed_total stake)
  then have sides: "st_good_nodes t = []" "map fst (st_bad_nodes t) = [0, 1, 2]" by simp_all
  then have bad: "map_of (st_bad_nodes t) 0 \<noteq> None" by (metis list.set_intros(1) map_of_eq_None_iff list.set_map)
  have "nc_leader (wchoice (first_choices\<lparr>gchoice := g\<rparr>)) skewed_nc (word_of_nat 10) = Some (skewed_authority 0)"
    "authority_id (skewed_authority 0) = Some 0"
    by (simp_all add: nc_leader_def first_choices_def authorities_def skewed_nc_def skewed_authority_def demo_authority_def
        authority_id_def panic_unless_def word_less_nat_alt)
  with bad sides t(1) show ?thesis by (simp add: swap_def schedule_leader_def schedule_new_def panic_unless_def)
qed

end
