(* ===== verification/Bullshark_Progress.thy ===== *)
theory Bullshark_Progress
  imports Bullshark_Agreement Leader_Schedule_Laws
begin

text \<open>
  When \<^verbatim>\<open>bullshark.rs\<close> cannot panic, and when it commits. The certificates come from a set without
  equivocation in which every certificate names a quorum of parents, they arrive after their parents,
  and the committee always leaves a good node to replace a bad one; then every handler returns, the
  retry loop ends within its fuel, and a supported leader moves the last committed round.
\<close>

section \<open>The invariant of the machine\<close>

text \<open>No ranking leaves a bad node without a good node to take its place.\<close>

definition swaps_safe :: "narwhal_committee \<Rightarrow> u64 \<Rightarrow> bool" where
  "swaps_safe c threshold \<longleftrightarrow> (\<forall>sc t. scores_ok c sc \<longrightarrow> table_ok c threshold (ranking sc) t \<longrightarrow>
     st_bad_nodes t = [] \<or> st_good_nodes t \<noteq> [])"

lemma equal_stakes_swaps_safe:
  assumes "nc_wf c" "equal_stakes c"
  shows "swaps_safe c threshold"
  using equal_stakes_safe [OF assms] ranking_ok(2) by (fastforce simp: swaps_safe_def)

definition protocol_ok :: "choices \<Rightarrow> certificate set \<Rightarrow> bullshark \<Rightarrow> bool" where
  "protocol_ok ch U b \<longleftrightarrow> choices_ok ch \<and> well_connected (bs_committee b) U \<and>
     schedule_ok (bs_committee b) (bs_leader_schedule b) \<and> 0 < bs_num_sub_dags_per_schedule b \<and>
     bs_bad_nodes_stake_threshold b \<le> 33 \<and> unat (bs_bad_nodes_stake_threshold b) * stake_total (bs_committee b) < 2 ^ 64 \<and>
     swaps_safe (bs_committee b) (bs_bad_nodes_stake_threshold b)"

definition scored :: "bullshark \<Rightarrow> consensus_state \<Rightarrow> bool" where
  "scored b s \<longleftrightarrow> (\<forall>sd. last_committed_sub_dag s = Some sd \<longrightarrow> scores_ok (bs_committee b) (sd_reputation_score sd))"

definition machine_ok :: "choices \<Rightarrow> certificate set \<Rightarrow> machine \<Rightarrow> bool" where
  "machine_ok ch U = (\<lambda>(b, s). protocol_ok ch U b \<and> state_ok U s \<and> scored b s)"

lemma protocol_okD:
  assumes "protocol_ok ch U b"
  shows "nc_wf (bs_committee b)" "stake_fits (bs_committee b)" "c_origin ` U \<subseteq> set (ids (bs_committee b))"
    "well_connected (bs_committee b) U" "choices_ok ch" "schedule_ok (bs_committee b) (bs_leader_schedule b)"
    "0 < bs_num_sub_dags_per_schedule b"
  using assms by (simp_all add: protocol_ok_def well_connected_def)

lemma protocol_ok_config:
  assumes "config b1 = config b2"
  shows "protocol_ok ch U b1 = protocol_ok ch U b2"
  unfolding protocol_ok_def config_eqD [OF assms] ..

section \<open>Reputation scores and the schedule\<close>

lemma score_certificates_ok:
  assumes "scores_ok c sc" "\<forall>x \<in> set xs. c_origin x \<in> set (ids c)"
  shows "scores_ok c (score_certificates d xs sc)"
  using assms unfolding score_certificates_def
  by (induction xs arbitrary: sc) (auto intro: add_score_ok)

lemma scores_ok_final: "scores_ok c (sc\<lparr>final_of_schedule := f\<rparr>) = scores_ok c sc"
  by (simp add: scores_ok_def)

lemma resolve_reputation_score_total:
  assumes wf: "nc_wf (bs_committee b)" and num: "0 < bs_num_sub_dags_per_schedule b" and sc: "scored b s"
    and xs: "\<forall>x \<in> set xs. c_origin x \<in> set (ids (bs_committee b))" and i: "i = 1 \<or> last_committed_sub_dag s \<noteq> None"
  shows "\<exists>sc. resolve_reputation_score b s xs i = Some sc \<and> scores_ok (bs_committee b) sc"
proof -
  let ?c = "bs_committee b" and ?n = "bs_num_sub_dags_per_schedule b"
  define reset where "reset \<longleftrightarrow> i = 1 \<or> i mod ?n = 0"
  have reset: "(if i = 1 then Some True else map_option (\<lambda>r. r = 0) (u64_rem i ?n)) = Some reset"
    using num by (simp add: reset_def u64_rem_def)
  obtain base where base: "(if reset then reputation_new ?c else map_option sd_reputation_score (last_committed_sub_dag s)) = Some base"
    "scores_ok ?c base"
  proof (cases reset)
    case False
    with i obtain sd where "last_committed_sub_dag s = Some sd" by (auto simp: reset_def)
    with that sc False show thesis by (auto simp: scored_def)
  qed (use that reputation_new_ok [OF wf] in auto)
  define scored_base where "scored_base = (case last_committed_sub_dag s of
      None \<Rightarrow> base | Some sd \<Rightarrow> score_certificates (c_digest (sd_leader sd)) xs base)"
  have ok: "scores_ok ?c scored_base"
    using base(2) score_certificates_ok [OF base(2) xs] by (simp add: scored_base_def split: option.splits)
  have rem: "u64_rem (u64_add i 1) ?n = Some (u64_add i 1 mod ?n)" using num by (simp add: u64_rem_def)
  let ?sc = "scored_base\<lparr>final_of_schedule := (u64_add i 1 mod ?n = 0)\<rparr>"
  have "total_authorities ?sc = nc_size ?c" using scores_total [OF wf, of ?sc] ok by (simp only: scores_ok_final)
  then have "resolve_reputation_score b s xs i = Some ?sc"
    unfolding resolve_reputation_score_def reset base(1) rem Let_def Option.bind.simps scored_base_def [symmetric]
    by (simp add: panic_unless_def)
  with ok show ?thesis by (simp add: scores_ok_final)
qed

lemma update_leader_schedule_total:
  assumes b: "protocol_ok ch U b" and sc: "scores_ok (bs_committee b) sc"
  shows "\<exists>changed b'. update_leader_schedule r sc (b\<lparr>bs_store := store\<rparr>) = Some (changed, b') \<and>
    protocol_ok ch U b' \<and> bs_committee b' = bs_committee b"
proof (cases "final_of_schedule sc")
  case True
  let ?c = "bs_committee b" and ?t = "bs_bad_nodes_stake_threshold b"
  have t: "?t \<le> 33" "unat ?t * stake_total ?c < 2 ^ 64" using b by (simp_all add: protocol_ok_def)
  obtain table where table: "swap_table_new ?c r sc ?t = Some table" "table_ok ?c ?t (ranking sc) table"
    by (rule swap_table_new_spec [OF protocol_okD(1,2) [OF b] t sc True])
  then have "schedule_ok ?c (update_leader_swap_table table (bs_leader_schedule b))"
    using b sc unfolding protocol_ok_def swaps_safe_def by (auto simp: schedule_ok_def update_leader_swap_table_def table_ok_def)
  with table(1) True b show ?thesis by (auto simp: update_leader_schedule_def protocol_ok_def)
next
  case False
  with b show ?thesis by (auto simp: update_leader_schedule_def protocol_ok_def)
qed

section \<open>Finding the leaders\<close>

lemma leader_rounds_even:
  assumes "even R"
  shows "\<forall>r \<in> set (leader_rounds m R). even r"
  using assms
proof (induction R rule: less_induct)
  case (less R)
  show ?case
  proof (cases "m + 4 \<le> R")
    case True
    with less(1) [of "R - 2"] less(2) show ?thesis by (simp add: leader_rounds_step)
  next
    case False
    then show ?thesis by (simp add: leader_rounds_base)
  qed
qed

lemma order_leaders_loop_total:
  assumes U: "universe U" and b: "protocol_ok ch U b" and dag: "part_of U g dag" and leader: "leader \<in> certs dag"
    and rs: "sorted_wrt (>) rs" "\<forall>r \<in> set rs. g < r \<and> 0 < r \<and> r < c_round leader \<and> even r"
  shows "\<exists>out. order_leaders_loop ch (bs_leader_schedule b) dag rs leader acc = Some out"
  using leader rs
proof (induction rs arbitrary: leader acc)
  case (Cons r rs)
  note p = protocol_okD [OF b]
  have r: "g < r" "0 < r" "r < c_round leader" "even r" using Cons(4) by auto
  obtain a where "schedule_leader ch (bs_leader_schedule b) r = Some a" "a \<in> set (authorities (bs_committee b))"
    using schedule_leader_member [OF p(1,2,5,6) r(4)] by blast
  with authority_id_member [OF p(1)] have a: "schedule_leader ch (bs_leader_schedule b) r = Some a" "authority_id a = Some (au_id a)" by auto
  note step = order_leaders_loop_step [OF U p(4) dag Cons(2) r(1-3) a, of rs acc]
  show ?case
  proof (cases "reached dag leader (r, au_id a)")
    case None
    with Cons(1) [OF Cons(2)] Cons(3,4) step show ?thesis by simp
  next
    case (Some q)
    then have q: "q \<in> certs dag" "c_round q = r"
      unfolding reached_iff(1) [OF part_of_inj(1) [OF U dag]] by (auto simp: slot_def)
    with Cons(1) [OF q(1)] Cons(3,4) step Some show ?thesis by simp
  qed
qed simp

lemma order_leaders_total:
  assumes U: "universe U" and ok: "machine_ok ch U (b, s)" and leader: "leader \<in> certs (state_dag s)"
    "committed_round (last_round s) < c_round leader" "even (c_round leader)"
  shows "\<exists>out. order_leaders ch b leader s = Some out"
proof -
  let ?m = "committed_round (last_round s)"
  have b: "protocol_ok ch U b" and s: "state_ok U s" using ok by (auto simp: machine_ok_def)
  have shape: "certs (state_dag s) \<subseteq> U" "gc_round (last_round s) \<le> ?m" "dag_ok (state_dag s)"
    using s by (auto simp: state_ok_def state_shape_def)
  have "c_round leader + 2 < 2 ^ 64" using U leader(1) shape(1) by (auto simp: universe_def rounds_fit_def)
  moreover have "2 \<le> c_round leader" using leader(2,3) by presburger
  ultimately have w: "u64_add ?m 2 = ?m + 2" "u64_sub (c_round leader) 2 = c_round leader - 2"
    using leader(2) by (auto simp: u64_add_fits u64_sub_fits)
  have rounds: "\<forall>r \<in> set (leader_rounds ?m (c_round leader)). gc_round (last_round s) < r \<and> 0 < r \<and> r < c_round leader \<and> even r"
    using leader_rounds_above [OF shape(2), of "c_round leader"] leader_rounds_even [OF leader(3)] by blast
  obtain out where loop: "order_leaders_loop ch (bs_leader_schedule b) (state_dag s) (leader_rounds ?m (c_round leader)) leader [leader] = Some out"
    using order_leaders_loop_total [OF U b state_ok_part_of [OF s] leader(1) leader_rounds_props(2) rounds] by blast
  have "leaders_ok (state_dag s) ?m [leader]" "\<forall>r \<in> set (leader_rounds ?m (c_round leader)). ?m < r \<and> r < c_round leader"
    using leader leader_rounds_above [of ?m ?m "c_round leader"] by (auto simp: leaders_ok_def)
  with order_leaders_loop_spec [OF shape(3) loop leader_rounds_props(2)] have "set out \<subseteq> certs (state_dag s)"
    by (auto simp: leaders_ok_def)
  then have "list_all (\<lambda>x. nc_authority (bs_committee b) (c_origin x) \<noteq> None) out"
    using shape(1) protocol_okD(1,3) [OF b] authority_safe_member
    by (fastforce simp: list_all_iff nc_authority_def authority_safe_def)
  with loop leader(3) show ?thesis
    unfolding order_leaders_def w by (simp add: panic_unless_def leader_rounds_def even_iff_mod_2_eq_zero Let_def)
qed

section \<open>Committing without a panic\<close>

text \<open>The sub-dag of one leader.\<close>

lemma commit_one_total:
  assumes U: "universe U" and ok: "machine_ok ch U (b, s)" and leader: "leader \<in> certs (state_dag s)"
    "committed_round (last_round s) < c_round leader" "even (c_round leader)"
  obtains seq sc where "order_dag leader s = Some seq"
    "resolve_reputation_score b (fold state_update seq s) seq (next_sub_dag_index s) = Some sc"
    "scores_ok (bs_committee b) sc"
    "state_ok U (fold state_update seq s)" "scored b (fold state_update seq s)"
    "\<forall>sd. sd = sub_dag_new seq leader (next_sub_dag_index s) sc (last_committed_sub_dag (fold state_update seq s)) \<longrightarrow>
       commit_step s sd ((fold state_update seq s)\<lparr>last_committed_sub_dag := Some sd\<rparr>)"
proof -
  have b: "protocol_ok ch U b" and s: "state_ok U s" "scored b s" using ok by (auto simp: machine_ok_def)
  have shape: "state_shape U s" using s(1) by (simp add: state_ok_def)
  obtain seq where seq: "order_dag leader s = Some seq" "set seq \<subseteq> certs (state_dag s)"
    by (rule order_dag_ok [OF U shape leader(1,2)])
  have origins: "\<forall>x \<in> set seq. c_origin x \<in> set (ids (bs_committee b))"
    using seq(2) shape protocol_okD(3) [OF b] by (auto simp: state_shape_def)
  have "next_sub_dag_index s = 1 \<or> last_committed_sub_dag s \<noteq> None"
    by (auto simp: next_sub_dag_index_def u64_add_def)
  moreover have scored: "scored b (fold state_update seq s)" using s(2) by (simp add: scored_def fold_update_simps)
  ultimately obtain sc where
    sc: "resolve_reputation_score b (fold state_update seq s) seq (next_sub_dag_index s) = Some sc" "scores_ok (bs_committee b) sc"
    using resolve_reputation_score_total [OF protocol_okD(1,7) [OF b] scored origins] by (auto simp: fold_update_simps)
  have step: "commit_step s sd ((fold state_update seq s)\<lparr>last_committed_sub_dag := Some sd\<rparr>)"
    if "sd = sub_dag_new seq leader (next_sub_dag_index s) sc (last_committed_sub_dag (fold state_update seq s))" for sd
    using seq(1) leader unfolding that commit_step_def sub_dag_new_def by (simp add: Let_def fold_update_simps)
  have "state_ok U (fold state_update seq s)" using commit_step_spec(1) [OF U s(1) step [OF refl]] by simp
  with that seq(1) sc scored step show thesis by blast
qed

lemma commit_leaders_loop_total:
  assumes U: "universe U" and "machine_ok ch U (b, s)" "leaders_ok (state_dag s) (committed_round (last_round s)) ls"
  shows "\<exists>res b' s'. commit_leaders_loop db_ok ls b s acc = Some (res, b', s') \<and> machine_ok ch U (b', s') \<and>
    (\<forall>e. res = Inl e \<longrightarrow> (\<exists>i. \<not> db_ok i))"
  using assms(2,3)
proof (induction ls arbitrary: b s acc)
  case (Cons leader ls)
  have b: "protocol_ok ch U b" and s: "state_ok U s" using Cons(2) by (auto simp: machine_ok_def)
  have leader: "leader \<in> certs (state_dag s)" "committed_round (last_round s) < c_round leader" "even (c_round leader)"
    using Cons(3) by (auto simp: leaders_ok_def)
  obtain seq sc where seq: "order_dag leader s = Some seq"
    and sc: "resolve_reputation_score b (fold state_update seq s) seq (next_sub_dag_index s) = Some sc" "scores_ok (bs_committee b) sc"
    and s1: "state_ok U (fold state_update seq s)" "scored b (fold state_update seq s)"
    and step: "\<forall>sd. sd = sub_dag_new seq leader (next_sub_dag_index s) sc (last_committed_sub_dag (fold state_update seq s)) \<longrightarrow>
       commit_step s sd ((fold state_update seq s)\<lparr>last_committed_sub_dag := Some sd\<rparr>)"
    by (rule commit_one_total [OF U Cons(2) leader])
  define t where "t = fold state_update seq s"
  define sd where "sd = sub_dag_new seq leader (next_sub_dag_index s) sc (last_committed_sub_dag t)"
  define s2 where "s2 = t\<lparr>last_committed_sub_dag := Some sd\<rparr>"
  have st: "commit_step s sd s2" using step [folded t_def] sd_def by (simp add: s2_def)
  have sdl: "sd_leader sd = leader" "sd_reputation_score sd = sc" by (simp_all add: sd_def sub_dag_new_def Let_def)
  note run = commit_leaders_loop.simps(2) [of db_ok leader ls b s acc, unfolded Let_def seq Option.bind.simps,
      folded t_def, unfolded sc(1) [folded t_def] Option.bind.simps, folded sd_def, folded s2_def]
  show ?case
  proof (cases "write_consensus_state db_ok (last_committed t) sd (bs_store b)")
    case (Inl e)
    then have "\<not> db_ok (sd_sub_dag_index sd)" by (auto simp: write_consensus_state_def Let_def split: if_splits)
    moreover have "machine_ok ch U (b, t)" using b s1 by (simp add: machine_ok_def t_def)
    ultimately show ?thesis using Inl unfolding run by auto
  next
    case (Inr store)
    obtain changed b2 where up: "update_leader_schedule (c_round leader) sc (b\<lparr>bs_store := store\<rparr>) = Some (changed, b2)"
      "protocol_ok ch U b2" "bs_committee b2 = bs_committee b"
      using update_leader_schedule_total [OF b sc(2)] by blast
    have ok2: "machine_ok ch U (b2, s2)"
      using up commit_step_spec(1) [OF U s st] sc(2) sdl(2) by (simp add: machine_ok_def scored_def s2_def)
    show ?thesis
    proof (cases "changed \<and> ls \<noteq> []")
      case True
      with ok2 Inr up(1) show ?thesis unfolding run by auto
    next
      case False
      have "leaders_ok (state_dag s2) (committed_round (last_round s2)) ls"
        using leaders_ok_step [OF U s st, unfolded sdl(1), OF Cons(3)] commit_step_spec(2) [OF U s st] sdl(1) by simp
      from Cons(1) [OF ok2 this, of "acc @ [sd]"] False Inr up(1) show ?thesis unfolding run by auto
    qed
  qed
qed simp

lemma machine_ok_leader:
  assumes "machine_ok ch U (b, s)" "even r"
  shows "\<exists>a found. leader_certificate ch (bs_leader_schedule b) r (state_dag s) = Some (a, found) \<and> a \<in> set (authorities (bs_committee b))"
proof -
  have b: "protocol_ok ch U b" using assms(1) by (simp add: machine_ok_def)
  from schedule_leader_member [OF protocol_okD(1,2,5,6) [OF b] assms(2)] obtain a where
    "schedule_leader ch (bs_leader_schedule b) r = Some a" "a \<in> set (authorities (bs_committee b))" by blast
  with authority_id_member [OF protocol_okD(1) [OF b]] show ?thesis by (simp add: leader_certificate_def)
qed

lemma commit_leader_total:
  assumes U: "universe U" and ok: "machine_ok ch U (b, s)" and r: "committed_round (last_round s) < r" "even r" "r + 1 < 2 ^ 64"
    and row: "map_of (state_dag s) (r + 1) \<noteq> None"
  shows "\<exists>res b' s'. commit_leader ch db_ok r b s = Some (res, b', s') \<and> machine_ok ch U (b', s') \<and>
    (\<forall>e. res = Inl e \<longrightarrow> (\<exists>i. \<not> db_ok i))"
proof -
  obtain a found where lc: "leader_certificate ch (bs_leader_schedule b) r (state_dag s) = Some (a, found)"
    using machine_ok_leader [OF ok r(2)] by blast
  from row obtain table where table: "map_of (state_dag s) (r + 1) = Some table" by blast
  have s: "state_ok U s" using ok by (simp add: machine_ok_def)
  show ?thesis
  proof (cases found)
    case None
    with lc ok show ?thesis by (simp add: commit_leader_def)
  next
    case (Some leader)
    have leader: "leader \<in> certs (state_dag s)" "c_round leader = r"
      using leader_certificate_spec [of "state_dag s"] lc Some s by (auto simp: state_ok_def state_shape_def)
    obtain ls where ls: "order_leaders ch b leader s = Some ls" using order_leaders_total [OF U ok leader(1)] leader(2) r by auto
    have "leaders_ok (state_dag s) (committed_round (last_round s)) ls"
      using order_leaders_spec [OF U s ls leader(1)] leader(2) r(1) by simp
    from commit_leaders_loop_total [OF U ok this] lc Some table ls ok r(3) show ?thesis
      by (auto simp: commit_leader_def u64_add_fits)
  qed
qed

text \<open>Commits leave the rows above the last committed round.\<close>

lemma commits_rows:
  assumes "commits ch U (b, s) sds (b', s')" "universe U" "state_ok U s" "committed_round (last_round s') < q"
  shows "map_of (state_dag s') q = map_of (state_dag s) q"
  using assms
proof (induction sds arbitrary: b s)
  case (Cons sd sds)
  from Cons(2) obtain b1 s1 where step: "commit_step s sd s1" and rest: "commits ch U (b1, s1) sds (b', s')"
    by (rule commits_Cons)
  note spec = commit_step_spec [OF Cons(3,4) step]
  have "c_round (sd_leader sd) < q" using commits_mono [OF rest Cons(3) spec(1)] spec(2) Cons(5) by simp
  with Cons(1) [OF rest Cons(3) spec(1) Cons(5)] spec(16) [of q] show ?case by simp
qed (auto elim: commits_NilE)

lemma commit_retry_total:
  assumes U: "universe U" and r: "even r" "r + 1 < 2 ^ 64"
    and "machine_ok ch U (b, s)" "committed_round (last_round s) < r" "map_of (state_dag s) (r + 1) \<noteq> None"
      "r - committed_round (last_round s) \<le> fuel"
  shows "\<exists>res b' s'. commit_retry fuel ch db_ok r b s acc = Some (res, b', s') \<and> machine_ok ch U (b', s') \<and>
    (\<forall>e. res = Inl e \<longrightarrow> (\<exists>i. \<not> db_ok i))"
  using assms(4-)
proof (induction fuel arbitrary: b s acc)
  case (Suc fuel)
  obtain res b1 s1 where one: "commit_leader ch db_ok r b s = Some (res, b1, s1)" "machine_ok ch U (b1, s1)"
    "\<forall>e. res = Inl e \<longrightarrow> (\<exists>i. \<not> db_ok i)"
    using commit_leader_total [OF U Suc(2,3) r Suc(4)] by blast
  have s: "state_ok U s" using Suc(2) by (simp add: machine_ok_def)
  note spec = commit_leader_refines [OF U s Suc(3) r(2) one(1)]
  show ?case
  proof (cases "\<exists>sds. res = Inr (ScheduleChanged, sds)")
    case True
    then obtain sds where sds: "res = Inr (ScheduleChanged, sds)" by blast
    from spec(2) [OF sds] have up: "committed_round (last_round s) < committed_round (last_round s1)" "committed_round (last_round s1) < r" by auto
    have "commits ch U (b, s) sds (b1, s1)" using spec(1) sds by (auto simp: extends_def)
    from commits_rows [OF this U s, of "r + 1"] up(2) Suc(4) have "map_of (state_dag s1) (r + 1) \<noteq> None" by simp
    from Suc(1) [OF one(2) up(2) this] up Suc(5) sds one(1) show ?thesis by simp
  next
    case False
    with one show ?thesis by (cases res) auto
  qed
qed simp

section \<open>Processing without a panic\<close>

text \<open>The parents of a certificate are in the dag, unless they are garbage collected.\<close>

definition supplied :: "certificate \<Rightarrow> consensus_state \<Rightarrow> bool" where
  "supplied x s \<longleftrightarrow> (gc_round (last_round s) + 1 < c_round x \<longrightarrow>
     (\<forall>p \<in> set (c_parents x). \<exists>y \<in> certs (state_dag s). c_digest y = p \<and> c_round y + 1 = c_round x))"

lemma check_parents_total:
  assumes U: "universe U" "well_connected c U" and s: "state_ok U s" and x: "x \<in> U" "supplied x s" "gc_round (last_round s) < c_round x"
  shows "check_parents x (state_dag s) (gc_round (last_round s)) = Some ()"
proof -
  let ?g = "gc_round (last_round s)"
  have dag: "dag_ok (state_dag s)" using s by (simp add: state_ok_def state_shape_def)
  have fit: "c_round x + 2 < 2 ^ 64" using U(1) x(1) by (auto simp: universe_def rounds_fit_def)
  show ?thesis
  proof (cases "?g + 1 < c_round x")
    case True
    then have w: "u64_add ?g 1 = ?g + 1" "u64_sub (c_round x) 1 = c_round x - 1" "1 < c_round x"
      using fit by (auto simp: u64_add_fits u64_sub_fits)
    have parents: "\<exists>y \<in> certs (state_dag s). c_digest y = p \<and> c_round y + 1 = c_round x" if "p \<in> set (c_parents x)" for p
      using x(2) True that by (auto simp: supplied_def)
    from quorum_parents_ex [OF U(2) x(1) w(3)] obtain p where "p \<in> set (c_parents x)" by blast
    from parents [OF this] obtain y where "y \<in> certs (state_dag s)" "c_round y + 1 = c_round x" by blast
    then obtain t where "map_of (state_dag s) (c_round y) = Some t" "c_round y + 1 = c_round x"
      unfolding dag_ok_lookup [OF dag] by blast
    then have t: "map_of (state_dag s) (c_round x - 1) = Some t" by (metis add_diff_cancel_right')
    have "p \<in> set (map (\<lambda>(_, (d, _)). d) t)" if p: "p \<in> set (c_parents x)" for p
    proof -
      from parents [OF p] obtain y where y: "y \<in> certs (state_dag s)" "c_digest y = p" "c_round y + 1 = c_round x" by blast
      then obtain u where y: "map_of (state_dag s) (c_round y) = Some u" "map_of u (c_origin y) = Some (c_digest y, y)"
        "c_digest y = p" "c_round y + 1 = c_round x" unfolding dag_ok_lookup [OF dag] by blast
      then have "u = t" using t by (metis add_diff_cancel_right' option.inject)
      with map_of_SomeD [OF y(2)] y(3) show ?thesis by force
    qed
    then show ?thesis using True t unfolding check_parents_def w by (simp add: panic_unless_def list_all_iff)
  next
    case False
    with x(3) fit have "c_round x = ?g + 1" "u64_add ?g 1 = ?g + 1" by (auto simp: u64_add_fits)
    then show ?thesis by (simp add: check_parents_def)
  qed
qed

lemma try_insert_total:
  assumes "universe U" "well_connected c U" "state_ok U s" "x \<in> U" "supplied x s"
  shows "\<exists>r s1. try_insert x s = Some (r, s1)"
  using check_parents_total [OF assms] by (simp add: try_insert_def try_insert_in_dag_def Let_def)

lemma machine_ok_insert:
  assumes "universe U" "machine_ok ch U (b, s)" "x \<in> U" "try_insert x s = Some (r, s1)" "config b1 = config b"
  shows "machine_ok ch U (b1, s1)"
proof -
  have s: "state_ok U s" "protocol_ok ch U b" "scored b s" using assms(2) by (auto simp: machine_ok_def)
  note spec = try_insert_spec [OF assms(1) s(1) assms(3,4)]
  have "last_committed_sub_dag s1 = last_committed_sub_dag s" by (subst spec(2)) simp
  with s(3) config_eqD(1) [OF assms(5)] have "scored b1 s1" by (simp add: scored_def)
  with spec(1) s(2) protocol_ok_config [OF assms(5)] show ?thesis by (simp add: machine_ok_def)
qed

lemma report_leader_total:
  assumes "machine_ok ch U (b, s)" "r < 2 ^ 64"
  shows "\<exists>b1. report_leader_on_time_metrics ch r b = Some b1 \<and> config b1 = config b"
proof -
  have b: "protocol_ok ch U b" using assms(1) by (simp add: machine_ok_def)
  have "\<exists>a. schedule_leader ch (bs_leader_schedule b) (u64_sub r 2) = Some a \<and> au_initialised a" if "r mod 2 = 0" "2 < r"
  proof -
    have "even (u64_sub r 2)" using that assms(2) by (simp add: u64_sub_fits even_iff_mod_2_eq_zero [symmetric])
    from schedule_leader_member [OF protocol_okD(1,2,5,6) [OF b] this] obtain a where
      a: "schedule_leader ch (bs_leader_schedule b) (u64_sub r 2) = Some a" "a \<in> set (authorities (bs_committee b))" by blast
    with authority_id_member [OF protocol_okD(1) [OF b]] show ?thesis
      by (fastforce simp: authority_id_def panic_unless_def split: if_splits)
  qed
  then show ?thesis
    by (cases "r > bs_max_inserted_certificate_round b \<and> r mod 2 = 0 \<and> r > 2")
      (auto simp: report_leader_on_time_metrics_def panic_unless_def config_def)
qed

text \<open>The certificate is inserted and, when it is above a leader that is not committed, the retry loop runs.\<close>

lemma process_certificate_total:
  assumes U: "universe U" and ok: "machine_ok ch U (b, s)" and x: "x \<in> U" "supplied x s"
  shows "\<exists>res b' s'. process_certificate ch db_ok x b s = Some (res, b', s') \<and> machine_ok ch U (b', s') \<and>
    (\<forall>e. res = Inl e \<longrightarrow> (\<exists>i. \<not> db_ok i))"
proof -
  have s: "state_ok U s" and wc: "well_connected (bs_committee b) U"
    using ok by (auto simp: machine_ok_def dest: protocol_okD(4))
  obtain ins s1 where ins: "try_insert x s = Some (ins, s1)" using try_insert_total [OF U wc s x] by blast
  note spec = try_insert_spec [OF U s x(1) ins]
  have fit: "c_round x + 2 < 2 ^ 64" using U x(1) by (auto simp: universe_def rounds_fit_def)
  show ?thesis
  proof (cases "ins = Inr True")
    case True
    then have gc: "gc_round (last_round s) < c_round x" using spec(4) by simp
    obtain b1 where b1: "report_leader_on_time_metrics ch (c_round x) b = Some b1" "config b1 = config b"
      using report_leader_total [OF ok, of "c_round x"] fit by auto
    note ok1 = machine_ok_insert [OF U ok x(1) ins b1(2)]
    let ?r = "u64_sub (c_round x) 1"
    have r: "?r + 1 = c_round x" using gc fit by (simp add: u64_sub_fits)
    have "x \<in> certs (state_dag s1)" using spec(3) gc by simp
    moreover have "dag_ok (state_dag s1)" using spec(1) by (simp add: state_ok_def state_shape_def)
    ultimately have row: "map_of (state_dag s1) (?r + 1) \<noteq> None" unfolding r by (auto simp: dag_ok_lookup)
    show ?thesis
    proof (cases "?r mod 2 \<noteq> 0 \<or> ?r < 2 \<or> ?r \<le> committed_round (last_round s1)")
      case True
      with \<open>ins = Inr True\<close> ins b1(1) ok1 show ?thesis by (auto simp: process_certificate_def Let_def)
    next
      case False
      then have r': "even ?r" "committed_round (last_round s1) < ?r" "\<not> ?r < 2" "?r mod 2 = 0" "?r + 1 < 2 ^ 64"
        using r fit by (auto simp: even_iff_mod_2_eq_zero)
      obtain res b2 s2 where "commit_retry (Suc ?r) ch db_ok ?r b1 s1 [] = Some (res, b2, s2)" "machine_ok ch U (b2, s2)"
        "\<forall>e. res = Inl e \<longrightarrow> (\<exists>i. \<not> db_ok i)"
        using commit_retry_total [OF U r'(1,5) ok1 r'(2) row, of "Suc ?r"] diff_le_self le_SucI by metis
      with True ins b1(1) r' show ?thesis
        by (cases res) (auto simp: process_certificate_def Let_def simp del: commit_retry.simps)
    qed
  next
    case False
    with spec(4) have "ins = Inr False" by auto
    with ins machine_ok_insert [OF U ok x(1) ins refl] show ?thesis by (simp add: process_certificate_def)
  qed
qed

section \<open>Progress\<close>

text \<open>A leader with support is committed, together with the leaders before it, or the schedule changes on
  the way.\<close>

lemma commit_leader_progress:
  assumes U: "universe U" and ok: "machine_ok ch U (b, s)" and r: "committed_round (last_round s) < r" "even r" "r + 1 < 2 ^ 64"
    and lc: "leader_certificate ch (bs_leader_schedule b) r (state_dag s) = Some (a, Some leader)"
    and support: "map_of (state_dag s) (r + 1) = Some table"
      "nc_validity_threshold (bs_committee b) \<le> leader_support (bs_committee b) table leader"
    and db: "\<forall>i. db_ok i"
  shows "\<exists>out sds b' s'. commit_leader ch db_ok r b s = Some (Inr (out, sds), b', s') \<and> sds \<noteq> [] \<and>
    (out = ScheduleChanged \<or> committed_round (last_round s') = r)"
proof -
  have s: "state_ok U s" using ok by (simp add: machine_ok_def)
  have "map_of (state_dag s) (r + 1) \<noteq> None" using support(1) by simp
  from commit_leader_total [OF U ok r this, of db_ok] db obtain out sds b' s' where
    run: "commit_leader ch db_ok r b s = Some (Inr (out, sds), b', s')" by (metis sum.exhaust surj_pair)
  show ?thesis
  proof (rule commit_leader_cases [OF U s r(1,3) run])
    fix o1 assume "Inr (out, sds) = (Inr (o1, []) :: consensus_error + outcome \<times> committed_sub_dag list)" "o1 \<noteq> ScheduleChanged" "b' = b" "s' = s"
    with run lc support r(3) obtain ls where "commit_leaders_loop db_ok ls b s [] = Some (Inr (o1, []), b, s)"
      "order_leaders ch b leader s = Some ls"
      by (auto simp: commit_leader_def u64_add_fits bind_eq_Some_conv split: if_splits)
    moreover have "leader \<in> certs (state_dag s)" "c_round leader = r"
      using leader_certificate_spec [OF _ lc] s by (auto simp: state_ok_def state_shape_def)
    moreover have "elected ch U (b, s) ls"
      using order_leaders_rounds(1) [OF U s calculation(2,3)] lc support calculation(4) r(1) unfolding elected_def chain_def by auto
    ultimately have False
      using order_leaders_spec [OF U s, of ch b leader ls] commit_leaders_loop_refines [OF U s, of ls ch b db_ok "[]" "Inr (o1, [])" b s] r(1)
      by (auto simp: stops_at_def)
    then show ?thesis ..
  next
    fix l ls assume l: "c_round l = r" and ls: "ls \<noteq> []" "last ls = l"
      "leaders_ok (state_dag s) (committed_round (last_round s)) ls" "elected ch U (b, s) ls"
      and loop: "commit_leaders_loop db_ok ls b s [] = Some (Inr (out, sds), b', s')"
    note ref = commit_leaders_loop_refines [OF U s ls(3) _ loop, of ch]
    from ref ls(4) have new: "commits ch U (b, s) sds (b', s')" "map sd_leader sds = take (length sds) ls" "sds \<noteq> []"
      "length sds < length ls \<or> out \<noteq> ScheduleChanged \<longrightarrow> length sds < length ls \<longrightarrow> out = ScheduleChanged"
      using ls(1) by (auto simp: extends_def stops_at_def split: if_splits)
    have "committed_round (last_round s') = r" if "out \<noteq> ScheduleChanged"
    proof -
      from that new(4) have "map sd_leader sds = ls" using new(2) by simp
      then have "sd_leader (last sds) = l" using new(3) ls(2) by (metis last_map)
      with commits_round [OF new(1) U s new(3)] l show ?thesis by (simp add: sd_leader_round_def)
    qed
    with run new(3) show ?thesis by blast
  qed
qed

lemma process_certificate_progress:
  assumes U: "universe U" and ok: "machine_ok ch U (b, s)" and x: "x \<in> U" "try_insert x s = Some (ins, s1)" "c_round x = r + 1"
    and r: "committed_round (last_round s) < r" "even r"
    and lc: "leader_certificate ch (bs_leader_schedule b) r (state_dag s1) = Some (a, Some leader)"
    and support: "map_of (state_dag s1) (r + 1) = Some table"
      "nc_validity_threshold (bs_committee b) \<le> leader_support (bs_committee b) table leader"
    and db: "\<forall>i. db_ok i"
  shows "\<exists>sds b' s'. process_certificate ch db_ok x b s = Some (Inr (Commit, sds), b', s') \<and> sds \<noteq> [] \<and>
    committed_round (last_round s) < committed_round (last_round s')"
proof -
  have s: "state_ok U s" using ok by (simp add: machine_ok_def)
  note spec = try_insert_spec [OF U s x(1,2)] and same = try_insert_same [OF x(2)]
  have fit: "r + 3 < 2 ^ 64" using U x(1,3) by (auto simp: universe_def rounds_fit_def)
  have "gc_round (last_round s) < c_round x" using s r(1) x(3) by (auto simp: state_ok_def state_shape_def)
  moreover have "\<not> already_committed (last_committed s) x"
    using not_already_committed [of U s x] s r(1) x(3) by (simp add: state_ok_def)
  ultimately have ins: "ins = Inr True" using spec(4) by simp
  obtain b1 where b1: "report_leader_on_time_metrics ch (c_round x) b = Some b1" "config b1 = config b"
    using report_leader_total [OF ok, of "c_round x"] fit x(3) by auto
  note ok1 = machine_ok_insert [OF U ok x(1,2) b1(2)]
  have c: "bs_committee b1 = bs_committee b" "bs_leader_schedule b1 = bs_leader_schedule b" using config_eqD [OF b1(2)] by auto
  have r1: "committed_round (last_round s1) < r" "r + 1 < 2 ^ 64" using r(1) same(2) fit by auto
  obtain out sds b2 s2 where one: "commit_leader ch db_ok r b1 s1 = Some (Inr (out, sds), b2, s2)" "sds \<noteq> []"
    using commit_leader_progress [OF U ok1 r1(1) r(2) r1(2) _ support(1) _ db] lc support(2) unfolding c by blast
  have "map_of (state_dag s1) (r + 1) \<noteq> None" using support(1) by simp
  then obtain res b3 s3 where retry: "commit_retry (Suc r) ch db_ok r b1 s1 [] = Some (res, b3, s3)" "\<forall>e. res = Inl e \<longrightarrow> (\<exists>i. \<not> db_ok i)"
    using commit_retry_total [OF U r(2) r1(2) ok1 r1(1), of "Suc r"] diff_le_self le_SucI by metis
  then obtain out' all where res: "res = Inr (out', all)" using db by (cases res) auto
  from commit_retry_refines [OF U spec(1) r1 retry(1)] res have commits: "commits ch U (b1, s1) all (b3, s3)"
    by (auto simp: extends_def)
  have "all \<noteq> []"
  proof (cases "out = ScheduleChanged")
    case True
    with one retry(1) res have rest: "commit_retry r ch db_ok r b2 s2 sds = Some (Inr (out', all), b3, s3)" by simp
    note two = commit_leader_refines [OF U spec(1) r1 one(1)]
    from two have "state_ok U s2" "committed_round (last_round s2) < r" using True by (auto simp: extends_def)
    from commit_retry_refines [OF U this r1(2) rest] one(2) show ?thesis by (auto simp: extends_def)
  next
    case False
    with one retry(1) res show ?thesis by simp
  qed
  with commits_round [OF commits U spec(1) this] have up: "committed_round (last_round s1) < committed_round (last_round s3)" by simp
  have "u64_sub (c_round x) 1 = r" using x(3) fit by (simp add: u64_sub_fits)
  moreover have "\<not> r < 2" "r mod 2 = 0" using r by presburger+
  ultimately have "process_certificate ch db_ok x b s = Some (Inr (Commit, all), b3, s3)"
    using x(2) ins b1(1) r1(1) retry(1) res \<open>all \<noteq> []\<close> by (simp add: process_certificate_def Let_def del: commit_retry.simps)
  with \<open>all \<noteq> []\<close> up same(2) show ?thesis by auto
qed

section \<open>The event loop\<close>

text \<open>Certificates arrive after their parents.\<close>

fun in_order :: "certificate set \<Rightarrow> certificate list \<Rightarrow> bool" where
  "in_order D [] \<longleftrightarrow> True"
| "in_order D (x # xs) \<longleftrightarrow> (c_round x \<le> 1 \<or> (\<forall>p \<in> set (c_parents x). \<exists>y \<in> D. c_digest y = p \<and> c_round y + 1 = c_round x)) \<and>
     in_order (insert x D) xs"

definition holds :: "certificate set \<Rightarrow> consensus_state \<Rightarrow> bool" where
  "holds D s \<longleftrightarrow> (\<forall>y \<in> D. gc_round (last_round s) < c_round y \<longrightarrow> y \<in> certs (state_dag s))"

lemma commits_holds:
  assumes "commits ch U (b, s) sds (b', s')" "universe U" "state_ok U s" "holds D s"
  shows "holds D s'"
  using assms
proof (induction sds arbitrary: b s)
  case (Cons sd sds)
  from Cons(2) obtain b1 s1 where step: "commit_step s sd s1" and rest: "commits ch U (b1, s1) sds (b', s')"
    by (rule commits_Cons)
  note spec = commit_step_spec [OF Cons(3,4) step]
  have gc: "gc_round (last_round s1) = c_round (sd_leader sd) - gc_depth s" "gc_round (last_round s) = committed_round (last_round s) - gc_depth s"
    "committed_round (last_round s) < c_round (sd_leader sd)"
    using spec(1-3) Cons(4) step by (auto simp: state_ok_def state_shape_def commit_step_def)
  have "holds D s1"
    unfolding holds_def
  proof (intro ballI impI)
    fix y assume y: "y \<in> D" "gc_round (last_round s1) < c_round y"
    then have "y \<in> certs (state_dag s)" using Cons(5) gc by (auto simp: holds_def)
    with spec(6) y(2) gc(1) show "y \<in> certs (state_dag s1)" by simp
  qed
  with Cons(1) [OF rest Cons(3) spec(1)] show ?case by simp
qed (auto elim: commits_NilE)

lemma commits_gc_mono:
  assumes "commits ch U (b, s) sds (b', s')" "universe U" "state_ok U s"
  shows "gc_round (last_round s) \<le> gc_round (last_round s')"
  using assms
proof (induction sds arbitrary: b s)
  case (Cons sd sds)
  from Cons(2) obtain b1 s1 where step: "commit_step s sd s1" and rest: "commits ch U (b1, s1) sds (b', s')"
    by (rule commits_Cons)
  note spec = commit_step_spec [OF Cons(3,4) step]
  have "gc_round (last_round s) \<le> gc_round (last_round s1)"
    using spec(1-3) Cons(4) step by (auto simp: state_ok_def state_shape_def commit_step_def)
  with Cons(1) [OF rest Cons(3) spec(1)] show ?case by simp
qed (auto elim: commits_NilE)

text \<open>The assertion of the event loop holds: the round reported to the primary is the last committed one.\<close>

lemma run_step_assertion:
  assumes U: "universe U" and s: "state_ok U s" and x: "x \<in> U" "c_epoch x = nc_epoch (bs_committee b)"
    and p: "process_certificate ch db_ok x b s = Some (res, b', s')"
  shows "\<exists>r. run_step ch db_ok x b s = Some (r, b', s') \<and>
    (case res of Inl e \<Rightarrow> r = Inl e | Inr (out, sds) \<Rightarrow> \<exists>msg. r = Inr (sds, msg))"
proof (cases res)
  case (Inl e)
  with p x(2) show ?thesis by (simp add: run_step_def)
next
  case (Inr q)
  obtain out sds where q: "q = (out, sds)" by (cases q)
  obtain s1 ins b1 where ins: "try_insert x s = Some (ins, s1)" and ext: "extends ch U (b1, s1) [] (res, b', s')"
    by (rule process_certificate_refines [OF U s x(1) p])
  note ok = try_insert_spec(1) [OF U s x(1) ins]
  show ?thesis
  proof (cases "concat (map sd_certificates sds) = []")
    case True
    with p x(2) Inr q show ?thesis unfolding run_step_def by (simp add: Let_def)
  next
    case False
    then have "commits ch U (b1, s1) sds (b', s')" "sds \<noteq> []" using ext Inr q by (auto simp: extends_def)
    from commits_round [OF this(1) U ok this(2)] have
      "committed_round (last_round s') = fold max (map c_round (concat (map sd_certificates sds))) 0" by (simp add: sequenced_def)
    with False p x(2) Inr q show ?thesis unfolding run_step_def by (simp add: Let_def panic_unless_def del: concat_eq_Nil_conv)
  qed
qed

lemma run_step_supplied:
  assumes U: "universe U" and ok: "machine_ok ch U (b, s)" and x: "x \<in> U" "c_epoch x = nc_epoch (bs_committee b)"
    and order: "holds D s" "supplied x s"
  shows "\<exists>r b' s'. run_step ch db_ok x b s = Some (r, b', s') \<and> machine_ok ch U (b', s') \<and>
    (\<forall>e. r = Inl e \<longrightarrow> (\<exists>i. \<not> db_ok i)) \<and> (\<forall>out. r = Inr out \<longrightarrow> holds (insert x D) s' \<and> bs_committee b' = bs_committee b \<and>
      gc_round (last_round s) \<le> gc_round (last_round s'))"
proof -
  have s: "state_ok U s" using ok by (simp add: machine_ok_def)
  from process_certificate_total [OF U ok x(1) order(2)] obtain res b' s' where
    p: "process_certificate ch db_ok x b s = Some (res, b', s')" "machine_ok ch U (b', s')" "\<forall>e. res = Inl e \<longrightarrow> (\<exists>i. \<not> db_ok i)"
    by blast
  obtain s1 ins b1 where ins: "try_insert x s = Some (ins, s1)" "config b1 = config b" and ext: "extends ch U (b1, s1) [] (res, b', s')"
    by (rule process_certificate_refines [OF U s x(1) p(1)])
  note spec = try_insert_spec [OF U s x(1) ins(1)]
  have h1: "holds (insert x D) s1" and last: "last_round s1 = last_round s"
    using order(1) spec(3) try_insert_same(2) [OF ins(1)] by (auto simp: holds_def)
  have held: "holds (insert x D) s' \<and> bs_committee b' = bs_committee b \<and> gc_round (last_round s) \<le> gc_round (last_round s')"
    if "res = Inr (out, sds)" for out sds
  proof -
    have c: "commits ch U (b1, s1) sds (b', s')" using ext that by (auto simp: extends_def)
    from commits_holds [OF c U spec(1) h1] trace_committee [OF trace_commits [OF c trace_start]] config_eqD(1) [OF ins(2)]
      commits_gc_mono [OF c U spec(1)] last
    show ?thesis by simp
  qed
  from run_step_assertion [OF U s x p(1)] obtain r where r: "run_step ch db_ok x b s = Some (r, b', s')"
    "case res of Inl e \<Rightarrow> r = Inl e | Inr (out, sds) \<Rightarrow> \<exists>msg. r = Inr (sds, msg)" by blast
  with p(2,3) held show ?thesis by (cases res) auto
qed

lemma run_step_total:
  assumes U: "universe U" and ok: "machine_ok ch U (b, s)" and x: "x \<in> U" "c_epoch x = nc_epoch (bs_committee b)"
    and order: "holds D s" "c_round x \<le> 1 \<or> (\<forall>p \<in> set (c_parents x). \<exists>y \<in> D. c_digest y = p \<and> c_round y + 1 = c_round x)"
  shows "\<exists>r b' s'. run_step ch db_ok x b s = Some (r, b', s') \<and> machine_ok ch U (b', s') \<and>
    (\<forall>e. r = Inl e \<longrightarrow> (\<exists>i. \<not> db_ok i)) \<and> (\<forall>out. r = Inr out \<longrightarrow> holds (insert x D) s' \<and> bs_committee b' = bs_committee b)"
proof -
  have "supplied x s"
    unfolding supplied_def
  proof (intro impI ballI)
    fix p assume p: "gc_round (last_round s) + 1 < c_round x" "p \<in> set (c_parents x)"
    with order(2) obtain y where "y \<in> D" "c_digest y = p" "c_round y + 1 = c_round x" by force
    with p order(1) show "\<exists>y \<in> certs (state_dag s). c_digest y = p \<and> c_round y + 1 = c_round x" by (auto simp: holds_def)
  qed
  from run_step_supplied [OF U ok x order(1) this] show ?thesis by blast
qed

lemma run_inner_total:
  assumes U: "universe U" and "machine_ok ch U (b, s)" "set xs \<subseteq> U" "\<forall>x \<in> set xs. c_epoch x = nc_epoch (bs_committee b)"
    "holds D s" "in_order D xs"
  shows "\<exists>e sds b' s'. run_inner ch db_ok xs b s = Some (e, sds, b', s') \<and> (e \<noteq> None \<longrightarrow> (\<exists>i. \<not> db_ok i))"
  using assms(2-)
proof (induction xs arbitrary: b s D)
  case (Cons x xs)
  have x: "x \<in> U" "c_epoch x = nc_epoch (bs_committee b)"
    "c_round x \<le> 1 \<or> (\<forall>p \<in> set (c_parents x). \<exists>y \<in> D. c_digest y = p \<and> c_round y + 1 = c_round x)"
    and rest: "set xs \<subseteq> U" "in_order (insert x D) xs" using Cons(3-) by auto
  obtain r b' s' where step: "run_step ch db_ok x b s = Some (r, b', s')" "machine_ok ch U (b', s')"
    "\<forall>e. r = Inl e \<longrightarrow> (\<exists>i. \<not> db_ok i)" "\<forall>out. r = Inr out \<longrightarrow> holds (insert x D) s' \<and> bs_committee b' = bs_committee b"
    using run_step_total [OF U Cons(2) x(1,2) Cons(5) x(3)] by blast
  show ?case
  proof (cases r)
    case (Inl e)
    with step show ?thesis by simp
  next
    case (Inr out)
    with step(4) have "holds (insert x D) s'" "\<forall>y \<in> set xs. c_epoch y = nc_epoch (bs_committee b')" using Cons(4) by auto
    from Cons(1) [OF step(2) rest(1) this(2,1) rest(2)] Inr step(1) show ?thesis by (cases out) auto
  qed
qed simp

end
