(* ===== verification/Consensus_Example.thy ===== *)
theory Consensus_Example
  imports Bullshark_Progress
begin

text \<open>
  A run of the event loop on the certificates of four validators over three rounds, computed step by
  step: the leader of round 2 is committed with its history when the second certificate of round 3
  arrives. The machine and the certificates satisfy the assumptions of the properties.
\<close>

section \<open>An example run\<close>

definition demo_choices :: choices where
  "demo_choices = \<lparr>wchoice = \<lambda>_ xs. (case xs of [] \<Rightarrow> None | x # _ \<Rightarrow> Some x),
     gchoice = \<lambda>_ xs. (case xs of [] \<Rightarrow> None | x # _ \<Rightarrow> Some x)\<rparr>"

definition demo_bullshark :: bullshark where
  "demo_bullshark = bullshark_new demo_nc (store_new [] []) 20 300 (schedule_new demo_nc swap_table_default)"

definition demo_received :: "certificate list" where
  "demo_received = [demo_node 1 0, demo_node 1 1, demo_node 1 2, demo_node 1 3, demo_node 2 0, demo_node 2 1,
     demo_node 2 2, demo_node 2 3, demo_node 3 0, demo_node 3 1]"

definition demo_dag :: dag where
  "demo_dag = [(1, map (\<lambda>i. (word_of_nat i, (10 + i, demo_node 1 i))) [0, 1, 2, 3]),
     (2, map (\<lambda>i. (word_of_nat i, (20 + i, demo_node 2 i))) [0, 1, 2, 3])]"

lemma demo_leader: "schedule_leader demo_choices (schedule_new demo_nc swap_table_default) 2 = Some (demo_authority 0)"
  by (simp add: schedule_leader_def panic_unless_def nc_leader_def demo_choices_def authorities_def demo_nc_def
      authority_id_def demo_authority_def swap_def schedule_new_def swap_table_default_def)

lemma demo_first:
  "run_inner demo_choices (\<lambda>_. True) [demo_node 1 0, demo_node 1 1, demo_node 1 2, demo_node 1 3, demo_node 2 0, demo_node 2 1,
     demo_node 2 2, demo_node 2 3] demo_bullshark (state_new 50)
   = Some (None, [], demo_bullshark\<lparr>bs_max_inserted_certificate_round := 2\<rparr>, (state_new 50)\<lparr>state_dag := demo_dag\<rparr>)"
  by (simp add: demo_bullshark_def bullshark_new_def state_new_def run_step_def process_certificate_def try_insert_def
      try_insert_in_dag_def check_parents_def panic_unless_def report_leader_on_time_metrics_def demo_dag_def Let_def
      u64_add_def u64_sub_def demo_nc_def)

definition demo_dag3 :: dag where
  "demo_dag3 = demo_dag @ [(3, map (\<lambda>i. (word_of_nat i, (30 + i, demo_node 3 i))) [0, 1])]"

definition demo_sub_dag :: committed_sub_dag where
  "demo_sub_dag = \<lparr>sd_certificates = [demo_node 1 3, demo_node 1 2, demo_node 1 1, demo_node 1 0, demo_node 2 0],
     sd_leader = demo_node 2 0, sd_sub_dag_index = 1,
     sd_reputation_score = \<lparr>scores_per_authority = [(0, 0), (1, 0), (2, 0), (3, 0)], final_of_schedule = False\<rparr>,
     sd_commit_timestamp = 14\<rparr>"

lemma demo_leader_certificate:
  "leader_certificate demo_choices (schedule_new demo_nc swap_table_default) 2 demo_dag3 = Some (demo_authority 0, Some (demo_node 2 0))"
  by (simp add: leader_certificate_def demo_leader authority_id_def panic_unless_def demo_authority_def demo_dag3_def demo_dag_def)

lemma demo_order_dag:
  "order_dag (demo_node 2 0) ((state_new 50)\<lparr>state_dag := demo_dag3\<rparr>)
     = Some [demo_node 1 3, demo_node 1 2, demo_node 1 1, demo_node 1 0, demo_node 2 0]"
  by (simp add: order_dag_def panic_unless_def state_new_def u64_add_def u64_sub_def find_parent_def demo_dag3_def
      demo_dag_def already_committed_def)

lemma demo_order_leaders:
  "order_leaders demo_choices (demo_bullshark\<lparr>bs_max_inserted_certificate_round := 3\<rparr>) (demo_node 2 0) ((state_new 50)\<lparr>state_dag := demo_dag3\<rparr>)
    = Some [demo_node 2 0]"
  by (simp add: order_leaders_def panic_unless_def demo_bullshark_def bullshark_new_def state_new_def u64_add_def u64_sub_def
      nc_authority_def demo_nc_def Let_def)

lemma demo_update:
  "fold state_update [demo_node 1 3, demo_node 1 2, demo_node 1 1, demo_node 1 0, demo_node 2 0] ((state_new 50)\<lparr>state_dag := demo_dag3\<rparr>)
   = \<lparr>last_round = \<lparr>committed_round = 2, gc_round = 0\<rparr>, gc_depth = 50, last_committed = [(3, 1), (2, 1), (1, 1), (0, 2)],
      last_committed_sub_dag = None, state_dag = demo_dag3\<rparr>"
  by (simp add: state_update_def round_update_def calc_gc_round_def state_new_def demo_dag3_def demo_dag_def Let_def)

lemma demo_bullshark_fields [simp]:
  "bs_leader_schedule demo_bullshark = schedule_new demo_nc swap_table_default" "bs_committee demo_bullshark = demo_nc"
  "bs_num_sub_dags_per_schedule demo_bullshark = 300" "bs_store demo_bullshark = store_new [] []"
  "bs_max_inserted_certificate_round demo_bullshark = 0"
  by (simp_all add: demo_bullshark_def bullshark_new_def)

lemma demo_reputation:
  "reputation_new demo_nc = Some \<lparr>scores_per_authority = [(0, 0), (1, 0), (2, 0), (3, 0)], final_of_schedule = False\<rparr>"
  by (simp add: reputation_new_def authorities_def demo_nc_def authority_id_def panic_unless_def demo_authority_def
      hm_collect_def)

lemma demo_commit:
  "commit_leader demo_choices (\<lambda>_. True) 2 (demo_bullshark\<lparr>bs_max_inserted_certificate_round := 3\<rparr>) ((state_new 50)\<lparr>state_dag := demo_dag3\<rparr>)
    = Some (Inr (Commit, [demo_sub_dag]), demo_bullshark\<lparr>bs_max_inserted_certificate_round := 3,
        bs_store := store_new [(0, 2), (1, 1), (2, 1), (3, 1)] [(1, CommitV2 (v2_from_sub_dag demo_sub_dag))]\<rparr>,
      \<lparr>last_round = \<lparr>committed_round = 2, gc_round = 0\<rparr>, gc_depth = 50, last_committed = [(3, 1), (2, 1), (1, 1), (0, 2)],
      last_committed_sub_dag = Some demo_sub_dag, state_dag = demo_dag3\<rparr>)"
proof -
  have row: "map_of demo_dag3 3 = Some [(0, (30, demo_node 3 0)), (1, (31, demo_node 3 1))]"
    by (simp add: demo_dag3_def demo_dag_def u64_add_def)
  have support: "\<not> leader_support demo_nc [(0, (30, demo_node 3 0)), (1, (31, demo_node 3 1))] (demo_node 2 0)
      < nc_validity_threshold demo_nc"
    by (simp add: leader_support_def demo_nc_stake) (simp add: demo_nc_def word_less_nat_alt)
  have size: "nc_size demo_nc = 4" by (simp add: nc_size_def demo_nc_def)
  have new: "last_round (state_new 50) = \<lparr>committed_round = 0, gc_round = 0\<rparr>" "last_committed_sub_dag (state_new 50) = None"
    by (simp_all add: state_new_def)
  have rows: "fold (\<lambda>(a, r). bt_insert a r) [(3, 1), (2, 1), (1, 1), (0, 2)] [] = [(0, 2), (1, 1), (2, 1), (3 :: authority_identifier, 1)]"
    by (simp add: word_less_nat_alt)
  show ?thesis
    by (simp add: commit_leader_def demo_leader_certificate row support demo_order_leaders demo_order_dag demo_update [unfolded fold_simps] new
        next_sub_dag_index_def u64_add_def resolve_reputation_score_def demo_reputation u64_rem_def
        panic_unless_def total_authorities_def size write_consensus_state_def sub_dag_new_def update_leader_schedule_def
        demo_sub_dag_def store_new_def rows [unfolded fold_simps] Let_def del: One_nat_def)
qed

lemma run_inner_append:
  assumes "run_inner ch db_ok xs b s = Some (None, sds, b1, s1)"
  shows "run_inner ch db_ok (xs @ ys) b s = map_option (\<lambda>(e, rest, b2, s2). (e, sds @ rest, b2, s2)) (run_inner ch db_ok ys b1 s1)"
  using assms
proof (induction xs arbitrary: b s sds)
  case Nil
  then show ?case by (simp add: option.map_ident case_prod_unfold)
next
  case (Cons x xs)
  from Cons(2) obtain r b' s' where step: "run_step ch db_ok x b s = Some (r, b', s')"
    by (auto simp: bind_eq_Some_conv)
  with Cons(2) obtain out msg where r: "r = Inr (out, msg)" by (cases r) auto
  with Cons(2) step obtain rest where "run_inner ch db_ok xs b' s' = Some (None, rest, b1, s1)" "sds = out @ rest"
    by (auto simp: bind_eq_Some_conv)
  with Cons(1) [of b' s' rest] step r show ?case by (cases "run_inner ch db_ok ys b1 s1") auto
qed

definition demo_final :: consensus_state where
  "demo_final = \<lparr>last_round = \<lparr>committed_round = 2, gc_round = 0\<rparr>, gc_depth = 50,
      last_committed = [(3, 1), (2, 1), (1, 1), (0, 2)],
      last_committed_sub_dag = Some demo_sub_dag, state_dag = demo_dag3\<rparr>"

definition demo_bullshark_final :: bullshark where
  "demo_bullshark_final = demo_bullshark\<lparr>bs_max_inserted_certificate_round := 3,
        bs_store := store_new [(0, 2), (1, 1), (2, 1), (3, 1)] [(1, CommitV2 (v2_from_sub_dag demo_sub_dag))]\<rparr>"

lemma demo_insert:
  "try_insert (demo_node 3 0) ((state_new 50)\<lparr>state_dag := demo_dag\<rparr>)
     = Some (Inr True, (state_new 50)\<lparr>state_dag := demo_dag @ [(3, [(0, (30, demo_node 3 0))])]\<rparr>)"
  "try_insert (demo_node 3 1) ((state_new 50)\<lparr>state_dag := demo_dag @ [(3, [(0, (30, demo_node 3 0))])]\<rparr>)
     = Some (Inr True, (state_new 50)\<lparr>state_dag := demo_dag3\<rparr>)"
  by (simp_all add: try_insert_def try_insert_in_dag_def check_parents_def panic_unless_def state_new_def demo_dag3_def
      demo_dag_def u64_add_def u64_sub_def Let_def)

lemma demo_no_support:
  "commit_leader demo_choices (\<lambda>_. True) 2 (demo_bullshark\<lparr>bs_max_inserted_certificate_round := 3\<rparr>)
      ((state_new 50)\<lparr>state_dag := demo_dag @ [(3, [(0, (30, demo_node 3 0))])]\<rparr>)
    = Some (Inr (NotEnoughSupportForLeader, []), demo_bullshark\<lparr>bs_max_inserted_certificate_round := 3\<rparr>,
        (state_new 50)\<lparr>state_dag := demo_dag @ [(3, [(0, (30, demo_node 3 0))])]\<rparr>)"
proof -
  have "leader_support demo_nc [(0, (30, demo_node 3 0))] (demo_node 2 0) < nc_validity_threshold demo_nc"
    by (simp add: leader_support_def demo_nc_stake) (simp add: demo_nc_def word_less_nat_alt)
  then show ?thesis
    by (simp add: commit_leader_def leader_certificate_def demo_leader authority_id_def panic_unless_def demo_authority_def
        demo_dag_def u64_add_def)
qed

lemma demo_run:
  "run_inner demo_choices (\<lambda>_. True) demo_received demo_bullshark (state_new 50)
     = Some (None, [demo_sub_dag], demo_bullshark_final, demo_final)"
proof -
  have epoch: "nc_epoch demo_nc = 5" by (simp add: demo_nc_def)
  have retry: "commit_retry 3 ch db_ok r b s acc = commit_retry (Suc 2) ch db_ok r b s acc" for ch db_ok r b s acc
    by simp
  have round: "committed_round (last_round (state_new 50)) = 0" by (simp add: state_new_def)
  have one: "run_step demo_choices (\<lambda>_. True) (demo_node 3 0) (demo_bullshark\<lparr>bs_max_inserted_certificate_round := 2\<rparr>)
      ((state_new 50)\<lparr>state_dag := demo_dag\<rparr>) = Some (Inr ([], None), demo_bullshark\<lparr>bs_max_inserted_certificate_round := 3\<rparr>,
        (state_new 50)\<lparr>state_dag := demo_dag @ [(3, [(0, (30, demo_node 3 0))])]\<rparr>)"
    by (simp add: run_step_def epoch process_certificate_def demo_insert report_leader_on_time_metrics_def u64_sub_def round
        demo_no_support retry [unfolded commit_retry.simps] Let_def)
  have "concat (map sd_certificates [demo_sub_dag]) = [demo_node 1 3, demo_node 1 2, demo_node 1 1, demo_node 1 0, demo_node 2 0]"
    by (simp add: demo_sub_dag_def)
  then have two: "run_step demo_choices (\<lambda>_. True) (demo_node 3 1) (demo_bullshark\<lparr>bs_max_inserted_certificate_round := 3\<rparr>)
      ((state_new 50)\<lparr>state_dag := demo_dag @ [(3, [(0, (30, demo_node 3 0))])]\<rparr>)
    = Some (Inr ([demo_sub_dag], Some (2, sd_certificates demo_sub_dag)), demo_bullshark_final, demo_final)"
    by (simp add: run_step_def epoch process_certificate_def demo_insert report_leader_on_time_metrics_def u64_sub_def round
        demo_commit panic_unless_def demo_final_def demo_bullshark_final_def retry [unfolded commit_retry.simps] Let_def del: One_nat_def)
  have split: "demo_received = [demo_node 1 0, demo_node 1 1, demo_node 1 2, demo_node 1 3, demo_node 2 0, demo_node 2 1,
     demo_node 2 2, demo_node 2 3] @ [demo_node 3 0, demo_node 3 1]" by (simp add: demo_received_def)
  show ?thesis unfolding split run_inner_append [OF demo_first] by (simp add: one two del: One_nat_def)
qed

definition demo_universe :: "certificate set" where
  "demo_universe = (\<lambda>(r, i). demo_node r i) ` ({1, 2, 3} \<times> {0, 1, 2, 3})"

lemma demo_universe_ok: "universe demo_universe" "set demo_received \<subseteq> demo_universe" "demo_node 3 2 \<in> demo_universe"
  by (auto simp: universe_def demo_universe_def inj_on_def slot_def rounds_fit_def demo_received_def)

lemma demo_universe_iff: "y \<in> demo_universe \<longleftrightarrow> (\<exists>r \<in> {1, 2, 3}. \<exists>i \<in> {0, 1, 2, 3}. y = demo_node r i)"
  by (simp only: demo_universe_def image_iff Bex_def mem_Times_iff split_paired_Ex prod.case fst_conv snd_conv) blast

lemma demo_parents:
  assumes "r = 2 \<or> r = 3"
  shows "c_origin ` {y \<in> demo_universe. c_digest y \<in> set (c_parents (demo_node r i)) \<and> c_round y + 1 = c_round (demo_node r i)} = {0, 1, 2, 3}"
proof -
  have in_U: "demo_node (r - 1) j \<in> demo_universe" if "j \<in> {0, 1, 2, 3}" for j
  proof -
    have "r - 1 \<in> {1, 2, 3}" using assms by auto
    with that show ?thesis unfolding demo_universe_iff by blast
  qed
  have "{y \<in> demo_universe. c_digest y \<in> set (c_parents (demo_node r i)) \<and> c_round y + 1 = c_round (demo_node r i)}
    = demo_node (r - 1) ` {0, 1, 2, 3}" (is "?L = ?R")
  proof
    show "?L \<subseteq> ?R"
    proof
      fix y assume y: "y \<in> ?L"
      then obtain q j where q: "y = demo_node q j" "j \<in> {0, 1, 2, 3}" unfolding demo_universe_iff by blast
      from y have "c_round y + 1 = c_round (demo_node r i)" by blast
      then have "q = r - 1" unfolding q(1) demo_node_simps(1) by linarith
      with q show "y \<in> ?R" by blast
    qed
    show "?R \<subseteq> ?L"
    proof
      fix y assume "y \<in> ?R"
      then obtain j where j: "y = demo_node (r - 1) j" "j \<in> {0, 1, 2, 3}" by blast
      have "10 * (r - 1) + j \<in> {10 * r - 10, 10 * r - 9, 10 * r - 8, 10 * r - 7}" using j(2) assms by auto
      moreover have "set (c_parents (demo_node r i)) = {10 * r - 10, 10 * r - 9, 10 * r - 8, 10 * r - 7}" "r - 1 + 1 = r"
        using assms by auto
      ultimately show "y \<in> ?L" using in_U [OF j(2)] unfolding j(1) mem_Collect_eq demo_node_simps(1,3) by blast
    qed
  qed
  then show ?thesis by simp
qed

lemma demo_well_connected: "well_connected demo_nc demo_universe"
proof -
  have stake: "unat (nc_quorum_threshold demo_nc) \<le> sum (stake_nat demo_nc) {0, 1, 2, 3}"
    by (simp add: stake_nat_def demo_nc_stake) (simp add: demo_nc_def)
  have "quorum_parents demo_nc demo_universe"
    unfolding quorum_parents_def
  proof (intro ballI impI)
    fix x assume x: "x \<in> demo_universe" "1 < c_round x"
    then obtain r i where r: "x = demo_node r i" "r \<in> {1, 2, 3}" unfolding demo_universe_iff by blast
    with x(2) have "r = 2 \<or> r = 3" by auto
    from stake show "unat (nc_quorum_threshold demo_nc)
      \<le> sum (stake_nat demo_nc) (c_origin ` {y \<in> demo_universe. c_digest y \<in> set (c_parents x) \<and> c_round y + 1 = c_round x})"
      unfolding r(1) demo_parents [OF \<open>r = 2 \<or> r = 3\<close>] .
  qed
  moreover have "c_origin ` demo_universe \<subseteq> set (ids demo_nc)" by (auto simp: demo_universe_def demo_nc_ids)
  ultimately show ?thesis using demo_nc_wf demo_nc_fits by (simp add: well_connected_def)
qed

text \<open>A second validator that receives one more certificate.\<close>

definition demo_final2 :: consensus_state where
  "demo_final2 = demo_final\<lparr>state_dag := demo_dag @ [(3, map (\<lambda>i. (word_of_nat i, (30 + i, demo_node 3 i))) [0, 1, 2])]\<rparr>"

lemma demo_run2:
  "run_inner demo_choices (\<lambda>_. True) (demo_received @ [demo_node 3 2]) demo_bullshark (state_new 50)
     = Some (None, [demo_sub_dag], demo_bullshark_final, demo_final2)"
proof -
  have "try_insert (demo_node 3 2) demo_final = Some (Inr True, demo_final2)"
    by (simp add: try_insert_def try_insert_in_dag_def check_parents_def panic_unless_def demo_final_def demo_final2_def demo_dag3_def
      demo_dag_def u64_add_def u64_sub_def Let_def)
  moreover have "bs_committee demo_bullshark_final = demo_nc" "nc_epoch demo_nc = 5" "bs_max_inserted_certificate_round demo_bullshark_final = 3"
    "committed_round (last_round demo_final2) = 2"
    by (simp_all add: demo_bullshark_final_def demo_nc_def demo_final2_def demo_final_def)
  moreover have "demo_bullshark_final\<lparr>bs_max_inserted_certificate_round := 3\<rparr> = demo_bullshark_final"
    by (simp add: demo_bullshark_final_def)
  ultimately have "run_step demo_choices (\<lambda>_. True) (demo_node 3 2) demo_bullshark_final demo_final = Some (Inr ([], None), demo_bullshark_final, demo_final2)"
    by (simp add: run_step_def process_certificate_def report_leader_on_time_metrics_def u64_sub_def Let_def)
  then show ?thesis unfolding run_inner_append [OF demo_run] by simp
qed

lemma demo_start: "state_ok demo_universe (state_new 50)"
  by (rule state_new_ok) simp

section \<open>The machine of the example\<close>

lemma demo_choices_ok: "choices_ok demo_choices"
  unfolding choices_ok_def demo_choices_def by (auto split: list.splits)

lemma demo_equal_stakes: "equal_stakes demo_nc"
  by (auto simp: equal_stakes_def authorities_def demo_nc_def demo_authority_def)

lemma demo_machine_ok: "machine_ok demo_choices demo_universe (demo_bullshark, state_new 50)"
proof -
  have "bs_bad_nodes_stake_threshold demo_bullshark = 20" by (simp add: demo_bullshark_def bullshark_new_def)
  then have "protocol_ok demo_choices demo_universe demo_bullshark"
    using demo_choices_ok demo_well_connected schedule_default_ok [of demo_nc] equal_stakes_swaps_safe [OF demo_nc_wf demo_equal_stakes]
    by (simp add: protocol_ok_def demo_nc_total word_le_nat_alt)
  then show ?thesis using demo_start by (simp add: machine_ok_def scored_def state_new_def)
qed

lemma demo_machine_ok2:
  "machine_ok demo_choices demo_universe (demo_bullshark\<lparr>bs_max_inserted_certificate_round := 2\<rparr>, (state_new 50)\<lparr>state_dag := demo_dag\<rparr>)"
proof -
  have xs: "set [demo_node 1 0, demo_node 1 1, demo_node 1 2, demo_node 1 3, demo_node 2 0, demo_node 2 1,
     demo_node 2 2, demo_node 2 3] \<subseteq> demo_universe"
    using demo_universe_ok(2) by (simp add: demo_received_def)
  have "state_ok demo_universe ((state_new 50)\<lparr>state_dag := demo_dag\<rparr>)"
    using run_inner_refines [OF demo_universe_ok(1) demo_start xs demo_first] by simp
  with demo_machine_ok protocol_ok_config [of "demo_bullshark\<lparr>bs_max_inserted_certificate_round := 2\<rparr>" demo_bullshark] show ?thesis
    by (simp add: machine_ok_def scored_def state_new_def config_def)
qed

lemma demo_machine_ok3:
  "machine_ok demo_choices demo_universe (demo_bullshark\<lparr>bs_max_inserted_certificate_round := 3\<rparr>, (state_new 50)\<lparr>state_dag := demo_dag3\<rparr>)"
proof -
  have x: "demo_node 3 0 \<in> demo_universe" "demo_node 3 1 \<in> demo_universe"
    using demo_universe_ok(2) by (simp_all add: demo_received_def)
  show ?thesis
    by (rule machine_ok_insert [OF demo_universe_ok(1) machine_ok_insert [OF demo_universe_ok(1) demo_machine_ok2 x(1) demo_insert(1)] x(2) demo_insert(2)])
      (simp_all add: config_def)
qed

lemma demo_row3: "map_of demo_dag3 3 = Some [(0, (30, demo_node 3 0)), (1, (31, demo_node 3 1))]"
  by (simp add: demo_dag3_def demo_dag_def)

lemma demo_support:
  "nc_validity_threshold demo_nc \<le> leader_support demo_nc [(0, (30, demo_node 3 0)), (1, (31, demo_node 3 1))] (demo_node 2 0)"
  by (simp add: leader_support_def demo_nc_stake) (simp add: demo_nc_def word_le_nat_alt)

lemma demo_dag3_ok: "dag_ok demo_dag3" "certs demo_dag3 \<subseteq> demo_universe" "closed_above 0 demo_dag3"
  using demo_machine_ok3 by (auto simp: machine_ok_def state_ok_def state_shape_def state_new_def)

lemma demo_in_dag3: "demo_node 2 0 \<in> certs demo_dag3" "demo_node 1 1 \<in> certs demo_dag3" "demo_node 3 1 \<in> certs demo_dag3"
  unfolding dag_ok_lookup [OF demo_dag3_ok(1)] by (simp_all add: demo_dag3_def demo_dag_def)



end
