(* ===== verification/Consensus_Properties.thy ===== *)
theory Consensus_Properties
  imports Consensus_Example
begin

text \<open>
  The properties of Narwhal consensus: validators agree on the sequence of sub-dags, the sequence is
  causally ordered and without repetition, the event loop does not panic, commits supported leaders and
  ends its loops.
\<close>

section \<open>Agreement\<close>

text \<open>C2. Two validators that start with the same committed part and receive, in any order, certificates of a set
  without equivocation in which every certificate names a quorum of parents, commit sequences of sub-dags
  of which one is a prefix of the other.\<close>

theorem validators_agree:
  assumes "universe U" "well_connected (bs_committee b1) U" "state_ok U s1" "state_ok U s2"
    "committed_part (b1, s1) = committed_part (b2, s2)" "set xs1 \<subseteq> U" "set xs2 \<subseteq> U"
    "run_inner ch db1 xs1 b1 s1 = Some (e1, sds1, b1', s1')" "run_inner ch db2 xs2 b2 s2 = Some (e2, sds2, b2', s2')"
  shows "prefix sds1 sds2 \<or> prefix sds2 sds1"
  using run_inner_refines [OF assms(1,3,6,8)] run_inner_refines [OF assms(1,4,7,9)] trace_agree [OF assms(1-5)] by blast

theorem validators_agree_witness:
  "run_inner demo_choices (\<lambda>_. True) demo_received demo_bullshark (state_new 50)
     = Some (None, [demo_sub_dag], demo_bullshark_final, demo_final) \<and>
   run_inner demo_choices (\<lambda>_. True) (demo_received @ [demo_node 3 2]) demo_bullshark (state_new 50)
     = Some (None, [demo_sub_dag], demo_bullshark_final, demo_final2) \<and>
   (prefix [demo_sub_dag] [demo_sub_dag] \<or> prefix [demo_sub_dag] [demo_sub_dag])"
  using validators_agree [OF demo_universe_ok(1) _ demo_start demo_start refl demo_universe_ok(2) _ demo_run demo_run2]
    demo_universe_ok demo_well_connected demo_run demo_run2 by simp

section \<open>The committed sequence\<close>

text \<open>C3. A run of the event loop is a trace of the abstract machine, which inserts certificates and commits one
  elected leader at a time; without an error the trace ends in the machine the loop returns.\<close>

theorem event_loop_refines_trace:
  assumes "universe U" "state_ok U s" "set xs \<subseteq> U" "run_inner ch db_ok xs b s = Some (e, sds, b', s')"
  shows "\<exists>m. trace ch U (b, s) sds m \<and> (e = None \<longrightarrow> m = (b', s') \<and> state_ok U s')"
  by (rule run_inner_refines [OF assms])

theorem event_loop_refines_trace_witness:
  "trace demo_choices demo_universe (demo_bullshark, state_new 50) [demo_sub_dag] (demo_bullshark_final, demo_final)"
  using event_loop_refines_trace [OF demo_universe_ok(1) demo_start demo_universe_ok(2) demo_run] by simp

text \<open>C9. No certificate is sequenced twice, not even another one of the same round and author, and everything
  sequenced was received and not committed before the run.\<close>

theorem sequenced_once:
  assumes "universe U" "state_ok U s" "set xs \<subseteq> U" "run_inner ch db_ok xs b s = Some (e, sds, b', s')"
  shows "distinct (map slot (sequenced sds)) \<and> (\<forall>x \<in> set (sequenced sds). x \<in> U \<and> \<not> already_committed (last_committed s) x)"
  using run_inner_refines [OF assms] strace_once [OF trace_strace assms(1)] assms(2) by fastforce

theorem sequenced_once_witness:
  "distinct (map slot (sequenced [demo_sub_dag])) \<and> length (sequenced [demo_sub_dag]) = 5"
  using sequenced_once [OF demo_universe_ok(1) demo_start demo_universe_ok(2) demo_run] by (simp add: demo_sub_dag_def)

text \<open>C17. The sub-dags of a run are numbered one after the other from the last index, their leader rounds strictly
  increase and their timestamps never decrease.\<close>

theorem sub_dags_ordered:
  assumes "universe U" "state_ok U s" "set xs \<subseteq> U" "run_inner ch db_ok xs b s = Some (e, sds, b', s')"
    "last_index s + length sds < 2 ^ 64"
  shows "map sd_sub_dag_index sds = [last_index s + 1..<last_index s + 1 + length sds] \<and>
    sorted_wrt (\<lambda>a b. sd_leader_round a < sd_leader_round b \<and> sd_commit_timestamp a \<le> sd_commit_timestamp b) sds \<and>
    (\<forall>sd \<in> set sds. committed_round (last_round s) < sd_leader_round sd \<and> last_timestamp s \<le> sd_commit_timestamp sd)"
proof -
  from run_inner_refines [OF assms(1-4)] obtain m where "trace ch U (b, s) sds m" by blast
  note t = trace_strace [OF this, unfolded snd_conv]
  from strace_index [OF t assms(1,2,5)] strace_order [OF t assms(1,2)] show ?thesis by blast
qed

theorem sub_dags_ordered_witness: "map sd_sub_dag_index [demo_sub_dag] = [1] \<and> 0 < sd_leader_round demo_sub_dag"
  using sub_dags_ordered [OF demo_universe_ok(1) demo_start demo_universe_ok(2) demo_run]
  by (simp add: last_index_def state_new_def)

text \<open>C14. Causal order: a parent that is above the garbage collection round of its child's sub-dag is in that sub-dag
  or an earlier one, unless its author had a later certificate committed first.\<close>

theorem causal_order:
  assumes "universe U" "state_ok U s" "set xs \<subseteq> U" "run_inner ch db_ok xs b s = Some (e, pre @ sd # post, b', s')"
    "x \<in> set (sd_certificates sd)" "p \<in> set (c_parents x)" "sd_leader_round sd - gc_depth s + 1 < c_round x"
  shows "\<exists>y \<in> U. c_digest y = p \<and> c_round y + 1 = c_round x \<and>
    (y \<in> set (sd_certificates sd) \<or> already_committed (last_committed s) y \<or>
     (\<exists>z \<in> set (sequenced pre). c_origin y = c_origin z \<and> c_round y \<le> c_round z))"
proof -
  from run_inner_refines [OF assms(1-4)] obtain m where "trace ch U (b, s) (pre @ sd # post) m" by blast
  from strace_causal [OF trace_strace [OF this, unfolded snd_conv] assms(1,2) refl assms(5-7)] show ?thesis .
qed

theorem causal_order_witness:
  "\<exists>y \<in> demo_universe. c_digest y = 12 \<and> c_round y + 1 = 2 \<and> y \<in> set (sd_certificates demo_sub_dag)"
  using causal_order [of demo_universe "state_new 50" demo_received demo_choices "\<lambda>_. True" demo_bullshark None "[]" demo_sub_dag "[]"
      demo_bullshark_final demo_final "demo_node 2 0" 12] demo_universe_ok demo_start demo_run
  by (simp add: demo_sub_dag_def sd_leader_round_def already_committed_def state_new_def)

section \<open>Progress and termination\<close>

text \<open>C6. The event loop never panics: for a machine whose configuration is sound, on any database, and for
  certificates of a set without equivocation and with quorums of parents that arrive after their
  parents, it processes the whole sequence, and it stops with an error only when a database write fails.\<close>

theorem event_loop_never_panics:
  assumes "universe U" "machine_ok ch U (b, s)" "set xs \<subseteq> U" "\<forall>x \<in> set xs. c_epoch x = nc_epoch (bs_committee b)"
    "in_order (certs (state_dag s)) xs"
  shows "\<exists>e sds b' s'. run_inner ch db_ok xs b s = Some (e, sds, b', s') \<and> (e \<noteq> None \<longrightarrow> (\<exists>i. \<not> db_ok i))"
  by (rule run_inner_total [OF assms(1-4) _ assms(5)]) (simp add: holds_def)

theorem event_loop_never_panics_witness:
  "\<exists>e sds b' s'. run_inner demo_choices (\<lambda>_. False) demo_received demo_bullshark (state_new 50) = Some (e, sds, b', s')"
proof -
  have "in_order (certs (state_dag (state_new 50))) demo_received"
    by (simp add: state_new_def demo_received_def)
  moreover have "\<forall>x \<in> set demo_received. c_epoch x = nc_epoch (bs_committee demo_bullshark)"
    by (simp add: demo_received_def demo_nc_def)
  ultimately show ?thesis
    using event_loop_never_panics [OF demo_universe_ok(1) demo_machine_ok demo_universe_ok(2)] by blast
qed

text \<open>C7. A supported leader makes progress: when the certificate of an odd round arrives and the leader of the round
  below, above the last committed round, has the support of a validity threshold, processing commits at
  least one sub-dag and the last committed round grows.\<close>

theorem supported_leader_commits:
  assumes "universe U" "machine_ok ch U (b, s)" "x \<in> U" "try_insert x s = Some (ins, s1)" "c_round x = r + 1"
    "committed_round (last_round s) < r" "even r"
    "leader_certificate ch (bs_leader_schedule b) r (state_dag s1) = Some (a, Some leader)"
    "map_of (state_dag s1) (r + 1) = Some table"
    "nc_validity_threshold (bs_committee b) \<le> leader_support (bs_committee b) table leader" "\<forall>i. db_ok i"
  shows "\<exists>sds b' s'. process_certificate ch db_ok x b s = Some (Inr (Commit, sds), b', s') \<and> sds \<noteq> [] \<and>
    committed_round (last_round s) < committed_round (last_round s')"
  by (rule process_certificate_progress [OF assms])

theorem supported_leader_commits_witness:
  "\<exists>sds b' s'. process_certificate demo_choices (\<lambda>_. True) (demo_node 3 1) (demo_bullshark\<lparr>bs_max_inserted_certificate_round := 3\<rparr>)
     ((state_new 50)\<lparr>state_dag := demo_dag @ [(3, [(0, (30, demo_node 3 0))])]\<rparr>) = Some (Inr (Commit, sds), b', s') \<and> sds \<noteq> []"
proof -
  have x: "demo_node 3 0 \<in> demo_universe" "demo_node 3 1 \<in> demo_universe"
    using demo_universe_ok(2) by (simp_all add: demo_received_def)
  have ok: "machine_ok demo_choices demo_universe (demo_bullshark\<lparr>bs_max_inserted_certificate_round := 3\<rparr>,
      (state_new 50)\<lparr>state_dag := demo_dag @ [(3, [(0, (30, demo_node 3 0))])]\<rparr>)"
    by (rule machine_ok_insert [OF demo_universe_ok(1) demo_machine_ok2 x(1) demo_insert(1)]) (simp add: config_def)
  show ?thesis
    using supported_leader_commits [OF demo_universe_ok(1) ok x(2) demo_insert(2), of 2 "demo_authority 0" "demo_node 2 0" _ "\<lambda>_. True"]
      demo_leader_certificate demo_row3 demo_support by (auto simp: state_new_def)
qed

text \<open>C18. The retry loop of \<^verbatim>\<open>process_certificate\<close> terminates: with as much fuel as there are rounds between the last
  commit and the leader it returns, and more fuel does not change the result.\<close>

theorem retry_loop_terminates:
  assumes "universe U" "machine_ok ch U (b, s)" "committed_round (last_round s) < r" "even r" "r + 1 < 2 ^ 64"
    "map_of (state_dag s) (r + 1) \<noteq> None"
  shows "\<exists>result. \<forall>k. commit_retry (r - committed_round (last_round s) + k) ch db_ok r b s acc = Some result"
proof -
  have s: "state_ok U s" using assms(2) by (simp add: machine_ok_def)
  from commit_retry_total [OF assms(1,4,5,2,3,6) order_refl] obtain result where
    "commit_retry (r - committed_round (last_round s)) ch db_ok r b s acc = Some result" by blast
  with commit_retry_fuel [OF assms(1) s assms(3,5) order_refl] show ?thesis by metis
qed

theorem retry_loop_terminates_witness:
  "\<exists>result. \<forall>k. commit_retry (2 + k) demo_choices (\<lambda>_. True) 2 (demo_bullshark\<lparr>bs_max_inserted_certificate_round := 3\<rparr>)
     ((state_new 50)\<lparr>state_dag := demo_dag3\<rparr>) [] = Some result"
  using retry_loop_terminates [OF demo_universe_ok(1) demo_machine_ok3, of 2 "\<lambda>_. True" "[]"] demo_row3
  by (simp add: state_new_def del: commit_retry.simps)

section \<open>The dag\<close>

text \<open>C19. A leader with the support on which a validator commits it is an ancestor of every certificate at least
  two rounds later, in the dag of every validator that has not garbage collected it.\<close>

theorem supported_leader_is_ancestor:
  assumes "universe U" "well_connected c U" "dag_ok dag1" "certs dag1 \<subseteq> U" "map_of dag1 (c_round leader + 1) = Some table"
    "nc_validity_threshold c \<le> leader_support c table leader" "leader \<in> U" "g < c_round leader" "0 < c_round leader"
    "dag_ok dag2" "closed_above g dag2" "certs dag2 \<subseteq> U" "x \<in> certs dag2" "c_round leader + 2 \<le> c_round x"
  shows "leader \<in> certs dag2 \<and> (parent_of dag2)\<^sup>*\<^sup>* x leader"
  by (rule supported_leader_path [OF assms])

theorem supported_leader_is_ancestor_witness:
  "(parent_of demo_dag3)\<^sup>*\<^sup>* (demo_node 3 1) (demo_node 1 1)"
proof -
  let ?row = "map (\<lambda>i. (word_of_nat i, (20 + i, demo_node 2 i))) [0, 1, 2, 3]"
  have row: "map_of demo_dag3 (c_round (demo_node 1 1) + 1) = Some ?row" by (simp add: demo_dag3_def demo_dag_def)
  have support: "nc_validity_threshold demo_nc \<le> leader_support demo_nc ?row (demo_node 1 1)"
    by (simp add: leader_support_def demo_nc_stake) (simp add: demo_nc_def word_le_nat_alt)
  have "demo_node 1 1 \<in> demo_universe" using demo_in_dag3(2) demo_dag3_ok(2) by blast
  from supported_leader_is_ancestor [OF demo_universe_ok(1) demo_well_connected demo_dag3_ok(1,2) row support this _ _ demo_dag3_ok(1,3,2)
      demo_in_dag3(3)] show ?thesis by simp
qed

text \<open>\<^verbatim>\<open>linked\<close> decides whether there is a path of parents from the later to the earlier leader.\<close>

lemma linked_is_reachability:
  assumes "dag_ok dag" "inj_on c_digest (certs dag)" "leader \<in> certs dag" "prev \<in> certs dag"
    "\<forall>r. c_round prev \<le> r \<and> r < c_round leader \<longrightarrow> map_of dag r \<noteq> None" "c_round prev \<le> c_round leader"
  shows "linked leader prev dag = Some ((parent_of dag)\<^sup>*\<^sup>* leader prev)"
  by (rule linked_iff_path [OF assms])

lemma linked_is_reachability_witness:
  "linked (demo_node 3 1) (demo_node 1 1) demo_dag3 = Some ((parent_of demo_dag3)\<^sup>*\<^sup>* (demo_node 3 1) (demo_node 1 1))"
proof (rule linked_is_reachability [OF demo_dag3_ok(1) _ demo_in_dag3(3,2)])
  show "inj_on c_digest (certs demo_dag3)"
    using demo_universe_ok(1) demo_dag3_ok(2) by (auto simp: universe_def intro: inj_on_subset)
  show "\<forall>r. c_round (demo_node 1 1) \<le> r \<and> r < c_round (demo_node 3 1) \<longrightarrow> map_of demo_dag3 r \<noteq> None"
    by (auto simp: demo_dag3_def demo_dag_def)
qed simp

text \<open>C20. Flattening a leader's history does not panic and returns, without repetition and by ascending round,
  exactly the certificates that the leader reaches over uncommitted parents above the garbage
  collection round.\<close>

theorem order_dag_is_history:
  assumes "universe U" "state_ok U s" "leader \<in> certs (state_dag s)" "committed_round (last_round s) < c_round leader"
  shows "\<exists>out. order_dag leader s = Some out \<and> distinct out \<and> sorted (map c_round out) \<and>
    set out = {x. (open_parent (state_dag s) (last_committed s))\<^sup>*\<^sup>* leader x \<and> c_round leader - gc_depth s < c_round x}"
proof (rule order_dag_exact)
  show "rounds_fit (certs (state_dag s))" "inj_on c_digest (certs (state_dag s))"
    using assms(1,2) by (auto simp: universe_def state_ok_def state_shape_def rounds_fit_def intro: inj_on_subset)
  show "dag_ok (state_dag s)" "closed_above (gc_round (last_round s)) (state_dag s)" "0 < gc_depth s" "0 < c_round leader"
    "gc_round (last_round s) \<le> c_round leader - gc_depth s"
    using assms(2,4) by (auto simp: state_ok_def state_shape_def)
qed (rule assms(3))

theorem order_dag_is_history_witness:
  "\<exists>out. order_dag (demo_node 2 0) ((state_new 50)\<lparr>state_dag := demo_dag3\<rparr>) = Some out \<and>
    demo_node 1 1 \<in> set out"
proof -
  have s: "state_ok demo_universe ((state_new 50)\<lparr>state_dag := demo_dag3\<rparr>)" using demo_machine_ok3 by (simp add: machine_ok_def)
  have "open_parent demo_dag3 [] (demo_node 2 0) (demo_node 1 1)"
    using demo_in_dag3(2) by (simp add: open_parent_def already_committed_def)
  with order_dag_is_history [OF demo_universe_ok(1) s, of "demo_node 2 0"] demo_in_dag3(1) show ?thesis
    by (auto simp: state_new_def)
qed

end
