(* ===== verification/Narwhal_Aggregators.thy ===== *)
theory Narwhal_Aggregators
  imports Narwhal_Certificates
begin

text \<open>
  \<^verbatim>\<open>narwhal/primary/src/aggregators.rs\<close>: collecting votes for a header into a certificate
  (\<^verbatim>\<open>VotesAggregator\<close>) and certificates of a round into a quorum of parents
  (\<^verbatim>\<open>CertificatesAggregator\<close>). Certificates have version 2, metrics are left out, and the hash sets of
  used authorities are lists.
\<close>

record votes_aggregator =
  va_weight :: stake
  va_votes :: "(authority_identifier \<times> signature) list"
  va_used :: "authority_identifier list"

definition va_new :: votes_aggregator where
  "va_new = \<lparr>va_weight = 0, va_votes = [], va_used = []\<rparr>"

text \<open>The closure of \<^verbatim>\<open>votes.retain\<close>: it keeps the votes whose signature verifies and takes the stake
  of the others off the weight.\<close>

fun retain_valid ::
  "narwhal_bls \<Rightarrow> narwhal_committee \<Rightarrow> certificate_digest \<Rightarrow> (authority_identifier \<times> signature) list \<Rightarrow>
   stake \<Rightarrow> ((authority_identifier \<times> signature) list \<times> stake) option" where
  "retain_valid bls c d [] w = Some ([], w)"
| "retain_valid bls c d ((i, sig) # votes) w = do {
     a \<leftarrow> authority_safe c i;
     pk \<leftarrow> authority_protocol_key a;
     if \<not> nb_verify bls sig d pk then retain_valid bls c d votes (w - nc_stake c pk)
     else do { (kept, w') \<leftarrow> retain_valid bls c d votes w; Some ((i, sig) # kept, w') } }"

definition va_append ::
  "narwhal_bls \<Rightarrow> vote \<Rightarrow> narwhal_committee \<Rightarrow> header \<Rightarrow> votes_aggregator \<Rightarrow>
   ((dag_error + certificate option) \<times> votes_aggregator) option" where
  "va_append bls vote c h va =
     (let author = v_author vote in
      if author \<in> set (va_used va) then Some (Inl (AuthorityReuse author), va)
      else
        let va1 = va\<lparr>va_used := author # va_used va,
                     va_votes := va_votes va @ [(author, v_signature vote)],
                     va_weight := va_weight va + stake_by_id c author\<rparr>
        in if va_weight va1 \<ge> nc_quorum_threshold c
           then do {
             res \<leftarrow> new_unverified bls c h (va_votes va1);
             case res of
               Inl e \<Rightarrow> Some (Inl e, va1)
             | Inr cert \<Rightarrow> do {
                 (_, pks) \<leftarrow> signed_by cert c;
                 case aggregated_signature cert of
                   None \<Rightarrow> Some (Inl DagInvalidSignature, va1)
                 | Some b \<Rightarrow>
                     if \<not> nb_well_formed bls b then Some (Inl DagInvalidSignature, va1)
                     else if \<not> nb_verify_aggregate bls b (c_digest cert) pks
                     then do {
                       (votes, w) \<leftarrow> retain_valid bls c (c_digest cert) (va_votes va1) (va_weight va1);
                       Some (Inr None, va1\<lparr>va_votes := votes, va_weight := w\<rparr>) }
                     else Some (Inr (Some (cert\<lparr>c_signature_verification_state := VerifiedDirectly b\<rparr>)), va1) } }
           else Some (Inr None, va1))"

section \<open>CertificatesAggregator\<close>

record certificates_aggregator =
  ca_weight :: stake
  ca_certificates :: "certificate list"
  ca_used :: "authority_identifier list"

definition ca_new :: certificates_aggregator where
  "ca_new = \<lparr>ca_weight = 0, ca_certificates = [], ca_used = []\<rparr>"

definition ca_append ::
  "certificate \<Rightarrow> narwhal_committee \<Rightarrow> certificates_aggregator \<Rightarrow>
   certificate list option \<times> certificates_aggregator" where
  "ca_append x c ca =
     (let origin = c_origin x in
      if origin \<in> set (ca_used ca) then (None, ca)
      else
        let ca1 = ca\<lparr>ca_used := origin # ca_used ca,
                     ca_certificates := ca_certificates ca @ [x],
                     ca_weight := ca_weight ca + stake_by_id c origin\<rparr>
        in if ca_weight ca1 \<ge> nc_quorum_threshold c
           then (Some (ca_certificates ca1), ca1\<lparr>ca_certificates := []\<rparr>)
           else (None, ca1))"

section \<open>Invariants\<close>

definition keys_match :: "narwhal_committee \<Rightarrow> bool" where
  "keys_match c \<longleftrightarrow> (\<forall>(k, a) \<in> set (nc_authorities c). au_protocol_key a = k)"

definition va_inv :: "narwhal_committee \<Rightarrow> votes_aggregator \<Rightarrow> bool" where
  "va_inv c va \<longleftrightarrow> distinct (map fst (va_votes va)) \<and> fst ` set (va_votes va) \<subseteq> set (va_used va) \<and>
     unat (va_weight va) = sum (stake_nat c) (fst ` set (va_votes va))"

definition ca_inv :: "narwhal_committee \<Rightarrow> certificates_aggregator \<Rightarrow> bool" where
  "ca_inv c ca \<longleftrightarrow> distinct (ca_used ca) \<and> unat (ca_weight ca) = sum (stake_nat c) (set (ca_used ca))"

interpretation votes_agg: vote_counter "\<lambda>c. nc_wf c \<and> stake_fits c" "\<lambda>c. set (ids c)" stake_nat
  "\<lambda>c. unat (nc_quorum_threshold c)" "\<lambda>c. unat (nc_validity_threshold c)"
  va_inv "\<lambda>va. fst ` set (va_votes va)" "\<lambda>va. unat (va_weight va)"
proof unfold_locales
  fix c va assume "nc_wf c \<and> stake_fits c" "va_inv c va"
  then show "unat (va_weight va) \<le> sum (stake_nat c) (fst ` set (va_votes va) \<inter> set (ids c))"
    using stake_sum_ids [of c "fst ` set (va_votes va)"] by (simp add: va_inv_def)
qed

interpretation certs_agg: vote_counter "\<lambda>c. nc_wf c \<and> stake_fits c" "\<lambda>c. set (ids c)" stake_nat
  "\<lambda>c. unat (nc_quorum_threshold c)" "\<lambda>c. unat (nc_validity_threshold c)"
  ca_inv "\<lambda>ca. set (ca_used ca)" "\<lambda>ca. unat (ca_weight ca)"
proof unfold_locales
  fix c ca assume "nc_wf c \<and> stake_fits c" "ca_inv c ca"
  then show "unat (ca_weight ca) \<le> sum (stake_nat c) (set (ca_used ca) \<inter> set (ids c))"
    using stake_sum_ids [of c "set (ca_used ca)"] by (simp add: ca_inv_def)
qed

lemma unat_add_narwhal_stake:
  assumes "nc_wf c" "stake_fits c" "finite V" "a \<notin> V" "unat t = sum (stake_nat c) V"
  shows "unat (t + stake_by_id c a) = sum (stake_nat c) (insert a V)"
proof -
  have eq: "unat t + unat (stake_by_id c a) = sum (stake_nat c) (insert a V)"
    using assms(3-5) by (simp add: stake_nat_def)
  also have "\<dots> \<le> stake_total c" using assms(1,3) by (intro narwhal_stake_le) auto
  finally have "unat t + unat (stake_by_id c a) < 2 ^ LENGTH(64)"
    using assms(2) by (simp add: stake_fits_def)
  from unat_add_no_wrap [OF this] eq show ?thesis by simp
qed

lemma nc_stake_protocol_key:
  assumes "nc_wf c" "keys_match c" "authority_safe c i = Some a"
  shows "nc_stake c (au_protocol_key a) = stake_by_id c i"
proof -
  from assms(3) have a: "a \<in> set (authorities c)" "au_id a = i"
    using authority_safe_iff [OF assms(1)] by auto
  then obtain k where k: "(k, a) \<in> set (nc_authorities c)" by (auto simp: authorities_def)
  with assms(2) have "au_protocol_key a = k" by (auto simp: keys_match_def)
  moreover have "distinct (map fst (nc_authorities c))"
    using assms(1) by (simp add: nc_wf_def bt_wf_distinct)
  ultimately have "map_of (nc_authorities c) (au_protocol_key a) = Some a" using k by simp
  with assms(3) show ?thesis by (simp add: nc_stake_def stake_by_id_def authority_safe_def)
qed

text \<open>A recorded vote is valid when its signature verifies under the key of its author.\<close>

definition vote_valid ::
  "narwhal_bls \<Rightarrow> narwhal_committee \<Rightarrow> certificate_digest \<Rightarrow> authority_identifier \<times> signature \<Rightarrow> bool" where
  "vote_valid bls c d v = (case authority_safe c (fst v) of
     None \<Rightarrow> False | Some a \<Rightarrow> nb_verify bls (snd v) d (au_protocol_key a))"

lemma retain_valid_spec:
  assumes "nc_wf c" "keys_match c" "distinct (map fst votes)" "fst ` set votes \<subseteq> set (ids c)"
    and "unat w = sum (stake_nat c) (fst ` set votes) + extra"
  shows "\<exists>w'. retain_valid bls c d votes w = Some (filter (vote_valid bls c d) votes, w') \<and>
    unat w' = sum (stake_nat c) (fst ` set (filter (vote_valid bls c d) votes)) + extra"
  using assms(3-5)
proof (induction votes arbitrary: w extra)
  case (Cons v votes)
  obtain i sig where v: "v = (i, sig)" by (cases v)
  obtain a where a: "authority_safe c i = Some a"
    using Cons.prems(2) authority_safe_member [OF assms(1), of i] by (auto simp: v)
  then have "au_initialised a"
    using authority_safe_iff [OF assms(1)] nc_wf_authorities(2) [OF assms(1)] by blast
  then have pk: "authority_protocol_key a = Some (au_protocol_key a)"
    by (simp add: authority_protocol_key_def panic_unless_def)
  have valid: "vote_valid bls c d (i, sig) \<longleftrightarrow> nb_verify bls sig d (au_protocol_key a)"
    using a by (simp add: vote_valid_def)
  have notin: "i \<notin> fst ` set votes" and dist: "distinct (map fst votes)"
    and sub: "fst ` set votes \<subseteq> set (ids c)" using Cons.prems by (auto simp: v)
  have w: "unat w = stake_nat c i + sum (stake_nat c) (fst ` set votes) + extra"
    using Cons.prems(3) notin by (simp add: v)
  show ?case
  proof (cases "nb_verify bls sig d (au_protocol_key a)")
    case True
    from w have "unat w = sum (stake_nat c) (fst ` set votes) + (stake_nat c i + extra)" by simp
    from Cons.IH [OF dist sub this] obtain w' where
      IH: "retain_valid bls c d votes w = Some (filter (vote_valid bls c d) votes, w')"
        "unat w' = sum (stake_nat c) (fst ` set (filter (vote_valid bls c d) votes)) + (stake_nat c i + extra)"
      by blast
    have "i \<notin> fst ` set (filter (vote_valid bls c d) votes)" using notin by auto
    with IH True a pk show ?thesis by (simp add: v valid)
  next
    case False
    have st: "nc_stake c (au_protocol_key a) = stake_by_id c i"
      by (rule nc_stake_protocol_key [OF assms(1,2) a])
    have "unat (w - nc_stake c (au_protocol_key a)) = sum (stake_nat c) (fst ` set votes) + extra"
      using w by (simp add: st unat_sub word_le_nat_alt stake_nat_def)
    from Cons.IH [OF dist sub this] False a pk show ?thesis by (simp add: v valid)
  qed
qed simp

lemma filter_votes_total:
  assumes "\<forall>(_, a) \<in> set ias. au_initialised a"
  shows "filter_votes ias votes w sigs idx \<noteq> None"
  using assms
  by (induction ias votes w sigs idx rule: filter_votes.induct)
    (auto simp: authority_id_def authority_stake_def panic_unless_def)

lemma new_unverified_total:
  assumes "nc_wf c"
  shows "new_unverified bls c h votes \<noteq> None"
  using filter_votes_total [OF enumerate_authorities(3) [OF assms], of "sort_key fst votes" 0 "[]" "[]"]
  by (auto simp: new_unverified_def new_unsafe_def)

text \<open>One call of \<^verbatim>\<open>append\<close>: it does not panic, keeps the invariant, and what a returned certificate
  has been checked for.\<close>

lemma va_append_total:
  assumes "nc_wf c" "stake_fits c" "keys_match c" "va_inv c va"
  shows "\<exists>r va'. va_append bls vote c h va = Some (r, va') \<and> va_inv c va' \<and>
    (\<forall>x. r = Inr (Some x) \<longrightarrow> c_header x = h \<and>
      set (cert_signers c x) = insert (v_author vote) (fst ` set (va_votes va)) \<and>
      unat (nc_quorum_threshold c) \<le> sum (stake_nat c) (set (cert_signers c x)) \<and>
      (\<exists>b. c_signature_verification_state x = VerifiedDirectly b \<and>
        nb_verify_aggregate bls b (h_digest h)
          (map au_protocol_key (selected (c_signed_authorities x) 0 (authorities c)))))"
proof (cases "v_author vote \<in> set (va_used va)")
  case True
  with assms(4) show ?thesis by (simp add: va_append_def Let_def)
next
  case False
  let ?a = "v_author vote"
  let ?votes = "va_votes va @ [(?a, v_signature vote)]"
  let ?w = "va_weight va + stake_by_id c ?a"
  let ?va1 = "va\<lparr>va_used := ?a # va_used va, va_votes := ?votes, va_weight := ?w\<rparr>"
  have fresh: "?a \<notin> fst ` set (va_votes va)" using False assms(4) by (auto simp: va_inv_def)
  have w: "unat ?w = sum (stake_nat c) (insert ?a (fst ` set (va_votes va)))"
    using assms(4) fresh by (intro unat_add_narwhal_stake [OF assms(1,2)]) (auto simp: va_inv_def)
  have inv1: "va_inv c ?va1" using assms(4) fresh w by (auto simp: va_inv_def)
  show ?thesis
  proof (cases "?w \<ge> nc_quorum_threshold c")
    case short: False
    with False inv1 show ?thesis by (simp add: va_append_def Let_def)
  next
    case enough: True
    obtain res where res: "new_unverified bls c h ?votes = Some res"
      using new_unverified_total [OF assms(1)] by blast
    show ?thesis
    proof (cases res)
      case (Inl e)
      with False inv1 enough res show ?thesis by (simp add: va_append_def Let_def)
    next
      case (Inr cert)
      with res have new: "new_unsafe bls c h ?votes True = Some (Inr cert)"
        by (simp add: new_unverified_def)
      note sound = new_unsafe_sound [OF new assms(1,2)]
      obtain b where b: "c_signature_verification_state cert = Unverified b" using sound(5) by auto
      let ?pks = "map au_protocol_key (selected (c_signed_authorities cert) 0 (authorities c))"
      have sb: "\<exists>w. signed_by cert c = Some (w, ?pks)"
        using signed_by_spec [OF assms(1) sound(2)] by simp
      have agg: "aggregated_signature cert = Some b" using b by (simp add: aggregated_signature_def)
      have "set (cert_signers c cert) \<subseteq> set (ids c)" by (rule distinct_cert_signers(2) [OF assms(1)])
      then have sub: "fst ` set ?votes \<subseteq> set (ids c)" using sound(3) by simp
      have "unat ?w = sum (stake_nat c) (fst ` set ?votes) + 0" using w by simp
      from retain_valid_spec [OF assms(1,3) _ sub this, of bls "c_digest cert"] inv1
      obtain w' where ret: "retain_valid bls c (c_digest cert) ?votes ?w
          = Some (filter (vote_valid bls c (c_digest cert)) ?votes, w')"
        and w': "unat w' = sum (stake_nat c) (fst ` set (filter (vote_valid bls c (c_digest cert)) ?votes))"
        by (auto simp: va_inv_def)
      have inv2: "va_inv c (?va1\<lparr>va_votes := filter (vote_valid bls c (c_digest cert)) ?votes, va_weight := w'\<rparr>)"
        using inv1 w' by (auto simp: va_inv_def distinct_map_filter)
      have cs: "cert_signers c (cert\<lparr>c_signature_verification_state := s\<rparr>) = cert_signers c cert" for s
        by (simp add: cert_signers_def)
      have q: "unat (nc_quorum_threshold c) \<le> sum (stake_nat c) (fst ` set ?votes)"
        by (rule sound(4)) simp
      have dig: "c_digest cert = h_digest h" using sound(1) by (simp add: c_digest_def)
      show ?thesis
        using False enough res Inr sb agg ret inv1 inv2 sound(1,3) q cs dig
        by (auto simp: va_append_def Let_def)
    qed
  qed
qed

lemma ca_append_inv:
  assumes "nc_wf c" "stake_fits c" "ca_inv c ca" "ca_append x c ca = (r, ca')"
  shows "ca_inv c ca'" "set (ca_used ca') = insert (c_origin x) (set (ca_used ca))"
    "r \<noteq> None \<longleftrightarrow> c_origin x \<notin> set (ca_used ca) \<and>
       unat (nc_quorum_threshold c) \<le> sum (stake_nat c) (insert (c_origin x) (set (ca_used ca)))"
    "(case r of None \<Rightarrow> [] | Some cs \<Rightarrow> cs) @ ca_certificates ca'
       = ca_certificates ca @ (if c_origin x \<in> set (ca_used ca) then [] else [x])"
proof -
  have w: "unat (ca_weight ca + stake_by_id c (c_origin x))
      = sum (stake_nat c) (insert (c_origin x) (set (ca_used ca)))" if "c_origin x \<notin> set (ca_used ca)"
    using that assms(3) by (intro unat_add_narwhal_stake [OF assms(1,2)]) (auto simp: ca_inv_def)
  show "ca_inv c ca'" "set (ca_used ca') = insert (c_origin x) (set (ca_used ca))"
    "r \<noteq> None \<longleftrightarrow> c_origin x \<notin> set (ca_used ca) \<and>
       unat (nc_quorum_threshold c) \<le> sum (stake_nat c) (insert (c_origin x) (set (ca_used ca)))"
    "(case r of None \<Rightarrow> [] | Some cs \<Rightarrow> cs) @ ca_certificates ca'
       = ca_certificates ca @ (if c_origin x \<in> set (ca_used ca) then [] else [x])"
    using assms(3,4) w
    by (auto simp: ca_append_def Let_def ca_inv_def word_le_nat_alt split: if_splits)
qed

text \<open>Feeding a list of certificates to an aggregator, with everything it returned.\<close>

fun ca_append_all ::
  "certificate list \<Rightarrow> narwhal_committee \<Rightarrow> certificates_aggregator \<Rightarrow>
   certificate list list \<times> certificates_aggregator" where
  "ca_append_all [] c ca = ([], ca)"
| "ca_append_all (x # xs) c ca =
     (let (r, ca1) = ca_append x c ca; (rs, ca2) = ca_append_all xs c ca1
      in ((case r of None \<Rightarrow> rs | Some cs \<Rightarrow> cs # rs), ca2))"

text \<open>The first certificate of every origin.\<close>

fun firsts :: "authority_identifier set \<Rightarrow> certificate list \<Rightarrow> certificate list" where
  "firsts seen [] = []"
| "firsts seen (x # xs) =
     (if c_origin x \<in> seen then firsts seen xs else x # firsts (insert (c_origin x) seen) xs)"

lemma ca_append_all_spec:
  assumes "nc_wf c" "stake_fits c" "ca_inv c ca" "ca_append_all xs c ca = (rs, ca')"
  shows "ca_inv c ca' \<and> set (ca_used ca') = set (ca_used ca) \<union> c_origin ` set xs \<and>
    concat rs @ ca_certificates ca' = ca_certificates ca @ firsts (set (ca_used ca)) xs"
  using assms(3,4)
proof (induction xs arbitrary: ca rs)
  case (Cons x xs)
  obtain r ca1 where app: "ca_append x c ca = (r, ca1)" by (cases "ca_append x c ca")
  obtain rs1 where rec: "ca_append_all xs c ca1 = (rs1, ca')"
    and rs: "rs = (case r of None \<Rightarrow> rs1 | Some cs \<Rightarrow> cs # rs1)"
    using Cons.prems(2) app by (auto simp: Let_def split: prod.splits)
  note step = ca_append_inv [OF assms(1,2) Cons.prems(1) app]
  note IH = Cons.IH [OF step(1) rec]
  have "concat rs = (case r of None \<Rightarrow> [] | Some cs \<Rightarrow> cs) @ concat rs1"
    by (simp add: rs split: option.splits)
  then have "concat rs @ ca_certificates ca'
      = ((case r of None \<Rightarrow> [] | Some cs \<Rightarrow> cs) @ ca_certificates ca1) @ firsts (set (ca_used ca1)) xs"
    using IH by simp
  then show ?case using IH step(2) unfolding step(4) by (auto simp: insert_absorb)
qed (simp add: Let_def)

section \<open>Properties\<close>

text \<open>
  C34. \<^verbatim>\<open>VotesAggregator::append\<close> does not panic, keeps its weight equal to the stake of the recorded
  voters, and a certificate it returns is for the given header, is signed by exactly the recorded
  voters, who hold a quorum, and its aggregate signature has been verified under their keys.
\<close>

theorem votes_aggregator_append_correct:
  assumes "nc_wf c" "stake_fits c" "keys_match c" "va_inv c va"
  shows "\<exists>r va'. va_append bls vote c h va = Some (r, va') \<and> va_inv c va' \<and>
    (\<forall>x. r = Inr (Some x) \<longrightarrow> c_header x = h \<and>
      set (cert_signers c x) = insert (v_author vote) (fst ` set (va_votes va)) \<and>
      unat (nc_quorum_threshold c) \<le> sum (stake_nat c) (set (cert_signers c x)) \<and>
      (\<exists>b. c_signature_verification_state x = VerifiedDirectly b \<and>
        nb_verify_aggregate bls b (h_digest h)
          (map au_protocol_key (selected (c_signed_authorities x) 0 (authorities c)))))"
  using assms by (rule va_append_total)

text \<open>
  C35. After any sequence of certificates a fresh \<^verbatim>\<open>CertificatesAggregator\<close> has returned, in order and
  without repetition, the first certificate of every origin up to the ones still pending, and the next
  certificate makes it return exactly when its origin is new and the origins seen hold a quorum.
\<close>

theorem certificates_aggregator_correct:
  assumes "nc_wf c" "stake_fits c" "ca_append_all xs c ca_new = (rs, ca)"
  shows "concat rs @ ca_certificates ca = firsts {} xs \<and>
    (fst (ca_append x c ca) \<noteq> None \<longleftrightarrow> c_origin x \<notin> c_origin ` set xs \<and>
      unat (nc_quorum_threshold c) \<le> sum (stake_nat c) (insert (c_origin x) (c_origin ` set xs)))"
proof -
  have "ca_inv c ca_new" by (simp add: ca_inv_def ca_new_def)
  note spec = ca_append_all_spec [OF assms(1,2) this assms(3)]
  have used: "set (ca_used ca) = c_origin ` set xs" using spec by (simp add: ca_new_def)
  obtain r ca' where app: "ca_append x c ca = (r, ca')" by (cases "ca_append x c ca")
  from ca_append_inv(3) [OF assms(1,2) conjunct1 [OF spec] app] app spec used
  show ?thesis by (simp add: ca_new_def)
qed

lemma demo_nc_thresholds: "nc_quorum_threshold demo_nc = 3" "nc_validity_threshold demo_nc = 2"
  by (simp_all add: demo_nc_def)

lemma demo_nc_authorities: "authorities demo_nc = map demo_authority [0, 1, 2, 3]"
  by (simp add: demo_nc_def authorities_def)

theorem certificates_aggregator_correct_witness:
  "\<exists>rs ca. ca_append_all [demo_certificate 0 [] [], demo_certificate 1 [] [], demo_certificate 0 [] []] demo_nc ca_new
      = (rs, ca) \<and> rs = [] \<and> fst (ca_append (demo_certificate 2 [] []) demo_nc ca) \<noteq> None"
proof -
  let ?xs = "[demo_certificate 0 [] [], demo_certificate 1 [] [], demo_certificate 0 [] []]"
  obtain rs ca where run: "ca_append_all ?xs demo_nc ca_new = (rs, ca)"
    by (cases "ca_append_all ?xs demo_nc ca_new")
  have rs: "rs = []"
    using run by (simp add: ca_append_def ca_new_def demo_certificate_def c_origin_def demo_header_def
        demo_nc_stake demo_nc_thresholds Let_def word_le_nat_alt)
  have org: "c_origin (demo_certificate i [] []) = word_of_nat i" for i
    by (simp add: c_origin_def demo_certificate_def demo_header_def)
  have "insert (c_origin (demo_certificate 2 [] [])) (c_origin ` set ?xs) = {0, 1, 2}"
    by (auto simp: org)
  then have "unat (nc_quorum_threshold demo_nc) \<le> sum (stake_nat demo_nc)
      (insert (c_origin (demo_certificate 2 [] [])) (c_origin ` set ?xs))"
    by (simp add: stake_nat_def demo_nc_stake demo_nc_thresholds)
  with certificates_aggregator_correct [OF demo_nc_wf demo_nc_fits run, of "demo_certificate 2 [] []"]
  have "fst (ca_append (demo_certificate 2 [] []) demo_nc ca) \<noteq> None" by (simp add: org)
  with run rs show ?thesis by blast
qed

theorem votes_aggregator_append_correct_witness:
  "\<exists>x va'. va_append demo_nbls \<lparr>v_header_digest = 100, v_round = 1, v_epoch = 5, v_origin = 0, v_author = 2,
      v_signature = 20\<rparr> demo_nc (demo_header 1 0)
      \<lparr>va_weight = 2, va_votes = [(1, 10), (0, 0)], va_used = [0, 1]\<rparr> = Some (Inr (Some x), va') \<and>
    set (cert_signers demo_nc x) = {0, 1, 2}"
proof -
  let ?vote = "\<lparr>v_header_digest = 100, v_round = 1, v_epoch = 5, v_origin = 0, v_author = 2, v_signature = 20\<rparr>"
  let ?va = "\<lparr>va_weight = 2, va_votes = [(1, 10), (0, 0)], va_used = [0, 1]\<rparr>"
  have km: "keys_match demo_nc" by (simp add: keys_match_def demo_nc_def demo_authority_def)
  have inv: "va_inv demo_nc ?va" by (simp add: va_inv_def stake_nat_def demo_nc_stake)
  let ?cert = "\<lparr>c_header = demo_header 1 0, c_signature_verification_state = Unverified [0, 10, 20],
    c_signed_authorities = [0, 1, 2]\<rparr>"
  have new: "new_unverified demo_nbls demo_nc (demo_header 1 0) [(1, 10), (0, 0), (2, 20)] = Some (Inr ?cert)"
    by (simp add: new_unverified_def new_unsafe_def demo_nc_authorities demo_authority_def authority_id_def
        authority_stake_def panic_unless_def demo_nc_thresholds demo_nbls_def ok_or_def word_less_nat_alt)
  have sb: "signed_by ?cert demo_nc = Some (3, [0, 10, 20])"
    by (simp add: signed_by_def demo_nc_authorities demo_authority_def authority_stake_def
        authority_protocol_key_def panic_unless_def)
  have run: "\<exists>x va'. va_append demo_nbls ?vote demo_nc (demo_header 1 0) ?va = Some (Inr (Some x), va')"
    using new sb
    by (simp add: va_append_def demo_nc_stake demo_nc_thresholds aggregated_signature_def demo_nbls_def Let_def)
  then obtain x va' where "va_append demo_nbls ?vote demo_nc (demo_header 1 0) ?va = Some (Inr (Some x), va')"
    by blast
  with votes_aggregator_append_correct [OF demo_nc_wf demo_nc_fits km inv, of demo_nbls ?vote "demo_header 1 0"]
  show ?thesis by auto
qed

end
