(* ===== verification/Synchronizer.thy ===== *)
theory Synchronizer
  imports Certificate_Store Narwhal_Aggregators
begin

text \<open>
  \<^verbatim>\<open>narwhal/primary/src/synchronizer.rs\<close>: which certificates a primary accepts, and in which order it
  hands them to consensus. The record \<open>synchronizer\<close> is \<^verbatim>\<open>Inner\<close>; what its channels have carried so far are
  the logs \<open>sy_tx_...\<close>, and no channel closes. A handler runs while it holds the state lock, so it is
  one step. Certificates have version 2. Reading the store succeeds; \<open>db_ok\<close> says of a digest whether
  writing its certificate does. The iteration order of a hash set of digests is the parameter \<open>iter\<close>.
  Notifying waiters and metrics are left out.
\<close>

section \<open>Suspended certificates\<close>

record suspended_certificate =
  sc_certificate :: certificate
  sc_missing_parents :: "certificate_digest list"

record sync_state =
  ss_suspended :: "(certificate_digest \<times> suspended_certificate) list"
  ss_missing :: "((round \<times> certificate_digest) \<times> certificate_digest list) list"

definition sync_state_default :: sync_state where
  "sync_state_default = \<lparr>ss_suspended = [], ss_missing = []\<rparr>"

definition check_suspended :: "certificate_digest \<Rightarrow> sync_state \<Rightarrow> bool" where
  "check_suspended d st \<longleftrightarrow> map_of (ss_suspended st) d \<noteq> None"

text \<open>The loop that registers a suspended digest under each missing parent.\<close>

fun insert_missing ::
  "round \<Rightarrow> certificate_digest \<Rightarrow> certificate_digest list \<Rightarrow>
   ((round \<times> certificate_digest) \<times> certificate_digest list) list \<Rightarrow>
   ((round \<times> certificate_digest) \<times> certificate_digest list) list option" where
  "insert_missing r digest [] missing = Some missing"
| "insert_missing r digest (d # ds) missing = do {
     let children = (case map_of missing (r, d) of None \<Rightarrow> [] | Some ch \<Rightarrow> ch);
     panic_unless (digest \<notin> set children);
     insert_missing r digest ds (bt_insert (r, d) (children @ [digest]) missing) }"

definition sync_state_insert ::
  "certificate \<Rightarrow> certificate_digest list \<Rightarrow> bool \<Rightarrow> sync_state \<Rightarrow> sync_state option" where
  "sync_state_insert x missing_parents allow_reinsert st =
     (let digest = c_digest x;
          missing_round = u64_sub (c_round x) 1;
          missing_parents_map = remdups missing_parents
      in case (if allow_reinsert then map_of (ss_suspended st) digest else None) of
           Some suspended_cert \<Rightarrow> do {
             panic_unless (set (sc_missing_parents suspended_cert) = set missing_parents_map);
             Some st }
         | None \<Rightarrow> do {
             panic_unless (map_of (ss_suspended st) digest = None);
             missing \<leftarrow> insert_missing missing_round digest missing_parents (ss_missing st);
             Some \<lparr>ss_suspended = AList.update digest
                     \<lparr>sc_certificate = x, sc_missing_parents = missing_parents_map\<rparr> (ss_suspended st),
                   ss_missing = missing\<rparr> })"

text \<open>The loop over the children of a digest that is no longer missing: what is queued for traversal,
  what can be accepted, and the suspended certificates left.\<close>

fun accept_child_loop ::
  "certificate_digest \<Rightarrow> certificate_digest list \<Rightarrow> (round \<times> certificate_digest) list \<Rightarrow>
   suspended_certificate list \<Rightarrow> (certificate_digest \<times> suspended_certificate) list \<Rightarrow>
   ((round \<times> certificate_digest) list \<times> suspended_certificate list \<times>
      (certificate_digest \<times> suspended_certificate) list) option" where
  "accept_child_loop digest [] to_traverse to_accept suspended = Some (to_traverse, to_accept, suspended)"
| "accept_child_loop digest (child # children) to_traverse to_accept suspended =
     (case map_of suspended child of
        None \<Rightarrow> None
      | Some sc \<Rightarrow>
          let sc1 = sc\<lparr>sc_missing_parents := removeAll digest (sc_missing_parents sc)\<rparr> in
          if sc_missing_parents sc1 = []
          then accept_child_loop digest children
                 (to_traverse @ [(c_round (sc_certificate sc1), c_digest (sc_certificate sc1))])
                 (to_accept @ [sc1]) (AList.delete child suspended)
          else accept_child_loop digest children to_traverse to_accept (AList.update child sc1 suspended))"

lemma length_delete_less: "map_of m k = Some v \<Longrightarrow> length (AList.delete k m) < length m"
  by (induction m) (auto simp: length_delete_le le_imp_less_Suc split: if_splits)

function accept_children_loop ::
  "(certificate_digest list \<Rightarrow> certificate_digest list) \<Rightarrow> (round \<times> certificate_digest) list \<Rightarrow>
   suspended_certificate list \<Rightarrow> sync_state \<Rightarrow> (suspended_certificate list \<times> sync_state) option" where
  "accept_children_loop iter [] to_accept st = Some (to_accept, st)"
| "accept_children_loop iter ((r, digest) # to_traverse) to_accept st =
     (case map_of (ss_missing st) (r, digest) of
        None \<Rightarrow> accept_children_loop iter to_traverse to_accept st
      | Some child_digests \<Rightarrow>
          (case accept_child_loop digest (iter child_digests) to_traverse to_accept (ss_suspended st) of
             None \<Rightarrow> None
           | Some (to_traverse', to_accept', suspended') \<Rightarrow>
               accept_children_loop iter to_traverse' to_accept'
                 \<lparr>ss_suspended = suspended', ss_missing = AList.delete (r, digest) (ss_missing st)\<rparr>))"
  by pat_completeness auto
termination
  by (relation "measures [\<lambda>(_, _, _, st). length (ss_missing st), \<lambda>(_, q, _, _). length q]")
    (auto simp: length_delete_less)

definition accept_children ::
  "(certificate_digest list \<Rightarrow> certificate_digest list) \<Rightarrow> round \<Rightarrow> certificate_digest \<Rightarrow> sync_state \<Rightarrow>
   (suspended_certificate list \<times> sync_state) option" where
  "accept_children iter r digest st = do {
     panic_unless (map_of (ss_suspended st) digest = None);
     accept_children_loop iter [(r, digest)] [] st }"

definition run_gc_once ::
  "round \<Rightarrow> sync_state \<Rightarrow>
   (((round \<times> certificate_digest) \<times> suspended_certificate option) \<times> sync_state) option" where
  "run_gc_once gc_round st =
     (case ss_missing st of
        [] \<Rightarrow> None
      | ((r, digest), _) # _ \<Rightarrow>
          if r > gc_round then None
          else
            let suspended = map_option (\<lambda>sc. sc\<lparr>sc_missing_parents := []\<rparr>) (map_of (ss_suspended st) digest)
            in Some (((r, digest), suspended), st\<lparr>ss_suspended := AList.delete digest (ss_suspended st)\<rparr>))"

definition num_suspended :: "sync_state \<Rightarrow> nat" where
  "num_suspended st = length (ss_suspended st)"

section \<open>The synchronizer\<close>

datatype certificate_fetcher_command = Ancestors certificate | Kick

record 't synchronizer =
  sy_authority_id :: authority_identifier
  sy_committee :: narwhal_committee
  sy_worker_cache :: worker_cache
  sy_gc_depth :: round
  sy_gc_round :: round
  sy_highest_processed_round :: round
  sy_highest_received_round :: round
  sy_certificate_store :: "'t certificate_store"
  sy_genesis :: "(certificate_digest \<times> certificate) list"
  sy_aggregators :: "(round \<times> certificates_aggregator) list"
  sy_state :: sync_state
  sy_tx_new_certificates :: "certificate list"
  sy_tx_parents :: "(certificate list \<times> round) list"
  sy_tx_certificate_fetcher :: "certificate_fetcher_command list"
  sy_tx_batch_tasks :: "(header \<times> round) list"
  sy_tx_own_certificate_broadcast :: "certificate list"

abbreviation new_certificate_round_limit :: round where
  "new_certificate_round_limit \<equiv> 1000"

definition inner_sanitize_certificate ::
  "narwhal_bls \<Rightarrow> header_hash \<Rightarrow> certificate \<Rightarrow> 't synchronizer \<Rightarrow> (dag_error + certificate) option" where
  "inner_sanitize_certificate bls hash x sy =
     (if nc_epoch (sy_committee sy) \<noteq> c_epoch x
      then Some (Inl (InvalidEpoch (nc_epoch (sy_committee sy)) (c_epoch x)))
      else if \<not> sy_gc_round sy < c_round x
      then Some (Inl (TooOld (c_digest x) (c_round x) (sy_gc_round sy)))
      else cert_verify bls hash (sy_committee sy) (sy_worker_cache sy) x)"

definition append_certificate_in_aggregator :: "certificate \<Rightarrow> 't synchronizer \<Rightarrow> 't synchronizer" where
  "append_certificate_in_aggregator x sy =
     (let ag = (case map_of (sy_aggregators sy) (c_round x) of None \<Rightarrow> ca_new | Some ag \<Rightarrow> ag);
          (parents, ag') = ca_append x (sy_committee sy) ag;
          sy1 = sy\<lparr>sy_aggregators := bt_insert (c_round x) ag' (sy_aggregators sy)\<rparr>
      in case parents of
           None \<Rightarrow> sy1
         | Some ps \<Rightarrow> sy1\<lparr>sy_tx_parents := sy_tx_parents sy1 @ [(ps, c_round x)]\<rparr>)"

definition verified_or_genesis :: "certificate \<Rightarrow> bool" where
  "verified_or_genesis x \<longleftrightarrow>
     (case c_signature_verification_state x of
        VerifiedDirectly _ \<Rightarrow> True | VerifiedIndirectly _ \<Rightarrow> True | Genesis \<Rightarrow> True | _ \<Rightarrow> False)"

definition accept_certificate_internal ::
  "'t cache \<Rightarrow> (certificate_digest \<Rightarrow> bool) \<Rightarrow> certificate \<Rightarrow> 't synchronizer \<Rightarrow> 't synchronizer option" where
  "accept_certificate_internal ca db_ok x sy = do {
     panic_unless (c_round x > u64_add (sy_gc_round sy) 1 \<longrightarrow>
       list_all (\<lambda>(_, exists). exists) (zip (c_parents x) (cert_multi_contains ca (c_parents x) (sy_certificate_store sy))));
     panic_unless (verified_or_genesis x);
     let (written, store) = cert_write ca (db_ok (c_digest x)) x (sy_certificate_store sy);
     panic_unless (written = Inr ());
     let sy1 = append_certificate_in_aggregator x
       (sy\<lparr>sy_certificate_store := store,
           sy_highest_processed_round := max (sy_highest_processed_round sy) (c_round x)\<rparr>);
     Some (sy1\<lparr>sy_tx_new_certificates := sy_tx_new_certificates sy1 @ [x]\<rparr>) }"

fun accept_suspended_certificates ::
  "'t cache \<Rightarrow> (certificate_digest \<Rightarrow> bool) \<Rightarrow> suspended_certificate list \<Rightarrow> 't synchronizer \<Rightarrow> 't synchronizer option" where
  "accept_suspended_certificates ca db_ok [] sy = Some sy"
| "accept_suspended_certificates ca db_ok (sc # scs) sy = do {
     sy1 \<leftarrow> accept_certificate_internal ca db_ok (sc_certificate sc) sy;
     accept_suspended_certificates ca db_ok scs sy1 }"

definition get_unknown_parent_digests ::
  "'t cache \<Rightarrow> header \<Rightarrow> 't synchronizer \<Rightarrow> dag_error + certificate_digest list" where
  "get_unknown_parent_digests ca h sy =
     (if h_round h = 1
      then case List.find (\<lambda>d. map_of (sy_genesis sy) d = None) (h_parents h) of
             Some d \<Rightarrow> Inl (InvalidGenesisParent d)
           | None \<Rightarrow> Inr []
      else
        let existence = cert_multi_contains ca (h_parents h) (sy_certificate_store sy);
            unknown = map fst (filter (\<lambda>(_, exists). \<not> exists) (zip (h_parents h) existence))
        in Inr (filter (\<lambda>d. map_of (ss_suspended (sy_state sy)) d = None) unknown))"

definition get_missing_parents ::
  "'t cache \<Rightarrow> certificate \<Rightarrow> 't synchronizer \<Rightarrow> (dag_error + certificate_digest list) \<times> 't synchronizer" where
  "get_missing_parents ca x sy =
     (if c_round x = 1
      then case List.find (\<lambda>d. map_of (sy_genesis sy) d = None) (c_parents x) of
             Some d \<Rightarrow> (Inl (InvalidGenesisParent d), sy)
           | None \<Rightarrow> (Inr [], sy)
      else
        let existence = cert_multi_contains ca (c_parents x) (sy_certificate_store sy);
            result = map fst (filter (\<lambda>(_, exists). \<not> exists) (zip (c_parents x) existence))
        in (Inr result,
            if result \<noteq> [] then sy\<lparr>sy_tx_certificate_fetcher := sy_tx_certificate_fetcher sy @ [Ancestors x]\<rparr>
            else sy))"

section \<open>Accepting certificates under the lock\<close>

definition accept_with_children ::
  "'t cache \<Rightarrow> (certificate_digest \<Rightarrow> bool) \<Rightarrow> (certificate_digest list \<Rightarrow> certificate_digest list) \<Rightarrow>
   certificate \<Rightarrow> 't synchronizer \<Rightarrow> 't synchronizer option" where
  "accept_with_children ca db_ok iter x sy = do {
     (suspended_certs, st) \<leftarrow> accept_children iter (c_round x) (c_digest x) (sy_state sy);
     sy1 \<leftarrow> accept_certificate_internal ca db_ok x (sy\<lparr>sy_state := st\<rparr>);
     accept_suspended_certificates ca db_ok suspended_certs sy1 }"

fun with_lock_loop ::
  "'t cache \<Rightarrow> (certificate_digest \<Rightarrow> bool) \<Rightarrow> (certificate_digest list \<Rightarrow> certificate_digest list) \<Rightarrow> bool \<Rightarrow>
   certificate list \<Rightarrow> dag_error + unit \<Rightarrow> 't synchronizer \<Rightarrow> ((dag_error + unit) \<times> 't synchronizer) option" where
  "with_lock_loop ca db_ok iter early_suspend [] result sy = Some (result, sy)"
| "with_lock_loop ca db_ok iter early_suspend (x # xs) result sy =
     (if early_suspend \<and> check_suspended (c_digest x) (sy_state sy)
      then with_lock_loop ca db_ok iter early_suspend xs (Inl DagSuspended) sy
      else if c_round x > u64_add (sy_gc_round sy) 1
      then case get_missing_parents ca x sy of
             (Inl e, sy1) \<Rightarrow> Some (Inl e, sy1)
           | (Inr missing_parents, sy1) \<Rightarrow>
               if missing_parents \<noteq> []
               then do {
                 st \<leftarrow> sync_state_insert x missing_parents (\<not> early_suspend) (sy_state sy1);
                 with_lock_loop ca db_ok iter early_suspend xs (Inl DagSuspended) (sy1\<lparr>sy_state := st\<rparr>) }
               else do {
                 sy2 \<leftarrow> accept_with_children ca db_ok iter x sy1;
                 with_lock_loop ca db_ok iter early_suspend xs result sy2 }
      else do {
        sy2 \<leftarrow> accept_with_children ca db_ok iter x sy;
        with_lock_loop ca db_ok iter early_suspend xs result sy2 })"

definition process_certificates_with_lock ::
  "'t cache \<Rightarrow> (certificate_digest \<Rightarrow> bool) \<Rightarrow> (certificate_digest list \<Rightarrow> certificate_digest list) \<Rightarrow>
   certificate list \<Rightarrow> bool \<Rightarrow> 't synchronizer \<Rightarrow> ((dag_error + unit) \<times> 't synchronizer) option" where
  "process_certificates_with_lock ca db_ok iter certificates early_suspend sy =
     (let exists = cert_multi_contains ca (map c_digest certificates) (sy_certificate_store sy);
          new = map fst (filter (\<lambda>(_, exist). \<not> exist) (zip certificates exists))
      in if new = [] then Some (Inr (), sy)
         else with_lock_loop ca db_ok iter early_suspend new (Inr ()) sy)"

definition verified_state :: "certificate \<Rightarrow> bool" where
  "verified_state x \<longleftrightarrow>
     (case c_signature_verification_state x of
        VerifiedDirectly _ \<Rightarrow> True | VerifiedIndirectly _ \<Rightarrow> True | _ \<Rightarrow> False)"

text \<open>The task that runs the function above for every request.\<close>

definition certificate_acceptor ::
  "'t cache \<Rightarrow> (certificate_digest \<Rightarrow> bool) \<Rightarrow> (certificate_digest list \<Rightarrow> certificate_digest list) \<Rightarrow>
   certificate list \<Rightarrow> bool \<Rightarrow> 't synchronizer \<Rightarrow> ((dag_error + unit) \<times> 't synchronizer) option" where
  "certificate_acceptor ca db_ok iter certificates early_suspend sy = do {
     panic_unless (list_all verified_state certificates);
     process_certificates_with_lock ca db_ok iter certificates early_suspend sy }"

section \<open>Entry points\<close>

text \<open>What a primary does to a certificate it receives: whatever state the sender put there, the
  signature counts as unverified.\<close>

definition validate_received_certificate_version :: "certificate \<Rightarrow> certificate option" where
  "validate_received_certificate_version x =
     map_option (\<lambda>sig. x\<lparr>c_signature_verification_state := Unverified sig\<rparr>) (aggregated_signature x)"

definition sync_process_certificate_internal ::
  "'t cache \<Rightarrow> narwhal_bls \<Rightarrow> header_hash \<Rightarrow> (certificate_digest \<Rightarrow> bool) \<Rightarrow>
   (certificate_digest list \<Rightarrow> certificate_digest list) \<Rightarrow> certificate \<Rightarrow> bool \<Rightarrow> bool \<Rightarrow> 't synchronizer \<Rightarrow>
   ((dag_error + unit) \<times> 't synchronizer) option" where
  "sync_process_certificate_internal ca bls hash db_ok iter certificate early_suspend sanitize sy =
     (if cert_contains ca (c_digest certificate) (sy_certificate_store sy) then Some (Inr (), sy)
      else if early_suspend \<and> check_suspended (c_digest certificate) (sy_state sy) then Some (Inl DagSuspended, sy)
      else do {
        sanitized \<leftarrow> (if sanitize then inner_sanitize_certificate bls hash certificate sy else Some (Inr certificate));
        case sanitized of
          Inl e \<Rightarrow> Some (Inl e, sy)
        | Inr x \<Rightarrow>
            let sy1 = sy\<lparr>sy_highest_received_round := max (sy_highest_received_round sy) (c_round x),
                         sy_tx_parents := sy_tx_parents sy @ [([], c_round x - 1)],
                         sy_tx_batch_tasks := sy_tx_batch_tasks sy @ [(c_header x, sy_gc_depth sy - 1)]\<rparr>
            in if u64_add (sy_highest_processed_round sy1) new_certificate_round_limit < c_round x
               then Some (Inl (TooNew (c_digest x) (c_round x) (sy_highest_processed_round sy1)),
                      sy1\<lparr>sy_tx_certificate_fetcher := sy_tx_certificate_fetcher sy1 @ [Ancestors x]\<rparr>)
               else certificate_acceptor ca db_ok iter [x] early_suspend sy1 })"

definition try_accept_certificate ::
  "'t cache \<Rightarrow> narwhal_bls \<Rightarrow> header_hash \<Rightarrow> (certificate_digest \<Rightarrow> bool) \<Rightarrow>
   (certificate_digest list \<Rightarrow> certificate_digest list) \<Rightarrow> certificate \<Rightarrow> 't synchronizer \<Rightarrow>
   ((dag_error + unit) \<times> 't synchronizer) option" where
  "try_accept_certificate ca bls hash db_ok iter certificate sy =
     sync_process_certificate_internal ca bls hash db_ok iter certificate True True sy"

definition try_accept_fetched_certificate ::
  "'t cache \<Rightarrow> narwhal_bls \<Rightarrow> header_hash \<Rightarrow> (certificate_digest \<Rightarrow> bool) \<Rightarrow>
   (certificate_digest list \<Rightarrow> certificate_digest list) \<Rightarrow> certificate \<Rightarrow> 't synchronizer \<Rightarrow>
   ((dag_error + unit) \<times> 't synchronizer) option" where
  "try_accept_fetched_certificate ca bls hash db_ok iter certificate sy =
     sync_process_certificate_internal ca bls hash db_ok iter certificate False False sy"

text \<open>An own certificate is accepted or the primary panics.\<close>

definition accept_own_certificate ::
  "'t cache \<Rightarrow> narwhal_bls \<Rightarrow> header_hash \<Rightarrow> (certificate_digest \<Rightarrow> bool) \<Rightarrow>
   (certificate_digest list \<Rightarrow> certificate_digest list) \<Rightarrow> certificate \<Rightarrow> 't synchronizer \<Rightarrow> 't synchronizer option" where
  "accept_own_certificate ca bls hash db_ok iter certificate sy = do {
     (result, sy1) \<leftarrow> sync_process_certificate_internal ca bls hash db_ok iter certificate False False sy;
     panic_unless (result = Inr ());
     Some (sy1\<lparr>sy_tx_own_certificate_broadcast := sy_tx_own_certificate_broadcast sy1 @ [certificate]\<rparr>) }"

text \<open>Which fetched certificates are verified by their signature: those no other fetched certificate
  names as a parent, and every fiftieth round. The others become verified indirectly.\<close>

definition direct_verification :: "certificate_digest list \<Rightarrow> certificate \<Rightarrow> bool" where
  "direct_verification all_parents x \<longleftrightarrow> c_digest x \<notin> set all_parents \<or> c_round x mod 50 = 0"

fun mark_indirect :: "certificate_digest list \<Rightarrow> certificate list \<Rightarrow> dag_error + certificate list" where
  "mark_indirect all_parents [] = Inr []"
| "mark_indirect all_parents (x # xs) =
     and_then
       (if direct_verification all_parents x then Inr x
        else and_then (ok_or DagInvalidSignature (aggregated_signature x))
          (\<lambda>sig. Inr (x\<lparr>c_signature_verification_state := VerifiedIndirectly sig\<rparr>)))
       (\<lambda>y. and_then (mark_indirect all_parents xs) (\<lambda>ys. Inr (y # ys)))"

fun verify_direct ::
  "narwhal_bls \<Rightarrow> header_hash \<Rightarrow> 't synchronizer \<Rightarrow> certificate_digest list \<Rightarrow> certificate list \<Rightarrow>
   (dag_error + certificate list) option" where
  "verify_direct bls hash sy all_parents [] = Some (Inr [])"
| "verify_direct bls hash sy all_parents (x # xs) = do {
     checked \<leftarrow> (if direct_verification all_parents x then inner_sanitize_certificate bls hash x sy else Some (Inr x));
     case checked of
       Inl e \<Rightarrow> Some (Inl e)
     | Inr y \<Rightarrow> map_option (\<lambda>rest. and_then rest (\<lambda>ys. Inr (y # ys))) (verify_direct bls hash sy all_parents xs) }"

definition sanitize_fetched_certificates ::
  "narwhal_bls \<Rightarrow> header_hash \<Rightarrow> certificate list \<Rightarrow> 't synchronizer \<Rightarrow> (dag_error + certificate list) option" where
  "sanitize_fetched_certificates bls hash certificates sy =
     (let all_parents = concat (map c_parents certificates)
      in case mark_indirect all_parents certificates of
           Inl e \<Rightarrow> Some (Inl e)
         | Inr marked \<Rightarrow> verify_direct bls hash sy all_parents marked)"

fun fetched_loop ::
  "round \<Rightarrow> certificate list \<Rightarrow> 't synchronizer \<Rightarrow> (dag_error + unit) \<times> 't synchronizer" where
  "fetched_loop highest [] sy = (Inr (), sy)"
| "fetched_loop highest (x # xs) sy =
     (let sy1 = sy\<lparr>sy_tx_batch_tasks := sy_tx_batch_tasks sy @ [(c_header x, sy_gc_depth sy - 1)]\<rparr>
      in if u64_add highest new_certificate_round_limit < c_round x
         then (Inl (TooNew (c_digest x) (c_round x) highest),
               sy1\<lparr>sy_tx_certificate_fetcher := sy_tx_certificate_fetcher sy1 @ [Ancestors x]\<rparr>)
         else fetched_loop highest xs sy1)"

definition try_accept_fetched_certificates ::
  "'t cache \<Rightarrow> narwhal_bls \<Rightarrow> header_hash \<Rightarrow> (certificate_digest \<Rightarrow> bool) \<Rightarrow>
   (certificate_digest list \<Rightarrow> certificate_digest list) \<Rightarrow> certificate list \<Rightarrow> 't synchronizer \<Rightarrow>
   ((dag_error + unit) \<times> 't synchronizer) option" where
  "try_accept_fetched_certificates ca bls hash db_ok iter certificates sy =
     (if certificates = [] then Some (Inr (), sy)
      else do {
        sanitized \<leftarrow> sanitize_fetched_certificates bls hash certificates sy;
        case sanitized of
          Inl e \<Rightarrow> Some (Inl e, sy)
        | Inr xs \<Rightarrow>
            let received = max (sy_highest_received_round sy) (fold (\<lambda>x. max (c_round x)) xs 0);
                sy1 = sy\<lparr>sy_highest_received_round := received,
                         sy_tx_parents := sy_tx_parents sy @ [([], received - 1)]\<rparr>
            in case fetched_loop (sy_highest_processed_round sy1) xs sy1 of
                 (Inl e, sy2) \<Rightarrow> Some (Inl e, sy2)
               | (Inr _, sy2) \<Rightarrow> certificate_acceptor ca db_ok iter xs False sy2 })"

section \<open>Garbage collection\<close>

text \<open>The garbage collection task stores the new round and drops old aggregators before it takes the
  state lock; the loop runs under the lock.\<close>

definition gc_store :: "round \<Rightarrow> 't synchronizer \<Rightarrow> 't synchronizer" where
  "gc_store gc_round sy = sy\<lparr>sy_gc_round := gc_round,
     sy_aggregators := filter (\<lambda>(k, _). k > gc_round) (sy_aggregators sy)\<rparr>"

lemma accept_children_loop_shrinks:
  "accept_children_loop iter q acc st = Some (acc', st') \<Longrightarrow> length (ss_missing st') \<le> length (ss_missing st)"
proof (induction iter q acc st rule: accept_children_loop.induct)
  case (2 iter r digest to_traverse to_accept st)
  show ?case
  proof (cases "map_of (ss_missing st) (r, digest)")
    case None
    with 2 show ?thesis by simp
  next
    case (Some ch)
    then obtain q s where "accept_child_loop digest (iter ch) to_traverse to_accept (ss_suspended st) = Some (q, s)"
      using 2(3) by (auto split: option.splits)
    with length_delete_less [OF Some] 2(2) [OF Some this refl] 2(3) Some show ?thesis
      by (cases s) (auto dest!: less_imp_le)
  qed
qed simp

lemma accept_children_shrinks:
  assumes "accept_children iter r digest st = Some (acc, st')" "map_of (ss_missing st) (r, digest) \<noteq> None"
  shows "length (ss_missing st') < length (ss_missing st)"
proof -
  from assms(2) obtain ch where ch: "map_of (ss_missing st) (r, digest) = Some ch" by blast
  with assms(1) obtain q acc1 s where
    "accept_children_loop iter q acc1 \<lparr>ss_suspended = s, ss_missing = AList.delete (r, digest) (ss_missing st)\<rparr> = Some (acc, st')"
    by (auto simp: accept_children_def split: option.splits prod.splits)
  from accept_children_loop_shrinks [OF this] length_delete_less [OF ch] show ?thesis by simp
qed

lemma run_gc_once_missing:
  "run_gc_once g st = Some ((k, sc), st') \<Longrightarrow> ss_missing st' = ss_missing st \<and> map_of (ss_missing st) k \<noteq> None"
  by (auto simp: run_gc_once_def Let_def split: list.splits prod.splits if_splits)

lemma accept_certificate_internal_state:
  "accept_certificate_internal ca db_ok x sy = Some sy' \<Longrightarrow> sy_state sy' = sy_state sy"
  by (auto simp: accept_certificate_internal_def append_certificate_in_aggregator_def Let_def
      split: prod.splits option.splits)

lemma accept_suspended_certificates_state:
  "accept_suspended_certificates ca db_ok scs sy = Some sy' \<Longrightarrow> sy_state sy' = sy_state sy"
  by (induction scs arbitrary: sy) (auto dest: accept_certificate_internal_state)

function gc_loop ::
  "'t cache \<Rightarrow> (certificate_digest \<Rightarrow> bool) \<Rightarrow> (certificate_digest list \<Rightarrow> certificate_digest list) \<Rightarrow> round \<Rightarrow>
   't synchronizer \<Rightarrow> 't synchronizer option" where
  "gc_loop ca db_ok iter gc_round sy =
     (case run_gc_once gc_round (sy_state sy) of
        None \<Rightarrow> Some sy
      | Some (((r, digest), suspended_cert), st) \<Rightarrow>
          if \<not> r \<le> gc_round then None
          else case accept_children iter r digest st of
                 None \<Rightarrow> None
               | Some (children, st1) \<Rightarrow>
                   (case accept_suspended_certificates ca db_ok
                           ((case suspended_cert of None \<Rightarrow> [] | Some sc \<Rightarrow> [sc]) @ children) (sy\<lparr>sy_state := st1\<rparr>) of
                      None \<Rightarrow> None
                    | Some sy1 \<Rightarrow> gc_loop ca db_ok iter gc_round sy1))"
  by pat_completeness auto
termination
proof (relation "measure (\<lambda>(_, _, _, _, sy). length (ss_missing (sy_state sy)))", goal_cases)
  case (2 ca db_ok iter g sy a p st k sc r d b children st1 sy1)
  from 2 have "run_gc_once g (sy_state sy) = Some (((r, d), sc), st)"
    "accept_children iter r d st = Some (children, st1)" by auto
  with run_gc_once_missing accept_children_shrinks have "length (ss_missing st1) < length (ss_missing (sy_state sy))" by metis
  with accept_suspended_certificates_state [OF 2(8)] show ?case by simp
qed auto

declare gc_loop.simps [simp del]

definition gc_iteration ::
  "'t cache \<Rightarrow> (certificate_digest \<Rightarrow> bool) \<Rightarrow> (certificate_digest list \<Rightarrow> certificate_digest list) \<Rightarrow> round \<Rightarrow>
   't synchronizer \<Rightarrow> 't synchronizer option" where
  "gc_iteration ca db_ok iter gc_round sy = gc_loop ca db_ok iter gc_round (gc_store gc_round sy)"

definition gc_timeout :: "'t synchronizer \<Rightarrow> 't synchronizer" where
  "gc_timeout sy = sy\<lparr>sy_tx_certificate_fetcher := sy_tx_certificate_fetcher sy @ [Kick]\<rparr>"

section \<open>Start, and reading parents\<close>

definition make_genesis :: "header_hash \<Rightarrow> narwhal_committee \<Rightarrow> (certificate_digest \<times> certificate) list option" where
  "make_genesis hash c = do { gs \<leftarrow> genesis hash c; Some (hm_collect (map (\<lambda>x. (c_digest x, x)) gs)) }"

definition synchronizer_new ::
  "'t cache \<Rightarrow> header_hash \<Rightarrow> authority_identifier \<Rightarrow> narwhal_committee \<Rightarrow> worker_cache \<Rightarrow> round \<Rightarrow> round \<Rightarrow>
   't certificate_store \<Rightarrow> 't synchronizer option" where
  "synchronizer_new ca hash i c cache gc_depth gc_round store = do {
     gen \<leftarrow> make_genesis hash c;
     let (_, store1) = store_last_round ca i store;
     let sy = \<lparr>sy_authority_id = i, sy_committee = c, sy_worker_cache = cache, sy_gc_depth = gc_depth,
        sy_gc_round = gc_round, sy_highest_processed_round = highest_round_number store,
        sy_highest_received_round = 0, sy_certificate_store = store1, sy_genesis = gen,
        sy_aggregators = [], sy_state = sync_state_default, sy_tx_new_certificates = [],
        sy_tx_parents = [], sy_tx_certificate_fetcher = [], sy_tx_batch_tasks = [],
        sy_tx_own_certificate_broadcast = []\<rparr>;
     case last_two_rounds_certs store1 of
       Inl _ \<Rightarrow> None
     | Inr certs \<Rightarrow> Some (fold append_certificate_in_aggregator certs sy) }"

text \<open>\<open>None\<close> is the wait for a parent that is not in the store yet.\<close>

fun read_genesis_parents ::
  "(certificate_digest \<times> certificate) list \<Rightarrow> certificate_digest list \<Rightarrow> dag_error + certificate list" where
  "read_genesis_parents gen [] = Inr []"
| "read_genesis_parents gen (d # ds) =
     (case map_of gen d of
        None \<Rightarrow> Inl (InvalidGenesisParent d)
      | Some x \<Rightarrow> and_then (read_genesis_parents gen ds) (\<lambda>xs. Inr (x # xs)))"

fun notify_read_all ::
  "'t cache \<Rightarrow> certificate_digest list \<Rightarrow> 't certificate_store \<Rightarrow> (certificate list \<times> 't certificate_store) option" where
  "notify_read_all ca [] store = Some ([], store)"
| "notify_read_all ca (d # ds) store =
     (case cert_read ca d store of
        (None, _) \<Rightarrow> None
      | (Some x, store1) \<Rightarrow> map_option (\<lambda>(xs, store2). (x # xs, store2)) (notify_read_all ca ds store1))"

definition notify_read_parent_certificates ::
  "'t cache \<Rightarrow> header \<Rightarrow> 't synchronizer \<Rightarrow> ((dag_error + certificate list) \<times> 't synchronizer) option" where
  "notify_read_parent_certificates ca h sy =
     (if h_round h = 1 then Some (read_genesis_parents (sy_genesis sy) (h_parents h), sy)
      else map_option (\<lambda>(xs, store). (Inr xs, sy\<lparr>sy_certificate_store := store\<rparr>))
             (notify_read_all ca (h_parents h) (sy_certificate_store sy)))"

end
