(* ===== verification/Certificate_Store_Laws.thy ===== *)
theory Certificate_Store_Laws
  imports Certificate_Store
begin

text \<open>
  What the certificate store promises: the contract of a cache and that both caches of the code keep
  it, that reads through a coherent cache return what the database holds, the consistency of the index
  by round under writes and deletes, and the results of the range queries. Two behaviours that the code
  does not intend are here, too: the index by origin after a delete, and the cache after a failed write.
\<close>

section \<open>The contract of a cache\<close>

text \<open>A cache shows a partial map. Writing may evict anything but never invents or alters an entry;
  reading changes nothing that can be seen; removing removes.\<close>

locale cache_contract =
  fixes ca :: "'t cache" and view :: "'t \<Rightarrow> certificate_digest \<Rightarrow> certificate option"
  assumes view_write: "view (cache_write ca x t) \<subseteq>\<^sub>m (view t)(c_digest x \<mapsto> x)"
    and view_write_all: "view (cache_write_all ca xs t) \<subseteq>\<^sub>m fold (\<lambda>x m. m(c_digest x \<mapsto> x)) xs (view t)"
    and view_read: "fst (cache_read ca d t) = view t d" "view (snd (cache_read ca d t)) = view t"
    and view_read_all: "fst (cache_read_all ca ds t) = map (\<lambda>d. (d, view t d)) ds"
      "view (snd (cache_read_all ca ds t)) = view t"
    and view_contains: "cache_contains ca d t \<longleftrightarrow> view t d \<noteq> None"
    and view_multi_contains: "cache_multi_contains ca ds t = map (\<lambda>d. view t d \<noteq> None) ds"
    and view_remove: "view (cache_remove ca d t) = (view t)(d := None)"
    and view_remove_all: "view (cache_remove_all ca ds t) = fold (\<lambda>d m. m(d := None)) ds (view t)"

text \<open>A cache is coherent with a store when it shows only what the store holds.\<close>

definition coherent :: "('t \<Rightarrow> certificate_digest \<Rightarrow> certificate option) \<Rightarrow> 't certificate_store \<Rightarrow> bool" where
  "coherent view st \<longleftrightarrow> view (cs_cache st) \<subseteq>\<^sub>m map_of (certificates_by_id st)"

text \<open>The documented behaviour of \<^verbatim>\<open>LruCache\<close>.\<close>

definition lru_ok :: "'l lru \<Rightarrow> ('l \<Rightarrow> certificate_digest \<Rightarrow> certificate option) \<Rightarrow> bool" where
  "lru_ok l contents \<longleftrightarrow>
     (\<forall>d x t. contents (lru_put l d x t) \<subseteq>\<^sub>m (contents t)(d \<mapsto> x) \<and> contents (lru_put l d x t) d = Some x) \<and>
     (\<forall>d t. fst (lru_get l d t) = contents t d \<and> contents (snd (lru_get l d t)) = contents t) \<and>
     (\<forall>d t. lru_contains l d t \<longleftrightarrow> contents t d \<noteq> None) \<and>
     (\<forall>d t. contents (lru_pop l d t) = (contents t)(d := None))"

lemma map_le_upd: "m \<subseteq>\<^sub>m n \<Longrightarrow> m(k \<mapsto> v) \<subseteq>\<^sub>m n(k \<mapsto> v)"
  by (auto simp: map_le_def)

lemma fold_upd_mono: "m \<subseteq>\<^sub>m n \<Longrightarrow> fold (\<lambda>x m. m(f x \<mapsto> x)) xs m \<subseteq>\<^sub>m fold (\<lambda>x m. m(f x \<mapsto> x)) xs n"
  by (induction xs arbitrary: m n) (auto intro: map_le_upd)

lemma lru_get_all_spec:
  assumes "lru_ok l contents"
  shows "fst (lru_get_all l ds t) = map (\<lambda>d. (d, contents t d)) ds \<and> contents (snd (lru_get_all l ds t)) = contents t"
  using assms
proof (induction ds arbitrary: t)
  case (Cons d ds)
  obtain r t1 where g: "lru_get l d t = (r, t1)" by (cases "lru_get l d t")
  with Cons(2) have "r = contents t d" "contents t1 = contents t"
    unfolding lru_ok_def by (metis fst_conv snd_conv)+
  with Cons g show ?case by (auto simp: case_prod_unfold Let_def)
qed simp

lemma lru_write_all:
  assumes "lru_ok l contents"
  shows "contents (fold (\<lambda>x. lru_put l (c_digest x) x) xs t) \<subseteq>\<^sub>m fold (\<lambda>x m. m(c_digest x \<mapsto> x)) xs (contents t)"
proof (induction xs arbitrary: t)
  case (Cons x xs)
  have "contents (lru_put l (c_digest x) x t) \<subseteq>\<^sub>m (contents t)(c_digest x \<mapsto> x)"
    using assms unfolding lru_ok_def by blast
  from map_le_trans [OF Cons fold_upd_mono [OF this]] show ?case by (simp only: fold_simps)
qed simp

lemma lru_remove_all:
  assumes "lru_ok l contents"
  shows "contents (fold (lru_pop l) ds t) = fold (\<lambda>d m. m(d := None)) ds (contents t)"
  using assms by (induction ds arbitrary: t) (auto simp: lru_ok_def)

text \<open>Both caches of the code keep the contract.\<close>

lemma certificate_store_cache_contract:
  assumes "lru_ok l contents"
  shows "cache_contract (certificate_store_cache l) contents"
  using assms lru_get_all_spec [OF assms] lru_write_all [OF assms] lru_remove_all [OF assms]
  by unfold_locales (auto simp: certificate_store_cache_def lru_ok_def)

lemma fold_remove_empty: "fold (\<lambda>d m. m(d := None)) ds Map.empty = Map.empty"
  by (induction ds) simp_all

interpretation no_cache_store: cache_contract no_cache "\<lambda>_. Map.empty"
  by unfold_locales (simp_all add: no_cache_def fold_remove_empty)

section \<open>Reading through the cache\<close>

context cache_contract
begin

lemma coherent_cache: "coherent view st \<Longrightarrow> view t = view (cs_cache st) \<Longrightarrow> coherent view (st\<lparr>cs_cache := t\<rparr>)"
  by (simp add: coherent_def)

lemma coherent_lookup: "coherent view st \<Longrightarrow> view (cs_cache st) d = Some x \<Longrightarrow> map_of (certificates_by_id st) d = Some x"
  by (auto simp: coherent_def map_le_def dom_def)

lemma read_through:
  assumes "coherent view st"
  shows "fst (cert_read ca d st) = map_of (certificates_by_id st) d" "coherent view (snd (cert_read ca d st))"
    "certificates_by_id (snd (cert_read ca d st)) = certificates_by_id st"
    "certificate_id_by_round (snd (cert_read ca d st)) = certificate_id_by_round st"
    "certificate_id_by_origin (snd (cert_read ca d st)) = certificate_id_by_origin st"
proof -
  have "view (cs_cache st) d = Some x \<Longrightarrow> map_of (certificates_by_id st) d = Some x" for x
    by (rule coherent_lookup [OF assms])
  with assms view_read [of d "cs_cache st"]
  show "fst (cert_read ca d st) = map_of (certificates_by_id st) d" "coherent view (snd (cert_read ca d st))"
    "certificates_by_id (snd (cert_read ca d st)) = certificates_by_id st"
    "certificate_id_by_round (snd (cert_read ca d st)) = certificate_id_by_round st"
    "certificate_id_by_origin (snd (cert_read ca d st)) = certificate_id_by_origin st"
    by (auto simp: cert_read_def case_prod_unfold Let_def coherent_def split: option.splits)
qed

lemma contains_through:
  assumes "coherent view st"
  shows "cert_contains ca d st \<longleftrightarrow> map_of (certificates_by_id st) d \<noteq> None"
  using assms view_contains by (auto simp: cert_contains_def dest: coherent_lookup)

end

text \<open>The two loops of \<^verbatim>\<open>read_all\<close> collect hits into a map; the loop of \<^verbatim>\<open>multi_contains\<close> sets flags.\<close>

lemma fold_hits:
  "map_of (fold (\<lambda>d m. case f d of Some y \<Rightarrow> AList.update d y m | None \<Rightarrow> m) ds m) k
     = (if k \<in> set ds \<and> f k \<noteq> None then f k else map_of m k)"
  by (induction ds arbitrary: m) (auto simp: update_conv' split: option.splits)

lemma fold_hits_pairs:
  "fold (\<lambda>(d, x) m. case x of Some y \<Rightarrow> AList.update d y m | None \<Rightarrow> m) (map (\<lambda>d. (d, f d)) ds) m
     = fold (\<lambda>d m. case f d of Some y \<Rightarrow> AList.update d y m | None \<Rightarrow> m) ds m"
  "fold (\<lambda>(x, d) m. case x of Some y \<Rightarrow> AList.update d y m | None \<Rightarrow> m) (zip (map f ds) ds) m
     = fold (\<lambda>d m. case f d of Some y \<Rightarrow> AList.update d y m | None \<Rightarrow> m) ds m"
  by (induction ds arbitrary: m) simp_all

lemma fold_flags_nth:
  assumes "j < length flags"
  shows "fold (\<lambda>((i, _), hit) flags. if hit then flags[i := True] else flags) zs flags ! j
    \<longleftrightarrow> flags ! j \<or> (\<exists>d. ((j, d), True) \<in> set zs)"
  using assms
proof (induction zs arbitrary: flags)
  case (Cons z zs)
  obtain i d hit where z: "z = ((i, d), hit)" by (metis prod.collapse)
  show ?case
  proof (cases hit)
    case True
    with Cons(1) [of "flags[i := True]"] Cons(2) z show ?thesis by (cases "i = j") auto
  next
    case False
    with Cons z show ?thesis by auto
  qed
qed simp

lemma fold_flags_length:
  "length (fold (\<lambda>((i, _), hit) flags. if hit then flags[i := True] else flags) zs flags) = length flags"
  by (induction zs arbitrary: flags) (auto split: prod.splits)

lemma zip_map_self: "(a, b) \<in> set (zip xs (map p xs)) \<longleftrightarrow> a \<in> set xs \<and> b = p a"
  by (induction xs) auto

lemma store_lookups_set:
  assumes "length found = length ds"
  shows "((j, d), True) \<in> set (zip (map fst (filter (\<lambda>(_, hit). \<not> hit) (zip (List.enumerate 0 ds) found)))
      (map (\<lambda>(_, d). P d) (map fst (filter (\<lambda>(_, hit). \<not> hit) (zip (List.enumerate 0 ds) found)))))
    \<longleftrightarrow> j < length ds \<and> d = ds ! j \<and> \<not> found ! j \<and> P d" (is "?e \<in> set (zip ?xs (map ?p ?xs)) \<longleftrightarrow> _")
proof -
  have "?e \<in> set (zip ?xs (map ?p ?xs)) \<longleftrightarrow> (j, d) \<in> set ?xs \<and> P d"
    unfolding zip_map_self by auto
  also have "(j, d) \<in> set ?xs \<longleftrightarrow> ((j, d), False) \<in> set (zip (List.enumerate 0 ds) found)"
    by force
  also have "\<dots> \<longleftrightarrow> j < length ds \<and> d = ds ! j \<and> \<not> found ! j"
    using assms by (auto simp: in_set_zip nth_enumerate_eq intro!: exI [of _ j])
  finally show ?thesis by blast
qed

context cache_contract
begin

lemma read_all_through:
  assumes "coherent view st"
  shows "fst (cert_read_all ca ds st) = map (map_of (certificates_by_id st)) ds"
    "coherent view (snd (cert_read_all ca ds st))"
    "snd (cert_read_all ca ds st) = st\<lparr>cs_cache := cs_cache (snd (cert_read_all ca ds st))\<rparr>"
proof -
  let ?v = "view (cs_cache st)" and ?f = "map_of (certificates_by_id st)"
  have "map fst (filter (\<lambda>(_, x). x = None) (map (\<lambda>d. (d, ?v d)) ds)) = filter (\<lambda>d. ?v d = None) ds"
    by (induction ds) auto
  then have "fst (cert_read_all ca ds st) = map (map_of
      (fold (\<lambda>d m. case ?f d of Some y \<Rightarrow> AList.update d y m | None \<Rightarrow> m) (filter (\<lambda>d. ?v d = None) ds)
        (fold (\<lambda>d m. case ?v d of Some y \<Rightarrow> AList.update d y m | None \<Rightarrow> m) ds []))) ds"
    by (simp add: cert_read_all_def case_prod_unfold Let_def view_read_all
        fold_hits_pairs [unfolded case_prod_unfold])
  also have "\<dots> = map ?f ds"
    unfolding fold_hits using coherent_lookup [OF assms] by (intro map_cong) auto
  finally show "fst (cert_read_all ca ds st) = map ?f ds" .
  show "coherent view (snd (cert_read_all ca ds st))"
    using assms by (simp add: cert_read_all_def case_prod_unfold Let_def coherent_def view_read_all)
  show "snd (cert_read_all ca ds st) = st\<lparr>cs_cache := cs_cache (snd (cert_read_all ca ds st))\<rparr>"
    by (simp add: cert_read_all_def case_prod_unfold Let_def)
qed

lemma multi_contains_through:
  assumes "coherent view st"
  shows "cert_multi_contains ca ds st = map (\<lambda>d. map_of (certificates_by_id st) d \<noteq> None) ds" (is "?L = ?R")
proof (rule nth_equalityI)
  let ?found = "map (\<lambda>d. view (cs_cache st) d \<noteq> None) ds"
  have L: "?L = fold (\<lambda>((i, _), hit) flags. if hit then flags[i := True] else flags)
      (zip (map fst (filter (\<lambda>(_, hit). \<not> hit) (zip (List.enumerate 0 ds) ?found)))
        (map (\<lambda>(_, d). map_of (certificates_by_id st) d \<noteq> None)
          (map fst (filter (\<lambda>(_, hit). \<not> hit) (zip (List.enumerate 0 ds) ?found))))) ?found"
    by (simp only: cert_multi_contains_def Let_def view_multi_contains map_snd_enumerate)
  show len: "length ?L = length ?R" unfolding L fold_flags_length by simp
  fix j assume "j < length ?L"
  then have j: "j < length ds" using len by simp
  then have "?L ! j \<longleftrightarrow> view (cs_cache st) (ds ! j) \<noteq> None \<or> map_of (certificates_by_id st) (ds ! j) \<noteq> None"
    unfolding L by (subst fold_flags_nth, simp, subst store_lookups_set) auto
  with coherent_lookup [OF assms] j show "?L ! j = ?R ! j" by auto
qed

section \<open>Writing and deleting keep the cache coherent\<close>

lemma write_coherent:
  assumes "coherent view st" "bt_wf (certificates_by_id st)"
  shows "coherent view (snd (cert_write ca True x st))"
proof -
  have "view (cs_cache st) \<subseteq>\<^sub>m map_of (certificates_by_id st)" using assms(1) by (simp add: coherent_def)
  from map_le_trans [OF view_write [of x "cs_cache st"] map_le_upd [OF this]] assms(2) show ?thesis
    by (simp add: coherent_def cert_write_def insert_rows_def Let_def del: fun_upd_apply)
qed

lemma fold_insert_rows_by_id:
  "bt_wf (certificates_by_id st) \<Longrightarrow> bt_wf (certificates_by_id (fold insert_rows xs st)) \<and>
     map_of (certificates_by_id (fold insert_rows xs st)) = fold (\<lambda>x m. m(c_digest x \<mapsto> x)) xs (map_of (certificates_by_id st)) \<and>
     cs_cache (fold insert_rows xs st) = cs_cache st"
  by (induction xs arbitrary: st) (simp_all add: insert_rows_def)

lemma write_all_coherent:
  assumes "coherent view st" "bt_wf (certificates_by_id st)"
  shows "coherent view (snd (cert_write_all ca True xs st))"
proof -
  have "view (cs_cache st) \<subseteq>\<^sub>m map_of (certificates_by_id st)" using assms(1) by (simp add: coherent_def)
  from map_le_trans [OF view_write_all [of xs "cs_cache st"] fold_upd_mono [OF this]]
    fold_insert_rows_by_id [OF assms(2), of xs] show ?thesis
    by (simp add: coherent_def cert_write_all_def Let_def del: fun_upd_apply)
qed

lemma delete_coherent:
  assumes "coherent view st"
  shows "coherent view (snd (cert_delete ca ok d st))"
proof -
  note rd = read_through [OF assms, of d]
  obtain r st1 where r: "cert_read ca d st = (r, st1)" by (cases "cert_read ca d st")
  have "view (cs_cache st1) \<subseteq>\<^sub>m map_of (certificates_by_id st1)" using rd(2) r by (simp add: coherent_def)
  then have "(view (cs_cache st1))(d := None) \<subseteq>\<^sub>m (map_of (certificates_by_id st1))(d := None)"
    by (auto simp: map_le_def)
  with rd(2) r show ?thesis
    by (auto simp: cert_delete_def coherent_def view_remove delete_conv' restrict_map_def split: option.splits)
qed

end

section \<open>The index by round\<close>

abbreviation key :: "certificate \<Rightarrow> round \<times> authority_identifier" where
  "key x \<equiv> (c_round x, c_origin x)"

text \<open>Certificates that digests and slots identify.\<close>

definition no_equivocation :: "certificate set \<Rightarrow> bool" where
  "no_equivocation U \<longleftrightarrow> inj_on c_digest U \<and> inj_on key U"

text \<open>The index by round has exactly the rows of the stored certificates; the index by origin has at
  least those.\<close>

definition store_ok :: "certificate set \<Rightarrow> 't certificate_store \<Rightarrow> bool" where
  "store_ok U st \<longleftrightarrow> bt_wf (certificates_by_id st) \<and> bt_wf (certificate_id_by_round st) \<and>
     bt_wf (certificate_id_by_origin st) \<and>
     (\<forall>d x. map_of (certificates_by_id st) d = Some x \<longrightarrow> x \<in> U \<and> c_digest x = d) \<and>
     (\<forall>k d. map_of (certificate_id_by_round st) k = Some d \<longleftrightarrow>
        (\<exists>x. map_of (certificates_by_id st) d = Some x \<and> k = key x)) \<and>
     (\<forall>d x. map_of (certificates_by_id st) d = Some x \<longrightarrow>
        map_of (certificate_id_by_origin st) (c_origin x, c_round x) = Some d)"

definition stored :: "'t certificate_store \<Rightarrow> certificate set" where
  "stored st = {x. map_of (certificates_by_id st) (c_digest x) = Some x}"

lemma store_ok_empty: "store_ok U (cert_store_new [] [] [] t)"
  by (simp add: store_ok_def cert_store_new_def)

lemma store_ok_cache [simp]: "store_ok U (st\<lparr>cs_cache := t\<rparr>) = store_ok U st"
  by (simp add: store_ok_def)

lemma insert_rows_ok:
  assumes U: "no_equivocation U" and ok: "store_ok U st" and x: "x \<in> U"
  shows "store_ok U (insert_rows x st)"
proof -
  let ?m = "map_of (certificates_by_id st)"
  have wf: "bt_wf (certificates_by_id st)" "bt_wf (certificate_id_by_round st)" "bt_wf (certificate_id_by_origin st)"
    and ids: "\<And>d y. ?m d = Some y \<Longrightarrow> y \<in> U \<and> c_digest y = d"
    and rows: "\<And>k d. map_of (certificate_id_by_round st) k = Some d \<longleftrightarrow> (\<exists>y. ?m d = Some y \<and> k = key y)"
    and origins: "\<And>d y. ?m d = Some y \<Longrightarrow> map_of (certificate_id_by_origin st) (c_origin y, c_round y) = Some d"
    using ok by (auto simp: store_ok_def)
  have same: "y = x" if "?m d = Some y" "d = c_digest x \<or> key y = key x" for d y
    using ids [OF that(1)] that(2) x U inj_onD [of c_digest U y x] inj_onD [of key U y x]
    by (auto simp: no_equivocation_def)
  have digest: "d = c_digest x" if "?m d = Some y" "c_round x = c_round y" "c_origin x = c_origin y" for d y
    using same [OF that(1)] ids [OF that(1)] that(2,3) by auto
  have "((map_of (certificate_id_by_round st))(key x \<mapsto> c_digest x)) k = Some d \<longleftrightarrow>
      (\<exists>y. (?m(c_digest x \<mapsto> x)) d = Some y \<and> k = key y)" for k d
    using same [of d] digest rows [of k d] by (cases "k = key x"; cases "d = c_digest x") auto
  moreover have "((map_of (certificate_id_by_origin st))((c_origin x, c_round x) \<mapsto> c_digest x)) (c_origin y, c_round y) = Some d"
    if "(?m(c_digest x \<mapsto> x)) d = Some y" for d y
    using that digest [of d y] origins [of d y] by (auto split: if_splits)
  ultimately show ?thesis
    using wf ids x unfolding store_ok_def insert_rows_def
    by (simp del: fun_upd_apply) (simp add: fun_upd_apply)
qed

lemma fold_insert_rows_ok:
  assumes "no_equivocation U" "store_ok U st" "set xs \<subseteq> U"
  shows "store_ok U (fold insert_rows xs st)"
  using assms by (induction xs arbitrary: st) (auto intro: insert_rows_ok)

lemma stored_insert_rows:
  assumes "no_equivocation U" "store_ok U st" "x \<in> U"
  shows "stored (insert_rows x st) = insert x (stored st)"
  using assms
  by (auto simp: stored_def insert_rows_def store_ok_def no_equivocation_def inj_on_def split: if_splits)

lemma stored_fold_insert_rows:
  assumes "no_equivocation U" "store_ok U st" "set xs \<subseteq> U"
  shows "stored (fold insert_rows xs st) = set xs \<union> stored st"
  using assms by (induction xs arbitrary: st) (auto simp: stored_insert_rows insert_rows_ok)

text \<open>Deleting rows: \<open>remove_rows\<close> is the effect of the two batches that delete.\<close>

definition remove_rows ::
  "certificate_digest set \<Rightarrow> 't certificate_store \<Rightarrow> 't certificate_store \<Rightarrow> bool" where
  "remove_rows D st st' \<longleftrightarrow>
     bt_wf (certificates_by_id st') \<and> bt_wf (certificate_id_by_round st') \<and>
     map_of (certificates_by_id st') = (\<lambda>d. if d \<in> D then None else map_of (certificates_by_id st) d) \<and>
     map_of (certificate_id_by_round st') = (\<lambda>k. if \<exists>d x. d \<in> D \<and> map_of (certificates_by_id st) d = Some x \<and> k = key x
       then None else map_of (certificate_id_by_round st) k) \<and>
     certificate_id_by_origin st' = certificate_id_by_origin st"

lemma remove_rows_ok:
  assumes U: "no_equivocation U" and ok: "store_ok U st" and rm: "remove_rows D st st'"
  shows "store_ok U st'" "stored st' = {x \<in> stored st. c_digest x \<notin> D}"
proof -
  let ?m = "map_of (certificates_by_id st)"
  have same: "x = y" if "?m d = Some x" "?m d' = Some y" "key x = key y" for d d' x y
    using that ok U inj_onD [of key U x y] by (auto simp: store_ok_def no_equivocation_def)
  have rows: "map_of (certificate_id_by_round st) k = Some d \<longleftrightarrow> (\<exists>x. ?m d = Some x \<and> k = key x)" for k d
    using ok unfolding store_ok_def by blast
  have "map_of (certificate_id_by_round st') k = Some d \<longleftrightarrow> (\<exists>x. map_of (certificates_by_id st') d = Some x \<and> k = key x)" for k d
  proof (cases "\<exists>x. ?m d = Some x \<and> k = key x")
    case True
    then obtain x where x: "?m d = Some x" "k = key x" by blast
    have "c_digest y = d'" if "?m d' = Some y" for d' y using ok that by (auto simp: store_ok_def)
    with same x have "(\<exists>d y. d \<in> D \<and> ?m d = Some y \<and> k = key y) \<longleftrightarrow> d \<in> D" by metis
    with x rm rows [of k d] show ?thesis by (auto simp: remove_rows_def)
  next
    case False
    with rm rows [of k d] show ?thesis by (simp add: remove_rows_def)
  qed
  with ok rm show "store_ok U st'" unfolding store_ok_def remove_rows_def by (auto split: if_splits)
  show "stored st' = {x \<in> stored st. c_digest x \<notin> D}"
    using rm by (auto simp: stored_def remove_rows_def split: if_splits)
qed

lemma bt_wf_delete: "bt_wf m \<Longrightarrow> bt_wf (AList.delete k m)"
  by (induction m) (auto simp: AList.delete_eq)

lemma fold_delete:
  "map_of (fold AList.delete ks m) k = (if k \<in> set ks then None else map_of m k)"
  "bt_wf m' \<Longrightarrow> bt_wf (fold AList.delete ks m')"
  by (induction ks arbitrary: m m') (auto simp: delete_conv' bt_wf_delete)

context cache_contract
begin

lemma delete_rows:
  assumes "coherent view st" "store_ok U st"
  shows "remove_rows {d} st (snd (cert_delete ca True d st))"
proof -
  note rd = read_through [OF assms(1), of d]
  obtain r st1 where r: "cert_read ca d st = (r, st1)" by (cases "cert_read ca d st")
  show ?thesis
  proof (cases r)
    case None
    with r have "snd (cert_delete ca True d st) = st1" by (simp add: cert_delete_def)
    with None rd r assms(2) show ?thesis by (auto simp: remove_rows_def store_ok_def fun_eq_iff)
  next
    case (Some x)
    with r have res: "snd (cert_delete ca True d st) = st1\<lparr>certificates_by_id := AList.delete d (certificates_by_id st1),
        certificate_id_by_round := AList.delete (key x) (certificate_id_by_round st1),
        cs_cache := cache_remove ca d (cs_cache st1)\<rparr>" by (simp add: cert_delete_def)
    have "map_of (certificates_by_id st) d = Some x" using rd(1) r Some by simp
    with rd(3-5) r assms(2) show ?thesis
      unfolding res by (auto simp: remove_rows_def store_ok_def fun_eq_iff delete_conv' bt_wf_delete)
  qed
qed

lemma delete_all_rows:
  assumes "coherent view st" "store_ok U st"
  shows "remove_rows (set ds) st (snd (cert_delete_all ca True ds st))"
proof -
  note rd = read_all_through [OF assms(1), of ds]
  let ?m = "map_of (certificates_by_id st)"
  let ?keys = "map key (List.map_filter id (map ?m ds))"
  obtain cs st1 where r: "cert_read_all ca ds st = (cs, st1)" by (cases "cert_read_all ca ds st")
  with rd have cs: "cs = map ?m ds" and st1: "st1 = st\<lparr>cs_cache := cs_cache st1\<rparr>" by auto
  have keys: "k \<in> set ?keys \<longleftrightarrow> (\<exists>d x. d \<in> set ds \<and> ?m d = Some x \<and> k = key x)" for k
    by (force simp: map_filter_def)
  show ?thesis
  proof (cases "?keys = []")
    case True
    then have "?m d = None" if "d \<in> set ds" for d
      using keys that by (cases "?m d") auto
    moreover have "snd (cert_delete_all ca True ds st) = st1" using r True by (simp add: cert_delete_all_def cs)
    ultimately show ?thesis
      using assms(2) by (simp, subst st1) (auto simp: remove_rows_def store_ok_def fun_eq_iff)
  next
    case False
    then have res: "snd (cert_delete_all ca True ds st) = st1\<lparr>
        certificate_id_by_round := fold AList.delete ?keys (certificate_id_by_round st1),
        certificates_by_id := fold AList.delete ds (certificates_by_id st1),
        cs_cache := cache_remove_all ca ds (cs_cache st1)\<rparr>"
      using r by (simp add: cert_delete_all_def cs)
    have "certificates_by_id st1 = certificates_by_id st" "certificate_id_by_round st1 = certificate_id_by_round st"
      "certificate_id_by_origin st1 = certificate_id_by_origin st" by (subst st1, simp)+
    with assms(2) keys show ?thesis
      unfolding res by (simp add: remove_rows_def store_ok_def fun_eq_iff fold_delete)
  qed
qed

lemma delete_all_coherent:
  assumes "coherent view st"
  shows "coherent view (snd (cert_delete_all ca ok ds st))"
proof -
  note rd = read_all_through [OF assms, of ds]
  obtain cs st1 where r: "cert_read_all ca ds st = (cs, st1)" by (cases "cert_read_all ca ds st")
  have mono: "m \<subseteq>\<^sub>m n \<Longrightarrow> fold (\<lambda>d m. m(d := None)) ds m \<subseteq>\<^sub>m fold (\<lambda>d m. m(d := None)) ds n"
    for m n :: "certificate_digest \<Rightarrow> certificate option"
    by (induction ds arbitrary: m n) (auto simp: map_le_def)
  have "map_of (fold AList.delete ds m) = fold (\<lambda>d m. m(d := None)) ds (map_of m)" for m :: "(certificate_digest \<times> certificate) list"
    by (induction ds arbitrary: m) (auto simp: delete_conv')
  with rd(2) r mono show ?thesis
    by (auto simp: cert_delete_all_def coherent_def view_remove_all Let_def)
qed

end

section \<open>Queries\<close>

lemma filter_dropWhile: "\<forall>x. Q x \<longrightarrow> \<not> P x \<Longrightarrow> filter P (dropWhile Q xs) = filter P xs"
  by (induction xs) auto

lemma collect_some_the: "\<forall>x \<in> set xs. f x \<noteq> None \<Longrightarrow> collect_some (map f xs) = Some (map (\<lambda>x. the (f x)) xs)"
  by (induction xs) auto

lemma bt_wf_filter: "bt_wf m \<Longrightarrow> bt_wf (filter P m)"
  by (induction m) auto

lemma rows_from_round_filter:
  assumes "r < 2 ^ 64"
  shows "filter (\<lambda>((r', _), _). r' \<ge> r) (rows_from_round r st)
    = filter (\<lambda>((r', _), _). r' \<ge> r) (certificate_id_by_round st)"
proof -
  have "u64_sub r 1 = r - 1" if "0 < r" using that assms by (simp add: u64_sub_fits)
  then show ?thesis
    unfolding rows_from_round_def skip_to_def
    by (cases "r = 0") (auto simp: less_prod_def intro!: filter_dropWhile)
qed

lemma after_round_spec:
  assumes ok: "store_ok U st" and r: "r < 2 ^ 64"
  obtains xs where "after_round r st = Inr xs" "sorted_wrt (<) (map key xs)"
    "set xs = {x \<in> stored st. r \<le> c_round x}"
proof -
  let ?m = "map_of (certificates_by_id st)"
  let ?rows = "filter (\<lambda>((r', _), _). r' \<ge> r) (certificate_id_by_round st)"
  have wf: "bt_wf (certificate_id_by_round st)"
    and ids: "\<And>d x. ?m d = Some x \<Longrightarrow> c_digest x = d"
    and rows: "\<And>k d. map_of (certificate_id_by_round st) k = Some d \<longleftrightarrow> (\<exists>x. ?m d = Some x \<and> k = key x)"
    using ok unfolding store_ok_def by blast+
  have row: "?m (snd e) = Some (the (?m (snd e))) \<and> key (the (?m (snd e))) = fst e" if "e \<in> set (certificate_id_by_round st)" for e
  proof -
    have "map_of (certificate_id_by_round st) (fst e) = Some (snd e)"
      using that bt_wf_distinct [OF wf] by simp
    then show ?thesis unfolding rows by auto
  qed
  define xs where "xs = map (\<lambda>e. the (?m (snd e))) ?rows"
  have "\<forall>d \<in> set (map snd ?rows). ?m d \<noteq> None" using row by fastforce
  from collect_some_the [of "map snd ?rows" ?m, OF this]
  have "collect_some (map ?m (map snd ?rows)) = Some xs" by (simp add: xs_def comp_def)
  then have "after_round r st = Inr xs"
    by (simp add: after_round_def rows_from_round_filter [OF r])
  moreover have "map key xs = map fst ?rows" using row unfolding xs_def by auto
  with bt_wf_filter [OF wf] have "sorted_wrt (<) (map key xs)" by (simp only: bt_wf_def)
  moreover have "set xs = {x \<in> stored st. r \<le> c_round x}"
  proof (intro set_eqI iffI)
    fix x assume "x \<in> set xs"
    then obtain e where e: "e \<in> set ?rows" "x = the (?m (snd e))" unfolding xs_def by auto
    with row [of e] ids have "?m (c_digest x) = Some x" "key x = fst e" by auto
    with e(1) show "x \<in> {x \<in> stored st. r \<le> c_round x}" by (auto simp: stored_def)
  next
    fix x assume "x \<in> {x \<in> stored st. r \<le> c_round x}"
    then have x: "?m (c_digest x) = Some x" "r \<le> c_round x" by (auto simp: stored_def)
    with rows have "map_of (certificate_id_by_round st) (key x) = Some (c_digest x)" by blast
    from map_of_SomeD [OF this] x show "x \<in> set xs" unfolding xs_def by force
  qed
  ultimately show thesis by (rule that)
qed

lemma takeWhile_le_sorted: "bt_wf m \<Longrightarrow> takeWhile (\<lambda>(k', _). k' \<le> k) m = filter (\<lambda>(k', _). k' \<le> k) m"
proof (induction m)
  case (Cons e m)
  obtain k1 v where e: "e = (k1, v)" by (cases e)
  show ?case
  proof (cases "k1 \<le> k")
    case False
    with Cons(2) e have "\<forall>(k', _) \<in> set m. \<not> k' \<le> k" by force
    then have "filter (\<lambda>(k', _). k' \<le> k) m = []" by (auto simp: filter_empty_conv)
    with False e show ?thesis by simp
  qed (use Cons e in auto)
qed simp

lemma dropWhile_less_sorted: "bt_wf m \<Longrightarrow> dropWhile (\<lambda>(k', _). k' < k) m = filter (\<lambda>(k', _). k \<le> k') m"
proof (induction m)
  case (Cons e m)
  obtain k1 v where e: "e = (k1, v)" by (cases e)
  show ?case
  proof (cases "k1 < k")
    case False
    with Cons(2) e have "\<forall>(k', _) \<in> set m. k \<le> k'" by force
    with False e show ?thesis by (auto simp: filter_id_conv)
  qed (use Cons e in auto)
qed simp

lemma last_sorted_key:
  assumes "bt_wf m" "m \<noteq> []" "e \<in> set m"
  shows "fst e \<le> fst (last m)"
  using assms by (induction m) (force simp: order_less_imp_le)+

lemma hd_sorted_key:
  assumes "bt_wf m" "m \<noteq> []" "e \<in> set m"
  shows "fst (hd m) \<le> fst e"
  using assms by (cases m) (force simp: order_less_imp_le)+

definition origin_rounds :: "authority_identifier \<Rightarrow> 't certificate_store \<Rightarrow> round set" where
  "origin_rounds a st = {r. (a, r) \<in> fst ` set (certificate_id_by_origin st)}"

lemma last_round_number_spec:
  assumes wf: "bt_wf (certificate_id_by_origin st)" and fit: "\<forall>r \<in> origin_rounds a st. r < 2 ^ 64"
  shows "last_round_number a st = Some r \<longleftrightarrow> r \<in> origin_rounds a st \<and> (\<forall>r' \<in> origin_rounds a st. r' \<le> r)"
    "last_round_number a st = None \<longleftrightarrow> origin_rounds a st = {}"
proof -
  let ?upto = "filter (\<lambda>(k', _). k' \<le> (a, 2 ^ 64 - 1)) (certificate_id_by_origin st)"
  have eq: "last_round_number a st = (if ?upto = [] then None else
      if fst (fst (last ?upto)) = a then Some (snd (fst (last ?upto))) else None)"
    unfolding last_round_number_def skip_prior_to_def takeWhile_le_sorted [OF wf] Let_def
    by (auto simp: case_prod_unfold)
  have mem: "\<exists>e \<in> set ?upto. fst e = (a, r)" if "r \<in> origin_rounds a st" for r
    using that fit by (force simp: origin_rounds_def less_eq_prod_def)
  have max: "(a, r) \<le> fst (last ?upto)" if "r \<in> origin_rounds a st" for r
    using mem [OF that] last_sorted_key [OF bt_wf_filter [OF wf]] by (metis empty_iff list.set(1))
  have le: "fst (last ?upto) \<le> (a, 2 ^ 64 - 1)" "fst (last ?upto) \<in> fst ` set (certificate_id_by_origin st)" if "?upto \<noteq> []"
    using last_in_set [OF that] by (auto simp: case_prod_unfold)
  have in_rounds: "snd (fst (last ?upto)) \<in> origin_rounds a st" if "?upto \<noteq> []" "fst (fst (last ?upto)) = a"
    using le(2) [OF that(1)] that(2) unfolding origin_rounds_def by (metis mem_Collect_eq prod.collapse)
  have found: "?upto \<noteq> []" "fst (fst (last ?upto)) = a" "snd (fst (last ?upto)) \<in> origin_rounds a st"
    if "origin_rounds a st \<noteq> {}"
  proof -
    from that obtain r where r: "r \<in> origin_rounds a st" by blast
    show ne: "?upto \<noteq> []" using mem [OF r] by (metis empty_iff list.set(1))
    show a: "fst (fst (last ?upto)) = a" using max [OF r] le(1) [OF ne] by (auto simp: less_eq_prod_def)
    show "snd (fst (last ?upto)) \<in> origin_rounds a st" by (rule in_rounds [OF ne a])
  qed
  have max': "r \<le> snd (fst (last ?upto))" if "r \<in> origin_rounds a st" for r
  proof -
    have "fst (fst (last ?upto)) = a" using found(2) that by blast
    with max [OF that] show ?thesis by (cases "fst (last ?upto)") auto
  qed
  have none: "origin_rounds a st = {} \<Longrightarrow> last_round_number a st = None"
    unfolding eq using in_rounds by (auto simp del: filter_empty_conv)
  show "last_round_number a st = Some r \<longleftrightarrow> r \<in> origin_rounds a st \<and> (\<forall>r' \<in> origin_rounds a st. r' \<le> r)"
  proof (cases "origin_rounds a st = {}")
    case False
    with found have "last_round_number a st = Some (snd (fst (last ?upto)))" by (simp add: eq)
    with found(3) [OF False] max' show ?thesis by (auto intro: antisym)
  qed (use none in simp)
  show "last_round_number a st = None \<longleftrightarrow> origin_rounds a st = {}"
    using none found(1,2) by (cases "origin_rounds a st = {}") (auto simp: eq)
qed

section \<open>Example store\<close>

text \<open>An LRU cache of two entries as a list, the most recent first.\<close>

definition demo_lru :: "(certificate_digest \<times> certificate) list lru" where
  "demo_lru = \<lparr>lru_put = \<lambda>d x t. take 2 ((d, x) # AList.delete d t),
     lru_get = \<lambda>d t. (case map_of t d of None \<Rightarrow> (None, t) | Some x \<Rightarrow> (Some x, (d, x) # AList.delete d t)),
     lru_contains = \<lambda>d t. map_of t d \<noteq> None, lru_pop = AList.delete\<rparr>"

lemma map_of_take_le: "map_of (take n m) \<subseteq>\<^sub>m map_of m"
proof (induction m arbitrary: n)
  case (Cons e m)
  then show ?case by (cases n; cases e) (auto simp: map_le_def dom_def)
qed simp

lemma demo_lru_ok: "lru_ok demo_lru map_of"
proof -
  have "map_of (take 2 ((d, x) # AList.delete d t)) \<subseteq>\<^sub>m (map_of t)(d \<mapsto> x)" for d x t
    using map_of_take_le [of 2 "(d, x) # AList.delete d t"] by (simp add: delete_conv' fun_upd_twist)
  moreover have "map_of ((d, x) # AList.delete d t) = map_of t" if "map_of t d = Some x" for d x t
    using that by (auto simp: delete_conv' fun_eq_iff)
  ultimately show ?thesis
    by (auto simp: lru_ok_def demo_lru_def delete_conv' restrict_map_def split: option.splits)
qed

definition demo_store :: "(certificate_digest \<times> certificate) list certificate_store" where
  "demo_store = \<lparr>certificates_by_id = [(11, demo_node 1 1), (12, demo_node 1 2), (21, demo_node 2 1)],
     certificate_id_by_round = [((1, 1), 11), ((1, 2), 12), ((2, 1), 21)],
     certificate_id_by_origin = [((1, 1), 11), ((1, 2), 21), ((2, 1), 12)],
     cs_cache = [(12, demo_node 1 2)]\<rparr>"

definition demo_nodes :: "certificate set" where
  "demo_nodes = {demo_node 1 1, demo_node 1 2, demo_node 2 1, demo_node 2 2}"

lemma demo_nodes_ok: "no_equivocation demo_nodes"
  by (simp add: no_equivocation_def demo_nodes_def)

lemma demo_store_coherent: "coherent map_of demo_store"
  by (simp add: coherent_def demo_store_def map_le_def)

lemma demo_store_ok: "store_ok demo_nodes demo_store"
proof -
  have "demo_store = fold insert_rows [demo_node 1 1, demo_node 1 2, demo_node 2 1] (cert_store_new [] [] [] [(12, demo_node 1 2)])"
    by (simp add: demo_store_def insert_rows_def cert_store_new_def)
  then show ?thesis
    by (elim ssubst) (intro fold_insert_rows_ok [OF demo_nodes_ok store_ok_empty], simp add: demo_nodes_def)
qed

section \<open>Properties of the certificate store\<close>

text \<open>
  C36. The cache is transparent: in front of a cache that shows only what the database holds, \<^verbatim>\<open>read\<close>,
  \<^verbatim>\<open>contains\<close>, \<^verbatim>\<open>read_all\<close> and \<^verbatim>\<open>multi_contains\<close> return exactly what the table of certificates holds, in
  the order of the digests asked for, and they keep the cache coherent.
\<close>

theorem store_reads_through_cache:
  assumes "lru_ok l contents" "coherent contents st"
  shows "fst (cert_read (certificate_store_cache l) d st) = map_of (certificates_by_id st) d \<and>
    (cert_contains (certificate_store_cache l) d st \<longleftrightarrow> map_of (certificates_by_id st) d \<noteq> None) \<and>
    fst (cert_read_all (certificate_store_cache l) ds st) = map (map_of (certificates_by_id st)) ds \<and>
    cert_multi_contains (certificate_store_cache l) ds st = map (\<lambda>d. map_of (certificates_by_id st) d \<noteq> None) ds \<and>
    coherent contents (snd (cert_read (certificate_store_cache l) d st)) \<and>
    coherent contents (snd (cert_read_all (certificate_store_cache l) ds st))"
proof -
  note contract = certificate_store_cache_contract [OF assms(1)]
  show ?thesis
    using cache_contract.read_through(1,2) [OF contract assms(2)] cache_contract.contains_through [OF contract assms(2)]
      cache_contract.read_all_through(1,2) [OF contract assms(2)]
      cache_contract.multi_contains_through [OF contract assms(2)] by simp
qed

theorem store_reads_through_cache_witness:
  "fst (cert_read_all (certificate_store_cache demo_lru) [12, 33, 11] demo_store) = [Some (demo_node 1 2), None, Some (demo_node 1 1)] \<and>
   cert_multi_contains (certificate_store_cache demo_lru) [12, 33, 11] demo_store = [True, False, True]"
  using store_reads_through_cache [OF demo_lru_ok demo_store_coherent, of 12 "[12, 33, 11]"]
  by (simp add: demo_store_def)

text \<open>
  C37. Writing and deleting certificates without equivocation keeps the store consistent: after
  \<^verbatim>\<open>write_all\<close> the store holds the written certificates and the earlier ones, after \<^verbatim>\<open>delete_all\<close> the
  earlier ones without those deleted; the index by round has exactly their rows, and the cache shows
  nothing else.
\<close>

theorem store_write_delete_correct:
  assumes "lru_ok l contents" "no_equivocation U" "coherent contents st" "store_ok U st" "set xs \<subseteq> U"
  shows "(let st' = snd (cert_write_all (certificate_store_cache l) True xs st) in
      store_ok U st' \<and> coherent contents st' \<and> stored st' = set xs \<union> stored st) \<and>
    (let st' = snd (cert_delete_all (certificate_store_cache l) True ds st) in
      store_ok U st' \<and> coherent contents st' \<and> stored st' = {x \<in> stored st. c_digest x \<notin> set ds})"
proof -
  note contract = certificate_store_cache_contract [OF assms(1)]
  have wf: "bt_wf (certificates_by_id st)" using assms(4) by (simp add: store_ok_def)
  have "store_ok U (snd (cert_write_all (certificate_store_cache l) True xs st))"
    "stored (snd (cert_write_all (certificate_store_cache l) True xs st)) = set xs \<union> stored st"
    using fold_insert_rows_ok [OF assms(2,4,5)] stored_fold_insert_rows [OF assms(2,4,5)]
    by (auto simp: cert_write_all_def Let_def stored_def)
  moreover note cache_contract.write_all_coherent [OF contract assms(3) wf]
  moreover note remove_rows_ok [OF assms(2,4) cache_contract.delete_all_rows [OF contract assms(3,4)]]
  moreover note cache_contract.delete_all_coherent [OF contract assms(3)]
  ultimately show ?thesis by (simp add: Let_def)
qed

theorem store_write_delete_correct_witness:
  "stored (snd (cert_write_all (certificate_store_cache demo_lru) True [demo_node 2 2] demo_store)) = insert (demo_node 2 2) (stored demo_store) \<and>
   stored (snd (cert_delete_all (certificate_store_cache demo_lru) True [21, 12] demo_store))
     = {x \<in> stored demo_store. c_digest x \<notin> {21, 12}}"
proof -
  have "set [demo_node 2 2] \<subseteq> demo_nodes" by (simp add: demo_nodes_def)
  from store_write_delete_correct [OF demo_lru_ok demo_nodes_ok demo_store_coherent demo_store_ok this, of "[21, 12]"]
  show ?thesis by (simp add: Let_def)
qed

text \<open>
  C38. \<^verbatim>\<open>after_round\<close> never fails on a consistent store and returns exactly the stored certificates of that
  round and later ones, each once, ascending by round and author; \<^verbatim>\<open>last_round_number\<close> is the greatest
  round in the index of an author, and \<open>None\<close> only when the index has none.
\<close>

theorem store_queries_correct:
  assumes "store_ok U st" "r < 2 ^ 64" "\<forall>q \<in> origin_rounds a st. q < 2 ^ 64"
  shows "(\<exists>xs. after_round r st = Inr xs \<and> sorted_wrt (<) (map key xs) \<and> set xs = {x \<in> stored st. r \<le> c_round x}) \<and>
    (last_round_number a st = None \<longleftrightarrow> origin_rounds a st = {}) \<and>
    (last_round_number a st = Some q \<longleftrightarrow> q \<in> origin_rounds a st \<and> (\<forall>q' \<in> origin_rounds a st. q' \<le> q))"
proof (intro conjI)
  have wf: "bt_wf (certificate_id_by_origin st)" using assms(1) by (simp add: store_ok_def)
  obtain xs where "after_round r st = Inr xs" "sorted_wrt (<) (map key xs)" "set xs = {x \<in> stored st. r \<le> c_round x}"
    by (rule after_round_spec [OF assms(1,2)])
  then show "\<exists>xs. after_round r st = Inr xs \<and> sorted_wrt (<) (map key xs) \<and> set xs = {x \<in> stored st. r \<le> c_round x}"
    by (intro exI conjI)
  show "last_round_number a st = None \<longleftrightarrow> origin_rounds a st = {}"
    "last_round_number a st = Some q \<longleftrightarrow> q \<in> origin_rounds a st \<and> (\<forall>q' \<in> origin_rounds a st. q' \<le> q)"
    by (fact last_round_number_spec [OF wf assms(3)])+
qed

theorem store_queries_correct_witness:
  "(\<exists>xs. after_round 2 demo_store = Inr xs \<and> set xs = {x \<in> stored demo_store. 2 \<le> c_round x}) \<and>
   last_round_number 1 demo_store = Some 2"
proof -
  have rounds: "origin_rounds 1 demo_store = {1, 2}" by (auto simp: origin_rounds_def demo_store_def)
  from store_queries_correct [OF demo_store_ok, of 2 1 2] rounds show ?thesis by auto
qed

text \<open>
  C39. \<^verbatim>\<open>delete\<close> leaves the index by origin alone. After writing an older and a newer certificate of one
  author and deleting the newer one, \<^verbatim>\<open>last_round_number\<close> still reports its round and \<^verbatim>\<open>last_round\<close>
  returns nothing, although the older certificate is in the store.
\<close>

theorem delete_leaves_origin_index:
  assumes "c_origin x = c_origin y" "c_round y < c_round x" "c_round x < 2 ^ 64" "c_digest x \<noteq> c_digest y"
  shows "let st = snd (cert_delete no_cache True (c_digest x)
      (snd (cert_write no_cache True x (snd (cert_write no_cache True y (cert_store_new [] [] [] ()))))))
    in fst (cert_read no_cache (c_digest y) st) = Some y \<and> fst (cert_read no_cache (c_digest x) st) = None \<and>
       last_round_number (c_origin x) st = Some (c_round x) \<and> fst (store_last_round no_cache (c_origin x) st) = None"
proof -
  have keys: "(c_origin y, c_round y) < (c_origin y, c_round x)" "(c_origin y, c_round x) \<le> (c_origin y, 2 ^ 64 - 1)"
    "(c_origin y, c_round y) \<le> (c_origin y, 2 ^ 64 - 1)" using assms by auto
  show ?thesis
    using assms keys
    by (auto simp: cert_write_def insert_rows_def cert_store_new_def cert_delete_def cert_read_def no_cache_def Let_def
        last_round_number_def store_last_round_def skip_prior_to_def)
qed

theorem delete_leaves_origin_index_witness:
  "let st = snd (cert_delete no_cache True 21
      (snd (cert_write no_cache True (demo_node 2 1) (snd (cert_write no_cache True (demo_node 1 1) (cert_store_new [] [] [] ()))))))
    in fst (cert_read no_cache 11 st) = Some (demo_node 1 1) \<and> last_round_number 1 st = Some 2 \<and>
       fst (store_last_round no_cache 1 st) = None"
  using delete_leaves_origin_index [of "demo_node 2 1" "demo_node 1 1"] by (simp add: Let_def)

text \<open>
  C40. A write that the database rejects is served from the cache all the same: \<^verbatim>\<open>write\<close> returns the
  error, the table is unchanged, and reading the digest returns the certificate; and \<^verbatim>\<open>clear\<close> empties the
  tables but not the cache.
\<close>

theorem failed_write_served_from_cache:
  assumes "lru_ok l contents"
  shows "(let (res, st') = cert_write (certificate_store_cache l) False x st in
      res = Inl StoreError \<and> certificates_by_id st' = certificates_by_id st \<and>
      fst (cert_read (certificate_store_cache l) (c_digest x) st') = Some x) \<and>
    (let st' = cert_store_clear (snd (cert_write (certificate_store_cache l) True x st)) in
      cert_store_is_empty st' \<and> fst (cert_read (certificate_store_cache l) (c_digest x) st') = Some x)"
proof -
  have "contents (lru_put l (c_digest x) x t) (c_digest x) = Some x" for t using assms by (simp add: lru_ok_def)
  then have "fst (lru_get l (c_digest x) (lru_put l (c_digest x) x t)) = Some x" for t
    using assms by (simp add: lru_ok_def)
  then show ?thesis
    by (simp add: cert_write_def cert_read_def certificate_store_cache_def case_prod_unfold Let_def
        cert_store_clear_def cert_store_is_empty_def)
qed

theorem failed_write_served_from_cache_witness:
  "let (res, st') = cert_write (certificate_store_cache demo_lru) False (demo_node 2 2) demo_store in
     res = Inl StoreError \<and> fst (cert_read (certificate_store_cache demo_lru) 22 st') = Some (demo_node 2 2)"
  using failed_write_served_from_cache [OF demo_lru_ok, of "demo_node 2 2" demo_store] by (simp add: case_prod_unfold Let_def)


end
