(* ===== verification/Suspended_Laws.thy ===== *)
theory Suspended_Laws
  imports Synchronizer Certificate_Store_Laws
begin

text \<open>
  The suspended certificates of \<^verbatim>\<open>narwhal/primary/src/synchronizer.rs\<close>: the map of suspended certificates and the
  map of missing parents always agree, so that releasing children, suspending a certificate and garbage
  collection never meet an inconsistency, and what is released is in causal order.
\<close>

section \<open>The world of certificates\<close>

text \<open>The certificates there can be: digests identify headers, and the parents of a certificate that
  are certificates at all are of the round before.\<close>

definition headers_ok :: "certificate set \<Rightarrow> bool" where
  "headers_ok U \<longleftrightarrow>
     (\<forall>x \<in> U. 0 < c_round x \<and> c_round x < 2 ^ 64 \<and> distinct (c_parents x)) \<and>
     (\<forall>x \<in> U. \<forall>y \<in> U. c_digest x = c_digest y \<longrightarrow> c_header x = c_header y) \<and>
     (\<forall>x \<in> U. \<forall>y \<in> U. c_digest y \<in> set (c_parents x) \<longrightarrow> c_round x = Suc (c_round y))"

lemma headers_okD:
  assumes "headers_ok U" "x \<in> U"
  shows "0 < c_round x" "c_round x < 2 ^ 64" "distinct (c_parents x)"
    "y \<in> U \<Longrightarrow> c_digest x = c_digest y \<Longrightarrow> c_round x = c_round y \<and> c_parents x = c_parents y"
    "y \<in> U \<Longrightarrow> c_digest y \<in> set (c_parents x) \<Longrightarrow> c_round x = Suc (c_round y)"
proof -
  have ok: "(\<forall>x \<in> U. 0 < c_round x \<and> c_round x < 2 ^ 64 \<and> distinct (c_parents x))"
    and same: "\<forall>x \<in> U. \<forall>y \<in> U. c_digest x = c_digest y \<longrightarrow> c_header x = c_header y"
    and adj: "\<forall>x \<in> U. \<forall>y \<in> U. c_digest y \<in> set (c_parents x) \<longrightarrow> c_round x = Suc (c_round y)"
    using assms(1) [unfolded headers_ok_def] by iprover+
  from ok assms(2) show "0 < c_round x" "c_round x < 2 ^ 64" "distinct (c_parents x)" by blast+
  show "c_round x = c_round y \<and> c_parents x = c_parents y" if "y \<in> U" "c_digest x = c_digest y"
    using same [rule_format, OF assms(2) that] by (simp add: c_round_def c_parents_def)
  show "y \<in> U \<Longrightarrow> c_digest y \<in> set (c_parents x) \<Longrightarrow> c_round x = Suc (c_round y)"
    using adj assms(2) by blast
qed

text \<open>A list of certificates in causal order, over the known digests \<open>V\<close>: above the garbage collection
  round every parent is known or comes earlier.\<close>

fun ordered :: "round \<Rightarrow> certificate_digest set \<Rightarrow> certificate list \<Rightarrow> bool" where
  "ordered g V [] = True"
| "ordered g V (x # xs) \<longleftrightarrow> (Suc g < c_round x \<longrightarrow> set (c_parents x) \<subseteq> V) \<and> ordered g (insert (c_digest x) V) xs"

lemma ordered_append: "ordered g V (xs @ ys) \<longleftrightarrow> ordered g V xs \<and> ordered g (V \<union> c_digest ` set xs) ys"
  by (induction xs arbitrary: V) auto

definition history_closed :: "certificate set \<Rightarrow> round \<Rightarrow> certificate_digest set \<Rightarrow> bool" where
  "history_closed U g V \<longleftrightarrow> (\<forall>y \<in> U. c_digest y \<in> V \<longrightarrow> Suc g < c_round y \<longrightarrow> set (c_parents y) \<subseteq> V)"

lemma history_closed_insert:
  assumes "headers_ok U" "x \<in> U" "history_closed U g V" "Suc g < c_round x \<longrightarrow> set (c_parents x) \<subseteq> V"
  shows "history_closed U g (insert (c_digest x) V)"
  unfolding history_closed_def
proof (intro ballI impI)
  fix y assume y: "y \<in> U" "c_digest y \<in> insert (c_digest x) V" "Suc g < c_round y"
  show "set (c_parents y) \<subseteq> insert (c_digest x) V"
  proof (cases "c_digest y = c_digest x")
    case True
    with headers_okD(4) [OF assms(1) y(1) assms(2)] y assms(4) show ?thesis by auto
  next
    case False
    with y assms(3) show ?thesis by (auto simp: history_closed_def)
  qed
qed

section \<open>Consistency of the suspended state\<close>

text \<open>The digest \<open>d\<close> is registered as a child under the key \<open>k\<close>.\<close>

definition listed ::
  "(round \<times> certificate_digest \<rightharpoonup> certificate_digest list) \<Rightarrow> round \<times> certificate_digest \<Rightarrow> certificate_digest \<Rightarrow> bool" where
  "listed M k d \<longleftrightarrow> (\<exists>ch. M k = Some ch \<and> d \<in> set ch)"

lemma listed_simps [simp]:
  "listed (M(k \<mapsto> ch)) k' d \<longleftrightarrow> (if k' = k then d \<in> set ch else listed M k' d)"
  "listed (M(k := None)) k' d \<longleftrightarrow> k' \<noteq> k \<and> listed M k' d"
  by (auto simp: listed_def)

text \<open>What holds of a suspended certificate \<open>sc\<close> with digest \<open>d\<close>, over the known digests \<open>V\<close> and the map
  \<open>M\<close> of missing parents.\<close>

definition suspended_ok ::
  "certificate set \<Rightarrow> round \<Rightarrow> certificate_digest set \<Rightarrow> (round \<times> certificate_digest \<rightharpoonup> certificate_digest list) \<Rightarrow>
   certificate_digest \<Rightarrow> suspended_certificate \<Rightarrow> bool" where
  "suspended_ok U g V M d sc \<longleftrightarrow>
     sc_certificate sc \<in> U \<and> verified_state (sc_certificate sc) \<and> c_digest (sc_certificate sc) = d \<and> d \<notin> V \<and>
     sc_missing_parents sc \<noteq> [] \<and> set (sc_missing_parents sc) \<subseteq> set (c_parents (sc_certificate sc)) \<and>
     (\<forall>p \<in> set (sc_missing_parents sc). listed M (c_round (sc_certificate sc) - 1, p) d) \<and>
     (Suc g < c_round (sc_certificate sc) \<longrightarrow>
        set (c_parents (sc_certificate sc)) \<subseteq> V \<union> set (sc_missing_parents sc))"

definition children_ok ::
  "(certificate_digest \<rightharpoonup> suspended_certificate) \<Rightarrow> round \<Rightarrow> certificate_digest \<Rightarrow> certificate_digest list \<Rightarrow> bool" where
  "children_ok S r p ch \<longleftrightarrow> distinct ch \<and>
     (\<forall>d \<in> set ch. \<exists>sc. S d = Some sc \<and> p \<in> set (sc_missing_parents sc) \<and> c_round (sc_certificate sc) = Suc r)"

text \<open>The two maps agree; a key of \<open>M\<close> that is known already is still to be visited, in \<open>Q\<close>.\<close>

definition tracks ::
  "certificate set \<Rightarrow> round \<Rightarrow> certificate_digest set \<Rightarrow> (round \<times> certificate_digest) set \<Rightarrow>
   (certificate_digest \<rightharpoonup> suspended_certificate) \<Rightarrow> (round \<times> certificate_digest \<rightharpoonup> certificate_digest list) \<Rightarrow> bool" where
  "tracks U g V Q S M \<longleftrightarrow> history_closed U g V \<and> (\<forall>d sc. S d = Some sc \<longrightarrow> suspended_ok U g V M d sc) \<and>
     (\<forall>r p ch. M (r, p) = Some ch \<longrightarrow> children_ok S r p ch \<and> (p \<in> V \<longrightarrow> ch \<noteq> [] \<longrightarrow> (r, p) \<in> Q))"

lemma tracksD:
  assumes "tracks U g V Q S M"
  shows "history_closed U g V" "S d = Some sc \<Longrightarrow> suspended_ok U g V M d sc"
    "M (r, p) = Some ch \<Longrightarrow> children_ok S r p ch" "M (r, p) = Some ch \<Longrightarrow> p \<in> V \<Longrightarrow> ch \<noteq> [] \<Longrightarrow> (r, p) \<in> Q"
  using assms by (auto simp: tracks_def)

lemma tracks_mono: "tracks U g V Q S M \<Longrightarrow> Q \<subseteq> Q' \<Longrightarrow> tracks U g V Q' S M"
  by (auto simp: tracks_def)

lemma tracks_gc_mono: "tracks U g V Q S M \<Longrightarrow> g \<le> g' \<Longrightarrow> tracks U g' V Q S M"
  by (fastforce simp: tracks_def suspended_ok_def history_closed_def)

lemma suspended_ok_listed:
  assumes "suspended_ok U g V M d sc" "\<And>k. listed M k d \<Longrightarrow> listed M' k d" "V \<subseteq> V'" "d \<notin> V'"
  shows "suspended_ok U g V' M' d sc"
  using assms unfolding suspended_ok_def by blast

lemma tracksI:
  assumes "history_closed U g V" "\<And>d sc. S d = Some sc \<Longrightarrow> suspended_ok U g V M d sc"
    "\<And>r p ch. M (r, p) = Some ch \<Longrightarrow> children_ok S r p ch \<and> (p \<in> V \<longrightarrow> ch \<noteq> [] \<longrightarrow> (r, p) \<in> Q)"
  shows "tracks U g V Q S M"
  using assms by (simp add: tracks_def)

lemma suspended_ok_notin: "suspended_ok U g V M d sc \<Longrightarrow> d \<notin> V"
  by (simp add: suspended_ok_def)

lemma tracks_perm:
  assumes t: "tracks U g V Q S (M(k \<mapsto> ch))" and ch': "distinct ch'" "set ch' = set ch"
  shows "tracks U g V Q S (M(k \<mapsto> ch'))"
proof (rule tracksI)
  fix d sc assume "S d = Some sc"
  note ok = tracksD(2) [OF t this]
  show "suspended_ok U g V (M(k \<mapsto> ch')) d sc"
    by (rule suspended_ok_listed [OF ok _ _ suspended_ok_notin [OF ok]]) (simp_all add: ch'(2) split: if_splits)
next
  fix r p c assume m: "(M(k \<mapsto> ch')) (r, p) = Some c"
  show "children_ok S r p c \<and> (p \<in> V \<longrightarrow> c \<noteq> [] \<longrightarrow> (r, p) \<in> Q)"
  proof (cases "(r, p) = k")
    case True
    then have "children_ok S r p ch" "p \<in> V \<Longrightarrow> ch \<noteq> [] \<Longrightarrow> (r, p) \<in> Q" using tracksD(3,4) [OF t, of r p ch] by auto
    moreover have "c = ch'" "ch' = [] \<longleftrightarrow> ch = []" using m True ch'(2) by auto
    ultimately show ?thesis using ch' by (auto simp: children_ok_def)
  next
    case False
    with m tracksD(3,4) [OF t, of r p c] show ?thesis by auto
  qed
qed (rule tracksD(1) [OF t])

lemma tracks_remove_key:
  assumes t: "tracks U g V (insert k Q) S (M(k \<mapsto> []))"
  shows "tracks U g V Q S (M(k := None))"
proof (rule tracksI)
  fix d sc assume "S d = Some sc"
  note ok = tracksD(2) [OF t this]
  show "suspended_ok U g V (M(k := None)) d sc"
    by (rule suspended_ok_listed [OF ok _ _ suspended_ok_notin [OF ok]]) (simp_all split: if_splits)
next
  fix r p c assume "(M(k := None)) (r, p) = Some c"
  then show "children_ok S r p c \<and> (p \<in> V \<longrightarrow> c \<noteq> [] \<longrightarrow> (r, p) \<in> Q)"
    using tracksD(3,4) [OF t, of r p c] by (auto split: if_splits)
qed (rule tracksD(1) [OF t])

lemma tracks_skip_key:
  assumes "tracks U g V (insert k Q) S M" "M k = None"
  shows "tracks U g V Q S M"
  using assms unfolding tracks_def by force

text \<open>A child loses its last missing parent: it becomes known, and has to be visited in turn.\<close>

lemma tracks_release:
  assumes U: "headers_ok U" and t: "tracks U g V Q S (M((r, d) \<mapsto> c # cs))" and Q: "(r, d) \<in> Q" "d \<in> V \<or> r \<le> g"
    and sc: "S c = Some sc" "removeAll d (sc_missing_parents sc) = []"
  shows "Suc g < c_round (sc_certificate sc) \<longrightarrow> set (c_parents (sc_certificate sc)) \<subseteq> V" (is ?cov)
    and "tracks U g (insert c V) (insert (c_round (sc_certificate sc), c) Q) (S(c := None)) (M((r, d) \<mapsto> cs))" (is ?tr)
proof -
  let ?x = "sc_certificate sc" and ?M = "M((r, d) \<mapsto> c # cs)"
  note sok = tracksD(2) [OF t sc(1)]
  have x: "?x \<in> U" "c_digest ?x = c" using sok by (auto simp: suspended_ok_def)
  have "children_ok S r d (c # cs)" using tracksD(3) [OF t, of r d] by simp
  then have ch: "distinct (c # cs)" "c_round ?x = Suc r" "children_ok (S(c := None)) r d cs"
    using sc(1) by (auto simp: children_ok_def)
  have only: "set (sc_missing_parents sc) \<subseteq> {d}" using sc(2) by (metis Diff_eq_empty_iff set_empty set_removeAll)
  show cov: ?cov using sok only Q(2) ch(2) by (auto simp: suspended_ok_def)
  have hist: "history_closed U g (insert c V)"
    using history_closed_insert [OF U x(1) tracksD(1) [OF t] cov] x(2) by simp
  have S: "suspended_ok U g (insert c V) (M((r, d) \<mapsto> cs)) d' sc'" if "(S(c := None)) d' = Some sc'" for d' sc'
  proof -
    from that have d': "d' \<noteq> c" "S d' = Some sc'" by (auto split: if_splits)
    note ok = tracksD(2) [OF t this(2)]
    show ?thesis
      by (rule suspended_ok_listed [OF ok]) (use d'(1) suspended_ok_notin [OF ok] in \<open>auto split: if_splits\<close>)
  qed
  have M: "children_ok (S(c := None)) r' p ch' \<and> (p \<in> insert c V \<longrightarrow> ch' \<noteq> [] \<longrightarrow> (r', p) \<in> insert (c_round ?x, c) Q)"
    if "(M((r, d) \<mapsto> cs)) (r', p) = Some ch'" for r' p ch'
  proof (cases "(r', p) = (r, d)")
    case True
    with that ch(3) Q(1) show ?thesis by simp
  next
    case False
    with that have m: "?M (r', p) = Some ch'" by auto
    note cok = tracksD(3) [OF t m]
    have "c \<notin> set ch'"
    proof
      assume "c \<in> set ch'"
      with cok sc(1) have "p \<in> set (sc_missing_parents sc)" "c_round ?x = Suc r'" by (auto simp: children_ok_def)
      with only ch(2) False show False by auto
    qed
    with cok have 1: "children_ok (S(c := None)) r' p ch'" by (auto simp: children_ok_def)
    have 2: "r' = c_round ?x" if p: "p = c" and ne: "ch' \<noteq> []"
    proof -
      from ne obtain d' where "d' \<in> set ch'" by (cases ch') auto
      with cok obtain sc' where sc': "S d' = Some sc'" "p \<in> set (sc_missing_parents sc')" "c_round (sc_certificate sc') = Suc r'"
        by (auto simp: children_ok_def)
      with tracksD(2) [OF t sc'(1)] have "sc_certificate sc' \<in> U" "c_digest ?x \<in> set (c_parents (sc_certificate sc'))"
        using p x(2) by (auto simp: suspended_ok_def)
      from headers_okD(5) [OF U this(1) x(1) this(2)] sc'(3) show ?thesis by simp
    qed
    from 1 2 tracksD(4) [OF t m] show ?thesis by auto
  qed
  from hist S M show ?tr by (simp add: tracks_def)
qed

text \<open>A child loses a missing parent and keeps others.\<close>

lemma tracks_drop:
  assumes t: "tracks U g V Q S (M((r, d) \<mapsto> c # cs))" and Q: "(r, d) \<in> Q" "d \<in> V \<or> r \<le> g"
    and sc: "S c = Some sc" "removeAll d (sc_missing_parents sc) \<noteq> []"
  shows "tracks U g V Q (S(c \<mapsto> sc\<lparr>sc_missing_parents := removeAll d (sc_missing_parents sc)\<rparr>)) (M((r, d) \<mapsto> cs))"
proof -
  let ?sc = "sc\<lparr>sc_missing_parents := removeAll d (sc_missing_parents sc)\<rparr>" and ?M = "M((r, d) \<mapsto> c # cs)"
  have "children_ok S r d (c # cs)" using tracksD(3) [OF t, of r d] by simp
  then have ch: "distinct (c # cs)" "c_round (sc_certificate sc) = Suc r" "children_ok (S(c \<mapsto> ?sc)) r d cs"
    using sc(1) by (auto simp: children_ok_def)
  have new: "suspended_ok U g V (M((r, d) \<mapsto> cs)) c ?sc"
    using tracksD(2) [OF t sc(1)] sc(2) Q(2) ch(2) by (auto simp: suspended_ok_def)
  have S: "suspended_ok U g V (M((r, d) \<mapsto> cs)) d' sc'" if "d' \<noteq> c" "S d' = Some sc'" for d' sc'
  proof -
    note ok = tracksD(2) [OF t that(2)]
    show ?thesis
      by (rule suspended_ok_listed [OF ok]) (use that(1) suspended_ok_notin [OF ok] in \<open>auto split: if_splits\<close>)
  qed
  have M: "children_ok (S(c \<mapsto> ?sc)) r' p ch' \<and> (p \<in> V \<longrightarrow> ch' \<noteq> [] \<longrightarrow> (r', p) \<in> Q)"
    if "(M((r, d) \<mapsto> cs)) (r', p) = Some ch'" for r' p ch'
  proof (cases "(r', p) = (r, d)")
    case True
    with that ch(3) Q(1) show ?thesis by simp
  next
    case False
    with that have m: "?M (r', p) = Some ch'" by auto
    have "children_ok (S(c \<mapsto> ?sc)) r' p ch'"
      using tracksD(3) [OF t m] sc(1) ch(2) False by (auto simp: children_ok_def)
    with tracksD(4) [OF t m] show ?thesis by auto
  qed
  from tracksD(1) [OF t] new S M show ?thesis by (auto simp: tracks_def split: if_splits)
qed

section \<open>Releasing suspended certificates\<close>

text \<open>What the two loops of \<^verbatim>\<open>accept_children\<close> release: known certificates in causal order.\<close>

definition releasable :: "certificate set \<Rightarrow> round \<Rightarrow> certificate_digest set \<Rightarrow> suspended_certificate list \<Rightarrow> bool" where
  "releasable U g V scs \<longleftrightarrow> ordered g V (map sc_certificate scs) \<and>
     (\<forall>sc \<in> set scs. sc_certificate sc \<in> U \<and> verified_state (sc_certificate sc))"

abbreviation released :: "suspended_certificate list \<Rightarrow> certificate_digest set" where
  "released scs \<equiv> (\<lambda>sc. c_digest (sc_certificate sc)) ` set scs"

abbreviation slots_of :: "suspended_certificate list \<Rightarrow> (round \<times> certificate_digest) list" where
  "slots_of scs \<equiv> map (\<lambda>sc. (c_round (sc_certificate sc), c_digest (sc_certificate sc))) scs"

lemma releasable_append:
  "releasable U g V (xs @ ys) \<longleftrightarrow> releasable U g V xs \<and> releasable U g (V \<union> released xs) ys"
  by (auto simp: releasable_def ordered_append image_image)

lemma releasable_Nil [simp]: "releasable U g V []"
  by (simp add: releasable_def)

lemma accept_child_loop_spec:
  assumes U: "headers_ok U" and t: "tracks U g V (insert (r, d) (set q)) (map_of s) (M((r, d) \<mapsto> cs))"
    and d: "d \<in> V \<or> r \<le> g"
  shows "\<exists>new s'. accept_child_loop d cs q acc s = Some (q @ slots_of new, acc @ new, s') \<and> releasable U g V new \<and>
    tracks U g (V \<union> released new) (insert (r, d) (set (q @ slots_of new))) (map_of s') (M((r, d) \<mapsto> []))"
  using t d
proof (induction cs arbitrary: V q acc s)
  case Nil
  then show ?case by (intro exI [of _ "[]"] exI [of _ s]) simp
next
  case (Cons c cs)
  note t = Cons(2) and d = Cons(3)
  have "children_ok (map_of s) r d (c # cs)" using tracksD(3) [OF t, of r d] by simp
  then obtain sc where sc: "map_of s c = Some sc" by (auto simp: children_ok_def)
  let ?x = "sc_certificate sc" and ?mp = "removeAll d (sc_missing_parents sc)"
  let ?sc = "sc\<lparr>sc_missing_parents := ?mp\<rparr>"
  have x: "?x \<in> U" "verified_state ?x" "c_digest ?x = c" using tracksD(2) [OF t sc] by (auto simp: suspended_ok_def)
  show ?case
  proof (cases "?mp = []")
    case True
    let ?q = "q @ [(c_round ?x, c_digest ?x)]"
    note rel = tracks_release [OF U t _ d sc True]
    have "tracks U g (insert c V) (insert (r, d) (set ?q)) (map_of (AList.delete c s)) (M((r, d) \<mapsto> cs))"
      using rel(2) x(3) by (simp add: delete_conv' insert_commute)
    from Cons(1) [OF this, of "acc @ [?sc]"] d obtain new s' where
      new: "accept_child_loop d cs ?q (acc @ [?sc]) (AList.delete c s) = Some (?q @ slots_of new, (acc @ [?sc]) @ new, s')"
      "releasable U g (insert c V) new"
      "tracks U g (insert c V \<union> released new) (insert (r, d) (set (?q @ slots_of new))) (map_of s') (M((r, d) \<mapsto> []))"
      by blast
    have "releasable U g V (?sc # new)" using rel(1) new(2) x by (simp add: releasable_def)
    moreover have "accept_child_loop d (c # cs) q acc s = Some (q @ slots_of (?sc # new), acc @ (?sc # new), s')"
      using new(1) sc True by (simp add: Let_def)
    moreover have "tracks U g (V \<union> released (?sc # new)) (insert (r, d) (set (q @ slots_of (?sc # new)))) (map_of s') (M((r, d) \<mapsto> []))"
      using new(3) x(3) by simp
    ultimately show ?thesis by blast
  next
    case False
    have "tracks U g V (insert (r, d) (set q)) (map_of (AList.update c ?sc s)) (M((r, d) \<mapsto> cs))"
      using tracks_drop [OF t _ d sc False] by (simp add: update_conv')
    from Cons(1) [OF this d, of acc] sc False show ?thesis by (simp add: Let_def)
  qed
qed

lemma delete_bt_wf [simp]: "bt_wf m \<Longrightarrow> bt_wf (AList.delete k m)"
  by (rule bt_wf_delete)

lemma accept_children_loop_spec:
  assumes U: "headers_ok U" and iter: "\<forall>xs. mset (iter xs) = mset xs"
    and t: "tracks U g V (set q) (map_of (ss_suspended st)) (map_of (ss_missing st))"
    and q: "\<forall>(r, d) \<in> set q. d \<in> V \<or> r \<le> g" and wf: "bt_wf (ss_missing st)"
  shows "\<exists>new st'. accept_children_loop iter q acc st = Some (acc @ new, st') \<and> releasable U g V new \<and>
    tracks U g (V \<union> released new) {} (map_of (ss_suspended st')) (map_of (ss_missing st')) \<and>
    bt_wf (ss_missing st') \<and> map_of (ss_missing st') \<subseteq>\<^sub>m map_of (ss_missing st) \<and>
    (\<forall>k \<in> set q. map_of (ss_missing st') k = None)"
  using iter t q wf
proof (induction iter q acc st arbitrary: V rule: accept_children_loop.induct)
  case (1 iter acc st)
  then show ?case by (intro exI [of _ "[]"] exI [of _ st]) simp
next
  case (2 iter r d q acc st)
  note iter = 2(3) and t = 2(4) and q = 2(5) and wf = 2(6)
  let ?S = "map_of (ss_suspended st)" and ?M = "map_of (ss_missing st)"
  show ?case
  proof (cases "?M (r, d)")
    case None
    have "tracks U g V (set q) ?S ?M" using tracks_skip_key [of U g V "(r, d)" "set q"] t None by simp
    from 2(1) [OF None iter this _ wf] q obtain new st' where
      new: "accept_children_loop iter q acc st = Some (acc @ new, st')" "releasable U g V new"
        "tracks U g (V \<union> released new) {} (map_of (ss_suspended st')) (map_of (ss_missing st'))"
        "bt_wf (ss_missing st')" "map_of (ss_missing st') \<subseteq>\<^sub>m ?M" "\<forall>k \<in> set q. map_of (ss_missing st') k = None"
      by auto
    have "map_of (ss_missing st') (r, d) = None" using new(5) None by (metis domIff map_le_implies_dom_le subsetD)
    with new None show ?thesis by (intro exI [of _ new] exI [of _ st']) simp
  next
    case (Some ch)
    have "distinct ch" using tracksD(3) [OF t Some] by (simp add: children_ok_def)
    then have ch: "distinct (iter ch)" "set (iter ch) = set ch"
      using iter mset_eq_imp_distinct_iff mset_eq_setD by metis+
    have "tracks U g V (insert (r, d) (set q)) ?S (?M((r, d) \<mapsto> ch))" using t Some by (simp add: fun_upd_idem)
    note t1 = tracks_perm [OF this ch]
    from accept_child_loop_spec [OF U t1, of acc] q obtain new1 s1 where
      n1: "accept_child_loop d (iter ch) q acc (ss_suspended st) = Some (q @ slots_of new1, acc @ new1, s1)"
        "releasable U g V new1"
        "tracks U g (V \<union> released new1) (insert (r, d) (set (q @ slots_of new1))) (map_of s1) (?M((r, d) \<mapsto> []))"
      by auto
    let ?st = "\<lparr>ss_suspended = s1, ss_missing = AList.delete (r, d) (ss_missing st)\<rparr>"
    have t2: "tracks U g (V \<union> released new1) (set (q @ slots_of new1)) (map_of (ss_suspended ?st)) (map_of (ss_missing ?st))"
      using tracks_remove_key [OF n1(3)] by (simp add: delete_conv')
    have q2: "\<forall>(r, d) \<in> set (q @ slots_of new1). d \<in> V \<union> released new1 \<or> r \<le> g" using q by auto
    from 2(2) [OF Some n1(1) refl refl iter t2 q2] wf obtain new2 st' where
      n2: "accept_children_loop iter (q @ slots_of new1) (acc @ new1) ?st = Some ((acc @ new1) @ new2, st')"
        "releasable U g (V \<union> released new1) new2"
        "tracks U g ((V \<union> released new1) \<union> released new2) {} (map_of (ss_suspended st')) (map_of (ss_missing st'))"
        "bt_wf (ss_missing st')" "map_of (ss_missing st') \<subseteq>\<^sub>m map_of (ss_missing ?st)"
        "\<forall>k \<in> set (q @ slots_of new1). map_of (ss_missing st') k = None"
      by auto
    have le: "map_of (ss_missing st') \<subseteq>\<^sub>m ?M((r, d) := None)" using n2(5) by (simp add: delete_conv')
    have sub: "map_of (ss_missing st') \<subseteq>\<^sub>m ?M" using map_le_trans [OF le] by (simp add: map_le_def)
    have gone: "map_of (ss_missing st') (r, d) = None" using map_le_implies_dom_le [OF le] by auto
    from sub gone n1 n2 Some show ?thesis
      by (intro exI [of _ "new1 @ new2"] exI [of _ st']) (simp add: releasable_append image_Un Un_assoc)
  qed
qed

section \<open>The invariant of the suspended state\<close>

definition tracked :: "certificate set \<Rightarrow> round \<Rightarrow> certificate_digest set \<Rightarrow> sync_state \<Rightarrow> bool" where
  "tracked U g V st \<longleftrightarrow> tracks U g V {} (map_of (ss_suspended st)) (map_of (ss_missing st)) \<and>
     bt_wf (ss_missing st) \<and> (\<forall>k. map_of (ss_missing st) k \<noteq> Some [])"

text \<open>Nothing at or below the garbage collection round is waited for.\<close>

definition collected :: "round \<Rightarrow> sync_state \<Rightarrow> bool" where
  "collected g st \<longleftrightarrow> (\<forall>r p. map_of (ss_missing st) (r, p) \<noteq> None \<longrightarrow> g < r)"

lemma trackedD:
  assumes "tracked U g V st"
  shows "tracks U g V {} (map_of (ss_suspended st)) (map_of (ss_missing st))" "bt_wf (ss_missing st)"
    "map_of (ss_missing st) k \<noteq> Some []"
  using assms by (cases k, simp add: tracked_def)+

lemma missing_unknown:
  assumes t: "tracked U g V st" and m: "map_of (ss_missing st) (r, p) = Some ch"
  shows "p \<notin> V" "\<exists>d sc. map_of (ss_suspended st) d = Some sc \<and> p \<in> set (sc_missing_parents sc) \<and> c_round (sc_certificate sc) = Suc r"
proof -
  have "ch \<noteq> []" using trackedD(3) [OF t, of "(r, p)"] m by simp
  with tracksD(4) [OF trackedD(1) [OF t] m] show "p \<notin> V" by auto
  from \<open>ch \<noteq> []\<close> tracksD(3) [OF trackedD(1) [OF t] m]
  show "\<exists>d sc. map_of (ss_suspended st) d = Some sc \<and> p \<in> set (sc_missing_parents sc) \<and> c_round (sc_certificate sc) = Suc r"
    by (cases ch) (auto simp: children_ok_def)
qed

lemma missing_key_round:
  assumes U: "headers_ok U" and t: "tracked U g V st" and m: "map_of (ss_missing st) (r, c_digest x) \<noteq> None" and x: "x \<in> U"
  shows "r = c_round x"
proof -
  from m obtain ch where "map_of (ss_missing st) (r, c_digest x) = Some ch" by blast
  from missing_unknown(2) [OF t this] obtain d sc where sc: "map_of (ss_suspended st) d = Some sc"
    "c_digest x \<in> set (sc_missing_parents sc)" "c_round (sc_certificate sc) = Suc r" by blast
  with tracksD(2) [OF trackedD(1) [OF t] sc(1)] have "sc_certificate sc \<in> U" "c_digest x \<in> set (c_parents (sc_certificate sc))"
    by (auto simp: suspended_ok_def)
  from headers_okD(5) [OF U this(1) x this(2)] sc(3) show ?thesis by simp
qed

lemma suspended_waits:
  assumes t: "tracked U g V st" and s: "map_of (ss_suspended st) d = Some sc"
  shows "\<exists>p ch. p \<in> set (c_parents (sc_certificate sc)) \<and> p \<notin> V \<and>
    map_of (ss_missing st) (c_round (sc_certificate sc) - 1, p) = Some ch"
proof -
  note ok = tracksD(2) [OF trackedD(1) [OF t] s]
  then have "sc_missing_parents sc \<noteq> []" by (simp add: suspended_ok_def)
  then obtain p where p: "p \<in> set (sc_missing_parents sc)" using hd_in_set by blast
  with ok obtain ch where ch: "map_of (ss_missing st) (c_round (sc_certificate sc) - 1, p) = Some ch"
    by (auto simp: suspended_ok_def listed_def)
  from ok p missing_unknown(1) [OF t ch] ch show ?thesis by (auto simp: suspended_ok_def)
qed

lemma acceptable_not_suspended:
  assumes U: "headers_ok U" and t: "tracked U g V st" and gc: "collected g st" and x: "x \<in> U"
    and parents: "Suc g < c_round x \<longrightarrow> set (c_parents x) \<subseteq> V"
  shows "map_of (ss_suspended st) (c_digest x) = None"
proof (rule ccontr)
  assume "map_of (ss_suspended st) (c_digest x) \<noteq> None"
  then obtain sc where s: "map_of (ss_suspended st) (c_digest x) = Some sc" by blast
  from tracksD(2) [OF trackedD(1) [OF t] s] have y: "sc_certificate sc \<in> U" "c_digest (sc_certificate sc) = c_digest x"
    by (auto simp: suspended_ok_def)
  note same = headers_okD(4) [OF U y(1) x y(2)]
  from suspended_waits [OF t s] obtain p ch where p: "p \<in> set (c_parents x)" "p \<notin> V"
    "map_of (ss_missing st) (c_round x - 1, p) = Some ch" using same by auto
  from gc p(3) have "g < c_round x - 1" by (auto simp: collected_def)
  with parents p show False by auto
qed

text \<open>Once a parent is accepted, or will never be, its children can be released.\<close>

lemma accept_children_tracked:
  assumes U: "headers_ok U" and iter: "\<forall>xs. mset (iter xs) = mset xs" and wf: "bt_wf (ss_missing st)"
    "\<forall>k. map_of (ss_missing st) k \<noteq> Some []"
    and t: "tracks U g V {(r, d)} (map_of (ss_suspended st)) (map_of (ss_missing st))"
    and d: "d \<in> V \<or> r \<le> g" "map_of (ss_suspended st) d = None"
  shows "\<exists>new st'. accept_children iter r d st = Some (new, st') \<and> releasable U g V new \<and>
    tracked U g (V \<union> released new) st' \<and> map_of (ss_missing st') \<subseteq>\<^sub>m map_of (ss_missing st) \<and>
    map_of (ss_missing st') (r, d) = None"
proof -
  from accept_children_loop_spec [OF U iter, of g V "[(r, d)]" st "[]"] t d(1) wf(1) obtain new st' where
    new: "accept_children_loop iter [(r, d)] [] st = Some (new, st')" "releasable U g V new"
      "tracks U g (V \<union> released new) {} (map_of (ss_suspended st')) (map_of (ss_missing st'))"
      "bt_wf (ss_missing st')" "map_of (ss_missing st') \<subseteq>\<^sub>m map_of (ss_missing st)" "map_of (ss_missing st') (r, d) = None"
    by auto
  have "map_of (ss_missing st') k \<noteq> Some []" for k
  proof
    assume "map_of (ss_missing st') k = Some []"
    with new(5) have "map_of (ss_missing st) k = Some []" by (metis domI map_le_def)
    with wf(2) show False by blast
  qed
  with new have "tracked U g (V \<union> released new) st'" by (simp add: tracked_def)
  with new d(2) show ?thesis by (auto simp: accept_children_def simp del: accept_children_loop.simps)
qed

lemma collected_subset:
  "collected g st \<Longrightarrow> map_of (ss_missing st') \<subseteq>\<^sub>m map_of (ss_missing st) \<Longrightarrow> collected g st'"
  by (force simp: collected_def map_le_def dom_def)

lemma accept_children_consistent:
  assumes U: "headers_ok U" and iter: "\<forall>xs. mset (iter xs) = mset xs" and t: "tracked U g V st" and gc: "collected g st"
    and x: "x \<in> U" and parents: "Suc g < c_round x \<longrightarrow> set (c_parents x) \<subseteq> V"
  shows "\<exists>new st'. accept_children iter (c_round x) (c_digest x) st = Some (new, st') \<and>
    releasable U g (insert (c_digest x) V) new \<and> tracked U g (insert (c_digest x) V \<union> released new) st' \<and> collected g st'"
proof -
  let ?d = "c_digest x"
  have none: "map_of (ss_suspended st) ?d = None" by (rule acceptable_not_suspended [OF U t gc x parents])
  have "tracks U g (insert ?d V) {(c_round x, ?d)} (map_of (ss_suspended st)) (map_of (ss_missing st))"
  proof (rule tracksI)
    show "history_closed U g (insert ?d V)" by (rule history_closed_insert [OF U x tracksD(1) [OF trackedD(1) [OF t]] parents])
  next
    fix d sc assume s: "map_of (ss_suspended st) d = Some sc"
    note ok = tracksD(2) [OF trackedD(1) [OF t] s]
    show "suspended_ok U g (insert ?d V) (map_of (ss_missing st)) d sc"
      by (rule suspended_ok_listed [OF ok]) (use s none suspended_ok_notin [OF ok] in auto)
  next
    fix r p ch assume m: "map_of (ss_missing st) (r, p) = Some ch"
    have "r = c_round x" if "p = ?d" using missing_key_round [OF U t _ x] m that by auto
    with missing_unknown(1) [OF t m] tracksD(3) [OF trackedD(1) [OF t] m]
    show "children_ok (map_of (ss_suspended st)) r p ch \<and> (p \<in> insert ?d V \<longrightarrow> ch \<noteq> [] \<longrightarrow> (r, p) \<in> {(c_round x, ?d)})"
      by auto
  qed
  from accept_children_tracked [OF U iter trackedD(2) [OF t] _ this _ none] trackedD(3) [OF t] collected_subset [OF gc]
  show ?thesis by blast
qed

section \<open>Suspending a certificate\<close>

text \<open>Registering a digest that no key lists yet never fails, and adds it under every missing parent.\<close>

lemma insert_missing_spec:
  assumes "bt_wf m" "distinct ds" "\<forall>p \<in> set ds. \<not> listed (map_of m) (r, p) d"
  shows "\<exists>m'. insert_missing r d ds m = Some m' \<and> bt_wf m' \<and>
    (\<forall>k. map_of m' k = (if fst k = r \<and> snd k \<in> set ds then Some ((case map_of m k of None \<Rightarrow> [] | Some ch \<Rightarrow> ch) @ [d])
      else map_of m k))"
  using assms
proof (induction ds arbitrary: m)
  case (Cons p ds)
  let ?ch = "case map_of m (r, p) of None \<Rightarrow> [] | Some ch \<Rightarrow> ch" and ?m = "bt_insert (r, p) ((case map_of m (r, p) of None \<Rightarrow> [] | Some ch \<Rightarrow> ch) @ [d]) m"
  have "d \<notin> set ?ch" using Cons(4) by (auto simp: listed_def split: option.splits)
  then have step: "insert_missing r d (p # ds) m = insert_missing r d ds ?m" by simp
  have "\<forall>p' \<in> set ds. \<not> listed (map_of ?m) (r, p') d" using Cons(2-4) by auto
  from Cons(1) [OF _ _ this] Cons(2,3) obtain m' where m': "insert_missing r d ds ?m = Some m'" "bt_wf m'"
    "\<forall>k. map_of m' k = (if fst k = r \<and> snd k \<in> set ds then Some ((case map_of ?m k of None \<Rightarrow> [] | Some ch \<Rightarrow> ch) @ [d])
      else map_of ?m k)" by auto
  have "map_of m' k = (if fst k = r \<and> snd k \<in> set (p # ds) then Some ((case map_of m k of None \<Rightarrow> [] | Some ch \<Rightarrow> ch) @ [d])
      else map_of m k)" for k
    using m'(3) Cons(2,3) by (cases k) auto
  with m' step show ?case by auto
qed auto

text \<open>What suspending adds to the two maps.\<close>

lemma tracks_suspend:
  assumes U: "headers_ok U" and t: "tracks U g V {} S M" and x: "x \<in> U" "verified_state x" and new: "S (c_digest x) = None"
    and r: "Suc g < c_round x" and mp: "set mp = set (c_parents x) - V" "mp \<noteq> []"
    and M': "\<And>k. M' k = (if fst k = c_round x - 1 \<and> snd k \<in> set mp
      then Some ((case M k of None \<Rightarrow> [] | Some ch \<Rightarrow> ch) @ [c_digest x]) else M k)"
  shows "tracks U g V {} (S(c_digest x \<mapsto> \<lparr>sc_certificate = x, sc_missing_parents = mp\<rparr>)) M'"
proof (rule tracksI)
  show hist: "history_closed U g V" by (rule tracksD(1) [OF t])
  have unlisted: "\<not> listed M k (c_digest x)" for k
  proof
    assume "listed M k (c_digest x)"
    then obtain ch where "M (fst k, snd k) = Some ch" "c_digest x \<in> set ch" by (auto simp: listed_def)
    with tracksD(3) [OF t this(1)] new show False by (fastforce simp: children_ok_def)
  qed
  have mono: "listed M' k d" if "listed M k d" for k d
    using that by (auto simp: listed_def M')
  fix d sc assume s: "(S(c_digest x \<mapsto> \<lparr>sc_certificate = x, sc_missing_parents = mp\<rparr>)) d = Some sc"
  show "suspended_ok U g V M' d sc"
  proof (cases "d = c_digest x")
    case True
    have "c_digest x \<notin> V"
    proof
      assume "c_digest x \<in> V"
      with hist x(1) r have "set (c_parents x) \<subseteq> V" by (auto simp: history_closed_def)
      then have "set (c_parents x) - V = {}" by blast
      with mp show False by simp
    qed
    moreover have "listed M' (c_round x - 1, p) (c_digest x)" if "p \<in> set mp" for p using that by (auto simp: listed_def M')
    moreover have "sc = \<lparr>sc_certificate = x, sc_missing_parents = mp\<rparr>" using s True by simp
    ultimately show ?thesis using True x mp by (auto simp: suspended_ok_def)
  next
    case False
    with s have "S d = Some sc" by simp
    note ok = tracksD(2) [OF t this]
    show ?thesis by (rule suspended_ok_listed [OF ok mono _ suspended_ok_notin [OF ok]]) auto
  qed
next
  let ?S = "S(c_digest x \<mapsto> \<lparr>sc_certificate = x, sc_missing_parents = mp\<rparr>)"
  fix r' p ch assume m: "M' (r', p) = Some ch"
  have old: "children_ok ?S r' p c \<and> c_digest x \<notin> set c \<and> (p \<in> V \<longrightarrow> c = [])" if "M (r', p) = Some c" for c
    using tracksD(3,4) [OF t that] new unfolding children_ok_def by (metis empty_iff fun_upd_other option.distinct(1))
  show "children_ok ?S r' p ch \<and> (p \<in> V \<longrightarrow> ch \<noteq> [] \<longrightarrow> (r', p) \<in> {})"
  proof (cases "r' = c_round x - 1 \<and> p \<in> set mp")
    case True
    then have "p \<notin> V" "ch = (case M (r', p) of None \<Rightarrow> [] | Some ch \<Rightarrow> ch) @ [c_digest x]" using m mp by (auto simp: M')
    with True old r show ?thesis by (cases "M (r', p)") (auto simp: children_ok_def)
  next
    case False
    with m have "M (r', p) = Some ch" by (auto simp: M' split: if_splits)
    with old show ?thesis by auto
  qed
qed

lemma sync_state_insert_consistent:
  assumes U: "headers_ok U" and t: "tracked U g V st" and gc: "collected g st" and x: "x \<in> U" "verified_state x"
    and r: "Suc g < c_round x" and mp: "mp = filter (\<lambda>p. p \<notin> V) (c_parents x)" "mp \<noteq> []"
    and allow: "allow \<or> map_of (ss_suspended st) (c_digest x) = None"
  shows "\<exists>st'. sync_state_insert x mp allow st = Some st' \<and> tracked U g V st' \<and> collected g st'"
proof (cases "map_of (ss_suspended st) (c_digest x)")
  case (Some sc)
  note ok = tracksD(2) [OF trackedD(1) [OF t] Some]
  have y: "sc_certificate sc \<in> U" "c_digest (sc_certificate sc) = c_digest x" using ok by (auto simp: suspended_ok_def)
  note same = headers_okD(4) [OF U y(1) x(1) y(2)]
  have "p \<notin> V" if p: "p \<in> set (sc_missing_parents sc)" for p
  proof -
    from ok p obtain ch where "map_of (ss_missing st) (c_round (sc_certificate sc) - 1, p) = Some ch"
      by (auto simp: suspended_ok_def listed_def)
    from missing_unknown(1) [OF t this] show ?thesis .
  qed
  then have "set (sc_missing_parents sc) = set mp" using ok same r mp(1) by (auto simp: suspended_ok_def)
  with Some allow t gc show ?thesis by (simp add: sync_state_insert_def)
next
  case None
  have round: "u64_sub (c_round x) 1 = c_round x - 1"
    using headers_okD(1,2) [OF U x(1)] by (simp add: u64_sub_fits)
  have dist: "distinct mp" using headers_okD(3) [OF U x(1)] mp(1) by simp
  have "\<forall>p \<in> set mp. \<not> listed (map_of (ss_missing st)) (c_round x - 1, p) (c_digest x)"
    using tracksD(3) [OF trackedD(1) [OF t], of "c_round x - 1"] None by (fastforce simp: listed_def children_ok_def)
  from insert_missing_spec [OF trackedD(2) [OF t] dist this] obtain m where
    m: "insert_missing (c_round x - 1) (c_digest x) mp (ss_missing st) = Some m" "bt_wf m"
      "\<forall>k. map_of m k = (if fst k = c_round x - 1 \<and> snd k \<in> set mp
        then Some ((case map_of (ss_missing st) k of None \<Rightarrow> [] | Some ch \<Rightarrow> ch) @ [c_digest x]) else map_of (ss_missing st) k)"
    by blast
  let ?sc = "\<lparr>sc_certificate = x, sc_missing_parents = mp\<rparr>"
  let ?st = "\<lparr>ss_suspended = AList.update (c_digest x) ?sc (ss_suspended st), ss_missing = m\<rparr>"
  have "tracks U g V {} (map_of (ss_suspended ?st)) (map_of (ss_missing ?st))"
    using tracks_suspend [OF U trackedD(1) [OF t] x None r _ mp(2) m(3) [rule_format]] mp(1) by (auto simp: update_conv')
  moreover have "map_of m k \<noteq> Some []" for k using m(3) [rule_format, of k] trackedD(3) [OF t, of k] by simp
  ultimately have "tracked U g V ?st" using m(2) by (simp add: tracked_def)
  moreover have "collected g ?st" using gc r m(3) by (auto simp: collected_def)
  moreover have "sync_state_insert x mp allow st = Some ?st"
    using None m(1) round dist by (simp add: sync_state_insert_def Let_def distinct_remdups_id)
  ultimately show ?thesis by blast
qed

section \<open>Garbage collection of missing parents\<close>

text \<open>The first missing parent is never suspended itself, so there is nothing to accept but its
  children.\<close>

lemma first_missing_not_suspended:
  assumes U: "headers_ok U" and t: "tracked U g V st" and m: "ss_missing st = ((r, d), ch) # rest"
  shows "map_of (ss_suspended st) d = None"
proof (rule ccontr)
  assume "map_of (ss_suspended st) d \<noteq> None"
  then obtain sc where s: "map_of (ss_suspended st) d = Some sc" by blast
  note ok = tracksD(2) [OF trackedD(1) [OF t] s]
  have key: "map_of (ss_missing st) (r, d) = Some ch" using m by simp
  have "r = c_round (sc_certificate sc)" using missing_key_round [OF U t, of r "sc_certificate sc"] key ok by (auto simp: suspended_ok_def)
  moreover from suspended_waits [OF t s] obtain p ch' where
    "map_of (ss_missing st) (c_round (sc_certificate sc) - 1, p) = Some ch'" by blast
  moreover have "0 < c_round (sc_certificate sc)" using headers_okD(1) [OF U] ok by (auto simp: suspended_ok_def)
  ultimately obtain k where "k \<in> fst ` set (ss_missing st)" "k < (r, d)"
    by (metis Suc_pred' fst_conv image_eqI lessI less_prod_simp map_of_SomeD)
  moreover have "(r, d) \<le> k" if "k \<in> fst ` set (ss_missing st)" for k
    using that m trackedD(2) [OF t] by (auto intro: less_imp_le simp del: less_prod_simp less_eq_prod_simp)
  ultimately show False by (simp add: leD del: less_prod_simp less_eq_prod_simp)
qed

lemma run_gc_once_spec:
  assumes U: "headers_ok U" and t: "tracked U g V st"
  shows "(run_gc_once g st = None \<and> collected g st) \<or>
    (\<exists>r d. run_gc_once g st = Some (((r, d), None), st) \<and> r \<le> g \<and> map_of (ss_suspended st) d = None \<and>
       map_of (ss_missing st) (r, d) \<noteq> None)"
proof (cases "ss_missing st")
  case Nil
  then show ?thesis by (simp add: run_gc_once_def collected_def)
next
  case (Cons e rest)
  obtain r d ch where e: "e = ((r, d), ch)" by (metis surj_pair)
  have none: "map_of (ss_suspended st) d = None" using first_missing_not_suspended [OF U t] Cons e by blast
  then have del: "AList.delete d (ss_suspended st) = ss_suspended st" by (simp add: delete_idem map_of_eq_None_iff)
  show ?thesis
  proof (cases "r \<le> g")
    case True
    with Cons e none del show ?thesis by (simp add: run_gc_once_def Let_def)
  next
    case False
    have "g < r'" if "map_of (ss_missing st) (r', p) \<noteq> None" for r' p
    proof -
      from that Cons e have "(r', p) = (r, d) \<or> map_of rest (r', p) \<noteq> None" by (auto split: if_splits)
      then have "(r', p) = (r, d) \<or> (r', p) \<in> fst ` set rest" by (simp add: map_of_eq_None_iff)
      moreover have "\<forall>k \<in> fst ` set rest. (r, d) < k" using trackedD(2) [OF t] Cons e by simp
      ultimately have "(r, d) \<le> (r', p)" by (metis order.order_iff_strict)
      with False show ?thesis by auto
    qed
    then have "collected g st" by (auto simp: collected_def)
    with Cons e False show ?thesis by (simp add: run_gc_once_def)
  qed
qed

lemma tracked_gc_mono: "tracked U g V st \<Longrightarrow> g \<le> g' \<Longrightarrow> tracked U g' V st"
  by (auto simp: tracked_def intro: tracks_gc_mono)

end
