(* ===== verification/Synchronizer_Laws.thy ===== *)
theory Synchronizer_Laws
  imports Suspended_Laws
begin

text \<open>
  The handlers of the synchronizer. Over a certificate store with any cache that keeps the contract
  \<open>cache_contract\<close>, every handler returns, keeps the invariant \<open>sync_inv\<close>, and hands consensus a list of
  certificates in causal order; certificates verified indirectly are ancestors of verified ones.
\<close>

section \<open>The invariant of the synchronizer\<close>

text \<open>The digests of the certificate store.\<close>

definition known :: "'t synchronizer \<Rightarrow> certificate_digest set" where
  "known sy = dom (map_of (certificates_by_id (sy_certificate_store sy)))"

definition store_holds :: "certificate set \<Rightarrow> 't certificate_store \<Rightarrow> bool" where
  "store_holds U st \<longleftrightarrow> bt_wf (certificates_by_id st) \<and>
     (\<forall>d x. map_of (certificates_by_id st) d = Some x \<longrightarrow> x \<in> U \<and> c_digest x = d)"

definition sync_store_ok ::
  "('t \<Rightarrow> certificate_digest \<Rightarrow> certificate option) \<Rightarrow> certificate set \<Rightarrow> 't synchronizer \<Rightarrow> bool" where
  "sync_store_ok view U sy \<longleftrightarrow> coherent view (sy_certificate_store sy) \<and> store_holds U (sy_certificate_store sy) \<and>
     Suc (sy_gc_round sy) < 2 ^ 64"

definition sync_inv ::
  "('t \<Rightarrow> certificate_digest \<Rightarrow> certificate option) \<Rightarrow> certificate set \<Rightarrow> 't synchronizer \<Rightarrow> bool" where
  "sync_inv view U sy \<longleftrightarrow> sync_store_ok view U sy \<and> tracked U (sy_gc_round sy) (known sy) (sy_state sy) \<and>
     collected (sy_gc_round sy) (sy_state sy)"

text \<open>What never changes while the synchronizer runs.\<close>

definition sync_config ::
  "'t synchronizer \<Rightarrow> authority_identifier \<times> narwhal_committee \<times> worker_cache \<times> round \<times> (certificate_digest \<times> certificate) list" where
  "sync_config sy = (sy_authority_id sy, sy_committee sy, sy_worker_cache sy, sy_gc_depth sy, sy_genesis sy)"

text \<open>A handler sent exactly \<open>xs\<close> to consensus, in causal order, and stored them.\<close>

definition delivers :: "certificate set \<Rightarrow> 't synchronizer \<Rightarrow> certificate list \<Rightarrow> 't synchronizer \<Rightarrow> bool" where
  "delivers U sy xs sy' \<longleftrightarrow> sy_tx_new_certificates sy' = sy_tx_new_certificates sy @ xs \<and> set xs \<subseteq> U \<and>
     ordered (sy_gc_round sy) (known sy) xs \<and> known sy' = known sy \<union> c_digest ` set xs \<and>
     sy_gc_round sy' = sy_gc_round sy \<and> sync_config sy' = sync_config sy"

lemma delivers_trans:
  assumes "delivers U sy xs sy1" "delivers U sy1 ys sy2"
  shows "delivers U sy (xs @ ys) sy2"
  using assms by (auto simp: delivers_def ordered_append)

lemma delivers_none:
  assumes "sy_tx_new_certificates sy' = sy_tx_new_certificates sy" "sy_certificate_store sy' = sy_certificate_store sy"
    "sy_gc_round sy' = sy_gc_round sy" "sync_config sy' = sync_config sy"
  shows "delivers U sy [] sy'"
  using assms by (simp add: delivers_def known_def)

text \<open>Changes to the outgoing channels and counters keep the invariant.\<close>

lemma sync_inv_cong:
  assumes "sy_certificate_store sy' = sy_certificate_store sy" "sy_gc_round sy' = sy_gc_round sy" "sy_state sy' = sy_state sy"
  shows "sync_inv view U sy' = sync_inv view U sy"
  using assms by (simp add: sync_inv_def sync_store_ok_def known_def)

lemma append_aggregator_frame:
  "sy_certificate_store (append_certificate_in_aggregator x sy) = sy_certificate_store sy"
  "sy_gc_round (append_certificate_in_aggregator x sy) = sy_gc_round sy"
  "sy_state (append_certificate_in_aggregator x sy) = sy_state sy"
  "sy_tx_new_certificates (append_certificate_in_aggregator x sy) = sy_tx_new_certificates sy"
  "sync_config (append_certificate_in_aggregator x sy) = sync_config sy"
  by (auto simp: append_certificate_in_aggregator_def sync_config_def Let_def split: prod.splits option.splits)

lemma verified_state_genesis: "verified_state x \<Longrightarrow> verified_or_genesis x"
  by (auto simp: verified_state_def verified_or_genesis_def split: signature_verification_state.splits)

section \<open>Accepting certificates\<close>

context cache_contract
begin

lemma accept_certificate_internal_ok:
  assumes ok: "sync_store_ok view U sy" and x: "x \<in> U" "verified_state x" and db: "\<forall>d. db_ok d"
    and parents: "Suc (sy_gc_round sy) < c_round x \<longrightarrow> set (c_parents x) \<subseteq> known sy"
  shows "\<exists>sy'. accept_certificate_internal ca db_ok x sy = Some sy' \<and> delivers U sy [x] sy' \<and>
    sync_store_ok view U sy' \<and> sy_state sy' = sy_state sy"
proof -
  let ?st = "sy_certificate_store sy"
  have coh: "coherent view ?st" and holds: "store_holds U ?st" and g: "u64_add (sy_gc_round sy) 1 = Suc (sy_gc_round sy)"
    using ok by (simp_all add: sync_store_ok_def u64_add_fits)
  have wf: "bt_wf (certificates_by_id ?st)" using holds by (simp add: store_holds_def)
  have check: "u64_add (sy_gc_round sy) 1 < c_round x \<longrightarrow>
      list_all (\<lambda>(_, exists). exists) (zip (c_parents x) (cert_multi_contains ca (c_parents x) ?st))"
  proof -
    have "list_all (\<lambda>(_, exists). exists) (zip ps (map f ps)) \<longleftrightarrow> (\<forall>p \<in> set ps. f p)" for f :: "certificate_digest \<Rightarrow> bool" and ps
      by (induction ps) auto
    then show ?thesis using parents unfolding multi_contains_through [OF coh] g known_def by blast
  qed
  let ?new = "snd (cert_write ca True x ?st)"
  define sy1 where "sy1 = append_certificate_in_aggregator x
       (sy\<lparr>sy_certificate_store := ?new, sy_highest_processed_round := max (sy_highest_processed_round sy) (c_round x)\<rparr>)"
  let ?sy = "sy1\<lparr>sy_tx_new_certificates := sy_tx_new_certificates sy1 @ [x]\<rparr>"
  have run: "accept_certificate_internal ca db_ok x sy = Some ?sy"
    unfolding accept_certificate_internal_def using check verified_state_genesis [OF x(2)] db
    by (simp add: sy1_def cert_write_def Let_def)
  have by_id: "map_of (certificates_by_id ?new) = (map_of (certificates_by_id ?st))(c_digest x \<mapsto> x)" "bt_wf (certificates_by_id ?new)"
    using wf by (simp_all add: cert_write_def insert_rows_def Let_def)
  have store: "sy_certificate_store ?sy = ?new" "sy_gc_round ?sy = sy_gc_round sy" "sy_state ?sy = sy_state sy"
    "sy_tx_new_certificates ?sy = sy_tx_new_certificates sy @ [x]" "sync_config ?sy = sync_config sy"
    by (simp_all add: sy1_def append_aggregator_frame) (simp add: append_aggregator_frame(5) [unfolded sync_config_def] sync_config_def)
  have "store_holds U ?new" using holds by_id x(1) by (auto simp: store_holds_def)
  moreover have "known ?sy = known sy \<union> {c_digest x}" using by_id(1) by (auto simp: known_def store)
  ultimately show ?thesis
    using run store write_coherent [OF coh wf] ok parents x(1)
    by (intro exI [of _ ?sy]) (simp add: delivers_def sync_store_ok_def)
qed

lemma accept_suspended_certificates_ok:
  assumes "sync_store_ok view U sy" "releasable U (sy_gc_round sy) (known sy) scs" and db: "\<forall>d. db_ok d"
  shows "\<exists>sy'. accept_suspended_certificates ca db_ok scs sy = Some sy' \<and> delivers U sy (map sc_certificate scs) sy' \<and>
    sync_store_ok view U sy' \<and> sy_state sy' = sy_state sy"
  using assms(1,2)
proof (induction scs arbitrary: sy)
  case Nil
  then show ?case by (simp add: delivers_none)
next
  case (Cons sc scs)
  let ?x = "sc_certificate sc"
  from Cons(3) have x: "?x \<in> U" "verified_state ?x" "Suc (sy_gc_round sy) < c_round ?x \<longrightarrow> set (c_parents ?x) \<subseteq> known sy"
    and rest: "releasable U (sy_gc_round sy) (insert (c_digest ?x) (known sy)) scs"
    by (auto simp: releasable_def)
  from accept_certificate_internal_ok [OF Cons(2) x(1,2) db x(3)] obtain sy1 where
    sy1: "accept_certificate_internal ca db_ok ?x sy = Some sy1" "delivers U sy [?x] sy1" "sync_store_ok view U sy1"
      "sy_state sy1 = sy_state sy" by blast
  have "releasable U (sy_gc_round sy1) (known sy1) scs" using rest sy1(2) by (simp add: delivers_def)
  from Cons(1) [OF sy1(3) this] obtain sy2 where
    sy2: "accept_suspended_certificates ca db_ok scs sy1 = Some sy2" "delivers U sy1 (map sc_certificate scs) sy2"
      "sync_store_ok view U sy2" "sy_state sy2 = sy_state sy1" by blast
  from delivers_trans [OF sy1(2) sy2(2)] sy1 sy2 show ?case by simp
qed

lemma accept_with_children_ok:
  assumes U: "headers_ok U" and iter: "\<forall>xs. mset (iter xs) = mset xs" and db: "\<forall>d. db_ok d" and inv: "sync_inv view U sy"
    and x: "x \<in> U" "verified_state x" and parents: "Suc (sy_gc_round sy) < c_round x \<longrightarrow> set (c_parents x) \<subseteq> known sy"
  shows "\<exists>xs sy'. accept_with_children ca db_ok iter x sy = Some sy' \<and> delivers U sy (x # xs) sy' \<and> sync_inv view U sy'"
proof -
  let ?g = "sy_gc_round sy" and ?V = "insert (c_digest x) (known sy)"
  have inv': "sync_store_ok view U sy" "tracked U ?g (known sy) (sy_state sy)" "collected ?g (sy_state sy)"
    using inv by (simp_all add: sync_inv_def)
  from accept_children_consistent [OF U iter inv'(2,3) x(1) parents] obtain new st where
    new: "accept_children iter (c_round x) (c_digest x) (sy_state sy) = Some (new, st)" "releasable U ?g ?V new"
      "tracked U ?g (?V \<union> released new) st" "collected ?g st" by blast
  let ?sy = "sy\<lparr>sy_state := st\<rparr>"
  have sy: "delivers U sy [] ?sy" by (rule delivers_none) (simp_all add: sync_config_def)
  have "sync_store_ok view U ?sy" "Suc (sy_gc_round ?sy) < c_round x \<longrightarrow> set (c_parents x) \<subseteq> known ?sy"
    using inv'(1) parents by (simp_all add: sync_store_ok_def known_def)
  from accept_certificate_internal_ok [OF this(1) x db this(2)] obtain sy1 where
    sy1: "accept_certificate_internal ca db_ok x ?sy = Some sy1" "delivers U ?sy [x] sy1" "sync_store_ok view U sy1"
      "sy_state sy1 = st" by auto
  have k1: "sy_gc_round sy1 = ?g" "known sy1 = ?V" using sy1(2) by (auto simp: delivers_def known_def)
  from accept_suspended_certificates_ok [OF sy1(3) _ db, of new] new(2) k1 obtain sy2 where
    sy2: "accept_suspended_certificates ca db_ok new sy1 = Some sy2" "delivers U sy1 (map sc_certificate new) sy2"
      "sync_store_ok view U sy2" "sy_state sy2 = st" using sy1(4) by auto
  have k2: "sy_gc_round sy2 = ?g" "known sy2 = ?V \<union> released new" using sy2(2) k1 by (auto simp: delivers_def image_image)
  have "sync_inv view U sy2" using sy2(3,4) new(3,4) k2 by (simp add: sync_inv_def)
  moreover have "delivers U sy (x # map sc_certificate new) sy2"
    using delivers_trans [OF delivers_trans [OF sy sy1(2)] sy2(2)] by simp
  ultimately show ?thesis using new(1) sy1(1) sy2(1) by (auto simp: accept_with_children_def)
qed

lemma get_missing_parents_spec:
  assumes "coherent view (sy_certificate_store sy)" "c_round x \<noteq> 1"
  shows "\<exists>sy1. get_missing_parents ca x sy = (Inr (filter (\<lambda>p. p \<notin> known sy) (c_parents x)), sy1) \<and> delivers U sy [] sy1 \<and>
    sy_certificate_store sy1 = sy_certificate_store sy \<and> sy_state sy1 = sy_state sy \<and> sy_gc_round sy1 = sy_gc_round sy"
proof -
  have "map fst (filter (\<lambda>(_, exists). \<not> exists) (zip ps (cert_multi_contains ca ps (sy_certificate_store sy)))) = filter (\<lambda>p. p \<notin> known sy) ps" for ps
    unfolding multi_contains_through [OF assms(1)] by (induction ps) (auto simp: known_def)
  with assms(2) show ?thesis
    by (auto simp: get_missing_parents_def Let_def sync_config_def intro!: delivers_none)
qed

lemma with_lock_loop_ok:
  assumes U: "headers_ok U" and iter: "\<forall>xs. mset (iter xs) = mset xs" and db: "\<forall>d. db_ok d"
    and "sync_inv view U sy" "\<forall>x \<in> set certs. x \<in> U \<and> verified_state x"
  shows "\<exists>xs res sy'. with_lock_loop ca db_ok iter early certs result sy = Some (res, sy') \<and> delivers U sy xs sy' \<and> sync_inv view U sy'"
  using assms(4,5)
proof (induction certs arbitrary: result sy)
  case Nil
  then show ?case by (auto intro!: exI [of _ "[]"] delivers_none)
next
  case (Cons x certs)
  have x: "x \<in> U" "verified_state x" and rest: "\<forall>x \<in> set certs. x \<in> U \<and> verified_state x" using Cons(3) by auto
  have inv: "sync_store_ok view U sy" "tracked U (sy_gc_round sy) (known sy) (sy_state sy)" "collected (sy_gc_round sy) (sy_state sy)"
    using Cons(2) by (simp_all add: sync_inv_def)
  have g: "u64_add (sy_gc_round sy) 1 = Suc (sy_gc_round sy)" and coh: "coherent view (sy_certificate_store sy)"
    using inv(1) by (simp_all add: sync_store_ok_def u64_add_fits)
  have go: "\<exists>xs res sy'. Option.bind (accept_with_children ca db_ok iter x sy1) (\<lambda>sy2. with_lock_loop ca db_ok iter early certs result sy2) = Some (res, sy') \<and>
      delivers U sy xs sy' \<and> sync_inv view U sy'"
    if sy1: "delivers U sy [] sy1" "sync_inv view U sy1" "Suc (sy_gc_round sy1) < c_round x \<longrightarrow> set (c_parents x) \<subseteq> known sy1" for sy1
  proof -
    from accept_with_children_ok [OF U iter db sy1(2) x sy1(3)] obtain xs sy2 where
      sy2: "accept_with_children ca db_ok iter x sy1 = Some sy2" "delivers U sy1 (x # xs) sy2" "sync_inv view U sy2" by blast
    from Cons(1) [OF sy2(3) rest, of result] obtain ys res sy3 where
      sy3: "with_lock_loop ca db_ok iter early certs result sy2 = Some (res, sy3)" "delivers U sy2 ys sy3" "sync_inv view U sy3" by blast
    from delivers_trans [OF delivers_trans [OF sy1(1) sy2(2)] sy3(2)] sy2 sy3 show ?thesis by auto
  qed
  show ?case
  proof (cases "early \<and> check_suspended (c_digest x) (sy_state sy)")
    case True
    with Cons(1) [OF Cons(2) rest] show ?thesis by simp
  next
    case early: False
    show ?thesis
    proof (cases "Suc (sy_gc_round sy) < c_round x")
      case False
      with go [OF delivers_none Cons(2)] show ?thesis unfolding with_lock_loop.simps if_not_P [OF early] g by simp
    next
      case True
      let ?mp = "filter (\<lambda>p. p \<notin> known sy) (c_parents x)"
      from get_missing_parents_spec [OF coh, of x U] True obtain sy1 where
        sy1: "get_missing_parents ca x sy = (Inr ?mp, sy1)" "delivers U sy [] sy1" "sy_certificate_store sy1 = sy_certificate_store sy"
          "sy_state sy1 = sy_state sy" "sy_gc_round sy1 = sy_gc_round sy" by auto
      have inv1: "sync_inv view U sy1" using sync_inv_cong [OF sy1(3,5,4)] Cons(2) by simp
      show ?thesis
      proof (cases "?mp = []")
        case empty: True
        then have "set (c_parents x) \<subseteq> known sy1" using sy1(3) by (auto simp: known_def filter_empty_conv)
        with go [OF sy1(2) inv1] True empty sy1(1) show ?thesis
          unfolding with_lock_loop.simps if_not_P [OF early] g by simp
      next
        case ne: False
        have allow: "\<not> early \<or> map_of (ss_suspended (sy_state sy)) (c_digest x) = None"
          using early by (auto simp: check_suspended_def)
        from sync_state_insert_consistent [OF U inv(2,3) x True refl ne allow] obtain st where
          st: "sync_state_insert x ?mp (\<not> early) (sy_state sy) = Some st" "tracked U (sy_gc_round sy) (known sy) st"
            "collected (sy_gc_round sy) st" by blast
        let ?sy = "sy1\<lparr>sy_state := st\<rparr>"
        have "sync_inv view U ?sy" using inv(1) st sy1 by (simp add: sync_inv_def sync_store_ok_def known_def)
        from Cons(1) [OF this rest, of "Inl DagSuspended"] obtain ys res sy' where
          ys: "with_lock_loop ca db_ok iter early certs (Inl DagSuspended) ?sy = Some (res, sy')" "delivers U ?sy ys sy'" "sync_inv view U sy'"
          by blast
        have "delivers U sy1 [] ?sy" by (rule delivers_none) (simp_all add: sync_config_def)
        from delivers_trans [OF delivers_trans [OF sy1(2) this] ys(2)]
        have "delivers U sy ys sy'" by simp
        moreover have "with_lock_loop ca db_ok iter early (x # certs) result sy = Some (res, sy')"
          using True sy1(1,4) ne st(1) ys(1) unfolding with_lock_loop.simps if_not_P [OF early] g by simp
        ultimately show ?thesis using ys(3) by blast
      qed
    qed
  qed
qed

lemma certificate_acceptor_ok:
  assumes U: "headers_ok U" and iter: "\<forall>xs. mset (iter xs) = mset xs" and db: "\<forall>d. db_ok d"
    and inv: "sync_inv view U sy" and certs: "\<forall>x \<in> set certs. x \<in> U \<and> verified_state x"
  shows "\<exists>xs res sy'. certificate_acceptor ca db_ok iter certs early sy = Some (res, sy') \<and> delivers U sy xs sy' \<and> sync_inv view U sy'"
proof -
  let ?new = "map fst (filter (\<lambda>(_, exist). \<not> exist) (zip certs (cert_multi_contains ca (map c_digest certs) (sy_certificate_store sy))))"
  have "\<forall>x \<in> set ?new. x \<in> U \<and> verified_state x" using certs by (auto dest: set_zip_leftD)
  from with_lock_loop_ok [OF U iter db inv this, of early "Inr ()"] obtain xs res sy' where
    *: "with_lock_loop ca db_ok iter early ?new (Inr ()) sy = Some (res, sy')" "delivers U sy xs sy'" "sync_inv view U sy'" by blast
  have "panic_unless (list_all verified_state certs) = Some ()" using certs by (simp add: list_all_iff)
  then have run: "certificate_acceptor ca db_ok iter certs early sy =
      (if ?new = [] then Some (Inr (), sy) else with_lock_loop ca db_ok iter early ?new (Inr ()) sy)"
    unfolding certificate_acceptor_def process_certificates_with_lock_def Let_def by simp
  show ?thesis
  proof (cases "?new = []")
    case True
    then have "certificate_acceptor ca db_ok iter certs early sy = Some (Inr (), sy)" using run by simp
    moreover have "delivers U sy [] sy" by (simp add: delivers_none)
    ultimately show ?thesis using inv by blast
  next
    case False
    with run have "certificate_acceptor ca db_ok iter certs early sy = Some (res, sy')" using *(1) by simp
    with * show ?thesis by blast
  qed
qed

end

section \<open>Verification\<close>

lemma member_initialised:
  assumes "nc_wf c" "a \<in> set (authorities c)"
  shows "authority_id a = Some (au_id a)" "authority_stake a = Some (au_stake a)" "authority_protocol_key a = Some (au_protocol_key a)"
  using nc_wf_authorities(2) [OF assms(1)] assms(2)
  by (simp_all add: authority_id_def authority_stake_def authority_protocol_key_def panic_unless_def)

lemma signed_by_loop_total:
  assumes "nc_wf c" "\<forall>(i, a) \<in> set ias. a \<in> set (authorities c)"
  shows "\<exists>r. signed_by_loop ias idx w pks = Some r"
  using assms(2)
proof (induction ias idx w pks rule: signed_by_loop.induct)
  case (3 i a as index idx w pks)
  then show ?case by (simp add: member_initialised [OF assms(1)])
qed simp_all

lemma check_workers_total:
  assumes "nc_wf c" "h_author h \<in> set (ids c)"
  shows "\<exists>r. check_workers c cache h wids = Some r"
proof -
  obtain a where "authority_safe c (h_author h) = Some a" using authority_safe_member [OF assms(1)] assms(2) by blast
  then have a: "nc_authority c (h_author h) = Some a" "a \<in> set (authorities c)"
    using authority_safe_iff [OF assms(1)] by (auto simp: authority_safe_def nc_authority_def)
  then show ?thesis by (induction wids) (simp_all add: member_initialised [OF assms(1)])
qed

lemma cert_verify_total:
  assumes "nc_wf c"
  shows "\<exists>r. cert_verify bls hash c cache x = Some r"
proof -
  have "collect_some (map f xs) \<noteq> None" if "\<forall>x \<in> set xs. f x \<noteq> None" for f :: "authority \<Rightarrow> certificate option" and xs
    using that by (simp add: collect_some_the)
  then have "genesis hash c \<noteq> None" unfolding genesis_def by (simp add: member_initialised [OF assms])
  moreover have "\<exists>r. header_validate hash c cache (c_header x) = Some r"
    using check_workers_total [OF assms] stake_by_id_nonmember [OF assms, of "h_author (c_header x)"]
    by (cases "h_author (c_header x) \<in> set (ids c)") (auto simp: header_validate_def)
  moreover have "\<exists>r. signed_by x c = Some r"
    unfolding signed_by_def by (rule signed_by_loop_total [OF assms]) (auto simp: enumerate_eq_zip dest: set_zip_rightD)
  ultimately show ?thesis by (auto simp: cert_verify_def split: sum.splits)
qed

text \<open>A received certificate that passes is verified, and has the header it came with.\<close>

lemma inner_sanitize_spec:
  assumes "inner_sanitize_certificate bls hash x sy = Some (Inr y)" "c_signature_verification_state x = Unverified b"
  shows "cert_verify bls hash (sy_committee sy) (sy_worker_cache sy) x = Some (Inr y)" "sy_gc_round sy < c_round x"
    "verified_state y" "c_header y = c_header x"
proof -
  show v: "cert_verify bls hash (sy_committee sy) (sy_worker_cache sy) x = Some (Inr y)" and r: "sy_gc_round sy < c_round x"
    using assms(1) by (auto simp: inner_sanitize_certificate_def split: if_splits)
  from v r assms(2) obtain pks where "verify_signature bls x pks = Inr y"
    by (auto simp: cert_verify_def split: if_splits sum.splits)
  with assms(2) show "verified_state y" "c_header y = c_header x"
    by (auto simp: verify_signature_def verified_state_def split: if_splits)
qed

lemma inner_sanitize_total:
  "nc_wf (sy_committee sy) \<Longrightarrow> \<exists>r. inner_sanitize_certificate bls hash x sy = Some r"
  using cert_verify_total [of "sy_committee sy"] by (simp add: inner_sanitize_certificate_def)

text \<open>The set \<open>U\<close> holds every certificate of a header that can be verified, and with a certificate its parents.\<close>

definition certifies :: "narwhal_bls \<Rightarrow> header_hash \<Rightarrow> narwhal_committee \<Rightarrow> worker_cache \<Rightarrow> certificate set \<Rightarrow> bool" where
  "certifies bls hash c cache U \<longleftrightarrow>
     (\<forall>x y z b. c_signature_verification_state x = Unverified b \<longrightarrow> cert_verify bls hash c cache x = Some (Inr y) \<longrightarrow>
        0 < c_round y \<longrightarrow> c_header z = c_header y \<longrightarrow> verified_state z \<longrightarrow> z \<in> U)"

definition ancestors_certified :: "header_hash \<Rightarrow> certificate set \<Rightarrow> bool" where
  "ancestors_certified hash U \<longleftrightarrow>
     (\<forall>x \<in> U. \<forall>y. hash (c_header y) = c_digest y \<longrightarrow> c_digest y \<in> set (c_parents x) \<longrightarrow> 0 < c_round y \<longrightarrow>
        verified_state y \<longrightarrow> y \<in> U)"

text \<open>No header names, through its parents, its own digest.\<close>

definition hash_acyclic :: "header_hash \<Rightarrow> bool" where
  "hash_acyclic hash \<longleftrightarrow> acyclic {(h, h'). hash h = h_digest h \<and> hash h' = h_digest h' \<and> h_digest h \<in> set (h_parents h')}"

section \<open>Fetched certificates\<close>

lemma mark_indirect_spec:
  assumes "mark_indirect ps xs = Inr ys"
  shows "list_all2 (\<lambda>x y. c_header y = c_header x \<and> (if direct_verification ps x then y = x else verified_state y)) xs ys"
  using assms
proof (induction xs arbitrary: ys)
  case (Cons x xs)
  from Cons(2) obtain y zs where y: "(if direct_verification ps x then Inr x
        else and_then (ok_or DagInvalidSignature (aggregated_signature x))
          (\<lambda>sig. Inr (x\<lparr>c_signature_verification_state := VerifiedIndirectly sig\<rparr>))) = Inr y"
    and zs: "mark_indirect ps xs = Inr zs" and ys: "ys = y # zs" by auto
  from y have "c_header y = c_header x \<and> (if direct_verification ps x then y = x else verified_state y)"
    by (auto simp: verified_state_def split: if_splits)
  with Cons(1) [OF zs] show ?case unfolding ys list_all2_Cons by blast
qed simp

lemma direct_verification_header: "c_header y = c_header x \<Longrightarrow> direct_verification ps y = direct_verification ps x"
  by (simp add: direct_verification_def c_digest_def c_round_def)

lemma verify_direct_spec:
  assumes "verify_direct bls hash sy ps xs = Some (Inr ys)"
  shows "list_all2 (\<lambda>x y. if direct_verification ps x then inner_sanitize_certificate bls hash x sy = Some (Inr y) else y = x) xs ys"
  using assms
proof (induction xs arbitrary: ys)
  case (Cons x xs)
  from Cons(2) obtain y zs where "(if direct_verification ps x then inner_sanitize_certificate bls hash x sy else Some (Inr x)) = Some (Inr y)"
    "verify_direct bls hash sy ps xs = Some (Inr zs)" "ys = y # zs"
    by (auto simp del: split_paired_Ex split: sum.splits)
  with Cons(1) show ?case by (auto split: if_splits)
qed simp

lemma verify_direct_total:
  "nc_wf (sy_committee sy) \<Longrightarrow> \<exists>r. verify_direct bls hash sy ps xs = Some r"
proof (induction xs)
  case (Cons x xs)
  then obtain r where "verify_direct bls hash sy ps xs = Some r" by blast
  with inner_sanitize_total [OF Cons(2), of bls hash x] show ?case by (auto split: sum.splits)
qed simp

lemma sanitize_fetched_spec:
  assumes "sanitize_fetched_certificates bls hash xs sy = Some (Inr ys)"
    and unv: "\<forall>x \<in> set xs. \<exists>b. c_signature_verification_state x = Unverified b"
  shows "list_all2 (\<lambda>x y. c_header y = c_header x \<and> verified_state y \<and>
    (direct_verification (concat (map c_parents xs)) x \<longrightarrow>
       cert_verify bls hash (sy_committee sy) (sy_worker_cache sy) x = Some (Inr y) \<and> 0 < c_round y)) xs ys"
proof -
  let ?ps = "concat (map c_parents xs)"
  from assms(1) obtain zs where zs: "mark_indirect ?ps xs = Inr zs" "verify_direct bls hash sy ?ps zs = Some (Inr ys)"
    by (auto simp: sanitize_fetched_certificates_def Let_def split: sum.splits)
  note m = mark_indirect_spec [OF zs(1)] and v = verify_direct_spec [OF zs(2)]
  show ?thesis unfolding list_all2_conv_all_nth
  proof (intro conjI allI impI)
    show len: "length xs = length ys" using m v by (auto dest!: list_all2_lengthD)
    fix i assume i: "i < length xs"
    let ?x = "xs ! i" and ?z = "zs ! i" and ?y = "ys ! i"
    have mi: "c_header ?z = c_header ?x \<and> (if direct_verification ?ps ?x then ?z = ?x else verified_state ?z)"
      using list_all2_nthD [OF m i] .
    have vi: "if direct_verification ?ps ?z then inner_sanitize_certificate bls hash ?z sy = Some (Inr ?y) else ?y = ?z"
      using list_all2_nthD [OF v, of i] i list_all2_lengthD [OF m] by simp
    obtain b where b: "c_signature_verification_state ?x = Unverified b" using unv i nth_mem by blast
    have "c_header ?y = c_header ?x \<and> verified_state ?y \<and> (direct_verification ?ps ?x \<longrightarrow>
        cert_verify bls hash (sy_committee sy) (sy_worker_cache sy) ?x = Some (Inr ?y) \<and> sy_gc_round sy < c_round ?x)"
    proof (cases "direct_verification ?ps ?x")
      case True
      with mi vi have "inner_sanitize_certificate bls hash ?x sy = Some (Inr ?y)" by simp
      from inner_sanitize_spec [OF this b] show ?thesis by simp
    next
      case False
      with mi vi show ?thesis by (auto simp: direct_verification_header [of ?z ?x])
    qed
    then show "c_header ?y = c_header ?x" "verified_state ?y"
      "direct_verification ?ps ?x \<Longrightarrow> cert_verify bls hash (sy_committee sy) (sy_worker_cache sy) ?x = Some (Inr ?y)"
      "direct_verification ?ps ?x \<Longrightarrow> 0 < c_round ?y"
      by (auto simp: c_round_def)
  qed
qed

text \<open>Every certificate of an accepted batch is an ancestor of one that was verified by its signature.\<close>

lemma fetched_chain:
  assumes acyclic: "hash_acyclic hash" and digests: "\<forall>x \<in> set xs. hash (c_header x) = c_digest x"
    and direct: "\<forall>x \<in> set xs. direct_verification (concat (map c_parents xs)) x \<longrightarrow> P x"
    and down: "\<forall>x \<in> set xs. \<forall>y \<in> set xs. P x \<longrightarrow> c_digest y \<in> set (c_parents x) \<longrightarrow> \<not> direct_verification (concat (map c_parents xs)) y \<longrightarrow> P y"
  shows "\<forall>x \<in> set xs. P x"
proof
  let ?H = "c_header ` set xs"
  let ?R = "{(h, h'). hash h = h_digest h \<and> hash h' = h_digest h' \<and> h_digest h \<in> set (h_parents h')} \<inter> ?H \<times> ?H"
  have "acyclic ?R" using acyclic unfolding hash_acyclic_def by (rule acyclic_subset) blast
  moreover have "finite ?R" by (rule finite_subset [of _ "?H \<times> ?H"]) auto
  ultimately have wf: "wf (?R\<inverse>)" by (rule finite_acyclic_wf_converse [rotated])
  fix x assume "x \<in> set xs"
  with wf show "P x"
  proof (induction "c_header x" arbitrary: x rule: wf_induct_rule)
    case less
    show ?case
    proof (cases "direct_verification (concat (map c_parents xs)) x")
      case True
      with direct less(2) show ?thesis by blast
    next
      case False
      then obtain y where y: "y \<in> set xs" "c_digest x \<in> set (c_parents y)" by (auto simp: direct_verification_def)
      have "(c_header y, c_header x) \<in> ?R\<inverse>"
        using y less(2) digests by (auto simp: c_digest_def c_parents_def)
      from less(1) [OF this y(1)] down y less(2) False show ?thesis by blast
    qed
  qed
qed

lemma sanitize_fetched_certified:
  assumes s: "sanitize_fetched_certificates bls hash xs sy = Some (Inr ys)"
    and unv: "\<forall>x \<in> set xs. \<exists>b. c_signature_verification_state x = Unverified b"
    and digests: "\<forall>x \<in> set xs. hash (c_header x) = c_digest x" and acyclic: "hash_acyclic hash"
    and U: "certifies bls hash (sy_committee sy) (sy_worker_cache sy) U" "ancestors_certified hash U"
  shows "\<forall>y \<in> set ys. y \<in> U \<and> verified_state y"
proof -
  let ?ps = "concat (map c_parents xs)"
  note spec = sanitize_fetched_spec [OF s unv]
  let ?P = "\<lambda>x. \<forall>z. c_header z = c_header x \<longrightarrow> verified_state z \<longrightarrow> z \<in> U"
  have image: "\<exists>y \<in> set ys. c_header y = c_header x \<and> verified_state y \<and> (direct_verification ?ps x \<longrightarrow>
      cert_verify bls hash (sy_committee sy) (sy_worker_cache sy) x = Some (Inr y) \<and> 0 < c_round y)" if "x \<in> set xs" for x
  proof -
    from that obtain i where i: "i < length xs" "x = xs ! i" by (auto simp: in_set_conv_nth)
    with list_all2_nthD [OF spec i(1)] list_all2_lengthD [OF spec] show ?thesis by (intro bexI [of _ "ys ! i"]) auto
  qed
  have P: "\<forall>x \<in> set xs. ?P x"
  proof (rule fetched_chain [OF acyclic digests])
    show "\<forall>x \<in> set xs. direct_verification ?ps x \<longrightarrow> ?P x"
    proof (intro ballI impI allI)
      fix x z assume x: "x \<in> set xs" "direct_verification ?ps x" and z: "c_header z = c_header x" "verified_state z"
      from image [OF x(1)] x(2) obtain y where "cert_verify bls hash (sy_committee sy) (sy_worker_cache sy) x = Some (Inr y)"
        "0 < c_round y" "c_header y = c_header x" by blast
      with U(1) z unv x(1) show "z \<in> U" unfolding certifies_def by fastforce
    qed
    show "\<forall>x \<in> set xs. \<forall>y \<in> set xs. ?P x \<longrightarrow> c_digest y \<in> set (c_parents x) \<longrightarrow> \<not> direct_verification ?ps y \<longrightarrow> ?P y"
    proof (intro ballI impI allI)
      fix x y z assume x: "x \<in> set xs" "?P x" and y: "y \<in> set xs" "c_digest y \<in> set (c_parents x)" "\<not> direct_verification ?ps y"
        and z: "c_header z = c_header y" "verified_state z"
      from image [OF x(1)] x(2) obtain u where u: "u \<in> U" "c_header u = c_header x" by blast
      have "0 < c_round y" using y(3) by (cases "c_round y") (auto simp: direct_verification_def)
      with y digests z have "hash (c_header z) = c_digest z" "c_digest z \<in> set (c_parents u)" "0 < c_round z"
        using u(2) by (auto simp: c_digest_def c_round_def c_parents_def)
      with U(2) u(1) z(2) show "z \<in> U" by (auto simp: ancestors_certified_def)
    qed
  qed
  show ?thesis
  proof
    fix y assume "y \<in> set ys"
    then obtain i where i: "i < length ys" "y = ys ! i" by (auto simp: in_set_conv_nth)
    then have "i < length xs" using list_all2_lengthD [OF spec] by simp
    with list_all2_nthD [OF spec this] i P show "y \<in> U \<and> verified_state y" by auto
  qed
qed

section \<open>Handlers\<close>

text \<open>What the handlers rely on: a well-formed committee, digests that identify headers and are free of
  cycles, and a set of certificates that holds every certificate that can be verified.\<close>

definition sync_world :: "narwhal_bls \<Rightarrow> header_hash \<Rightarrow> certificate set \<Rightarrow> 't synchronizer \<Rightarrow> bool" where
  "sync_world bls hash U sy \<longleftrightarrow> headers_ok U \<and> hash_acyclic hash \<and> nc_wf (sy_committee sy) \<and>
     certifies bls hash (sy_committee sy) (sy_worker_cache sy) U \<and> ancestors_certified hash U"

lemma sync_world_config: "sync_config sy' = sync_config sy \<Longrightarrow> sync_world bls hash U sy' = sync_world bls hash U sy"
  by (simp add: sync_world_def sync_config_def)

lemma sync_config_simps [simp]:
  "sync_config (sy\<lparr>sy_state := st\<rparr>) = sync_config sy"
  "sync_config (sy\<lparr>sy_gc_round := g\<rparr>) = sync_config sy"
  "sync_config (sy\<lparr>sy_aggregators := ag\<rparr>) = sync_config sy"
  "sync_config (sy\<lparr>sy_highest_received_round := r\<rparr>) = sync_config sy"
  "sync_config (sy\<lparr>sy_tx_parents := ps\<rparr>) = sync_config sy"
  "sync_config (sy\<lparr>sy_tx_batch_tasks := bt\<rparr>) = sync_config sy"
  "sync_config (sy\<lparr>sy_tx_certificate_fetcher := cf\<rparr>) = sync_config sy"
  "sync_config (sy\<lparr>sy_tx_own_certificate_broadcast := oc\<rparr>) = sync_config sy"
  by (simp_all add: sync_config_def)

lemma sync_inv_simps [simp]:
  "sync_inv view U (sy\<lparr>sy_highest_received_round := r\<rparr>) = sync_inv view U sy"
  "sync_inv view U (sy\<lparr>sy_tx_parents := ps\<rparr>) = sync_inv view U sy"
  "sync_inv view U (sy\<lparr>sy_tx_batch_tasks := bt\<rparr>) = sync_inv view U sy"
  "sync_inv view U (sy\<lparr>sy_tx_certificate_fetcher := cf\<rparr>) = sync_inv view U sy"
  "sync_inv view U (sy\<lparr>sy_tx_own_certificate_broadcast := oc\<rparr>) = sync_inv view U sy"
  by (simp_all add: sync_inv_def sync_store_ok_def known_def)

lemma fetched_loop_frame:
  assumes "fetched_loop h xs sy = (r, sy')"
  shows "delivers U sy [] sy' \<and> sync_inv view U sy' = sync_inv view U sy"
  using assms
proof (induction xs arbitrary: sy)
  case Nil
  then show ?case by (simp add: delivers_none)
next
  case (Cons x xs)
  let ?sy = "sy\<lparr>sy_tx_batch_tasks := sy_tx_batch_tasks sy @ [(c_header x, sy_gc_depth sy - 1)]\<rparr>"
  have step: "delivers U sy [] ?sy" "sync_inv view U ?sy = sync_inv view U sy"
    by (simp_all add: delivers_none)
  show ?case
  proof (cases "u64_add h new_certificate_round_limit < c_round x")
    case True
    with Cons(2) show ?thesis by (auto simp: Let_def delivers_none)
  next
    case False
    with Cons(2) have "fetched_loop h xs ?sy = (r, sy')" by (simp add: Let_def)
    from Cons(1) [OF this] delivers_trans [OF step(1), of "[]"] step(2) show ?thesis by simp
  qed
qed

context cache_contract
begin

lemma try_accept_certificate_ok:
  assumes world: "sync_world bls hash U sy" and iter: "\<forall>xs. mset (iter xs) = mset xs" and db: "\<forall>d. db_ok d"
    and inv: "sync_inv view U sy" and x: "c_signature_verification_state x = Unverified b"
  shows "\<exists>xs res sy'. try_accept_certificate ca bls hash db_ok iter x sy = Some (res, sy') \<and> delivers U sy xs sy' \<and> sync_inv view U sy'"
proof -
  have U: "headers_ok U" "nc_wf (sy_committee sy)" "certifies bls hash (sy_committee sy) (sy_worker_cache sy) U"
    using world by (simp_all add: sync_world_def)
  have none: "delivers U sy [] sy" by (simp add: delivers_none)
  obtain r where r: "inner_sanitize_certificate bls hash x sy = Some r" using inner_sanitize_total [OF U(2)] by blast
  show ?thesis
  proof (cases "cert_contains ca (c_digest x) (sy_certificate_store sy) \<or> check_suspended (c_digest x) (sy_state sy)")
    case True
    then have "\<exists>res. try_accept_certificate ca bls hash db_ok iter x sy = Some (res, sy)"
      by (auto simp: try_accept_certificate_def sync_process_certificate_internal_def)
    with none inv show ?thesis by blast
  next
    case new: False
    show ?thesis
    proof (cases r)
      case (Inl e)
      with new r have "try_accept_certificate ca bls hash db_ok iter x sy = Some (Inl e, sy)"
        by (simp add: try_accept_certificate_def sync_process_certificate_internal_def)
      with none inv show ?thesis by blast
    next
      case (Inr y)
      note s = inner_sanitize_spec [OF r [unfolded Inr] x]
      have "0 < c_round y" using s(2,4) by (simp add: c_round_def)
      with s x U(3) have y: "y \<in> U" "verified_state y" unfolding certifies_def by blast+
      let ?sy = "sy\<lparr>sy_highest_received_round := max (sy_highest_received_round sy) (c_round y),
                     sy_tx_parents := sy_tx_parents sy @ [([], c_round y - 1)],
                     sy_tx_batch_tasks := sy_tx_batch_tasks sy @ [(c_header y, sy_gc_depth sy - 1)]\<rparr>"
      have sy: "delivers U sy [] ?sy" "sync_inv view U ?sy" using inv by (simp_all add: delivers_none)
      from certificate_acceptor_ok [OF U(1) iter db sy(2), of "[y]" True] y obtain xs res sy' where
        a: "certificate_acceptor ca db_ok iter [y] True ?sy = Some (res, sy')" "delivers U ?sy xs sy'" "sync_inv view U sy'" by auto
      have d: "delivers U sy xs sy'" using delivers_trans [OF sy(1) a(2)] by simp
      show ?thesis
      proof (cases "u64_add (sy_highest_processed_round sy) new_certificate_round_limit < c_round y")
        case True
        let ?sy2 = "?sy\<lparr>sy_tx_certificate_fetcher := sy_tx_certificate_fetcher sy @ [Ancestors y]\<rparr>"
        have "try_accept_certificate ca bls hash db_ok iter x sy =
            Some (Inl (TooNew (c_digest y) (c_round y) (sy_highest_processed_round sy)), ?sy2)"
          using new r Inr True by (simp add: try_accept_certificate_def sync_process_certificate_internal_def Let_def)
        moreover have "delivers U sy [] ?sy2" "sync_inv view U ?sy2" using inv by (simp_all add: delivers_none)
        ultimately show ?thesis by blast
      next
        case False
        then have "try_accept_certificate ca bls hash db_ok iter x sy = Some (res, sy')"
          using new r Inr a(1) by (simp add: try_accept_certificate_def sync_process_certificate_internal_def Let_def)
        with d a(3) show ?thesis by blast
      qed
    qed
  qed
qed

lemma try_accept_fetched_certificates_ok:
  assumes world: "sync_world bls hash U sy" and iter: "\<forall>xs. mset (iter xs) = mset xs" and db: "\<forall>d. db_ok d"
    and inv: "sync_inv view U sy" and certs: "\<forall>x \<in> set certs. \<exists>b. c_signature_verification_state x = Unverified b"
    "\<forall>x \<in> set certs. hash (c_header x) = c_digest x"
  shows "\<exists>xs res sy'. try_accept_fetched_certificates ca bls hash db_ok iter certs sy = Some (res, sy') \<and> delivers U sy xs sy' \<and> sync_inv view U sy'"
proof -
  have U: "headers_ok U" "nc_wf (sy_committee sy)" "certifies bls hash (sy_committee sy) (sy_worker_cache sy) U"
    "ancestors_certified hash U" "hash_acyclic hash" using world by (simp_all add: sync_world_def)
  have none: "delivers U sy [] sy" by (simp add: delivers_none)
  obtain r where r: "sanitize_fetched_certificates bls hash certs sy = Some r"
    using verify_direct_total [OF U(2)] by (fastforce simp: sanitize_fetched_certificates_def Let_def split: sum.splits)
  show ?thesis
  proof (cases "certs = [] \<or> (\<exists>e. r = Inl e)")
    case True
    then have "\<exists>res. try_accept_fetched_certificates ca bls hash db_ok iter certs sy = Some (res, sy)"
      using r by (auto simp: try_accept_fetched_certificates_def)
    with none inv show ?thesis by blast
  next
    case False
    then obtain ys where ne: "certs \<noteq> []" and ys: "r = Inr ys" by (cases r) auto
    have y: "\<forall>y \<in> set ys. y \<in> U \<and> verified_state y"
      by (rule sanitize_fetched_certified [OF r [unfolded ys] certs U(5,3,4)])
    let ?rec = "max (sy_highest_received_round sy) (fold (\<lambda>x. max (c_round x)) ys 0)"
    let ?sy = "sy\<lparr>sy_highest_received_round := ?rec, sy_tx_parents := sy_tx_parents sy @ [([], ?rec - 1)]\<rparr>"
    have sy: "delivers U sy [] ?sy" "sync_inv view U ?sy" using inv by (simp_all add: delivers_none)
    obtain q sy2 where q: "fetched_loop (sy_highest_processed_round sy) ys ?sy = (q, sy2)" by fastforce
    from fetched_loop_frame [OF q] sy have sy2: "delivers U ?sy [] sy2" "sync_inv view U sy2" by blast+
    have d2: "delivers U sy [] sy2" using delivers_trans [OF sy(1) sy2(1)] by simp
    show ?thesis
    proof (cases q)
      case (Inl e)
      then have "try_accept_fetched_certificates ca bls hash db_ok iter certs sy = Some (Inl e, sy2)"
        using ne r ys q by (simp add: try_accept_fetched_certificates_def Let_def)
      with d2 sy2(2) show ?thesis by blast
    next
      case (Inr u)
      from certificate_acceptor_ok [OF U(1) iter db sy2(2) y, of False] obtain xs res sy' where
        a: "certificate_acceptor ca db_ok iter ys False sy2 = Some (res, sy')" "delivers U sy2 xs sy'" "sync_inv view U sy'" by blast
      have "try_accept_fetched_certificates ca bls hash db_ok iter certs sy = Some (res, sy')"
        using ne r ys q Inr a(1) by (simp add: try_accept_fetched_certificates_def Let_def)
      with delivers_trans [OF d2 a(2)] a(3) show ?thesis by auto
    qed
  qed
qed

section \<open>Garbage collection\<close>

lemma gc_loop_ok:
  assumes U: "headers_ok U" and iter: "\<forall>xs. mset (iter xs) = mset xs" and db: "\<forall>d. db_ok d"
    and "sync_store_ok view U sy" "tracked U (sy_gc_round sy) (known sy) (sy_state sy)"
  shows "\<exists>xs sy'. gc_loop ca db_ok iter (sy_gc_round sy) sy = Some sy' \<and> delivers U sy xs sy' \<and> sync_inv view U sy'"
  using assms(4,5)
proof (induction "length (ss_missing (sy_state sy))" arbitrary: sy rule: less_induct)
  case less
  let ?g = "sy_gc_round sy" and ?st = "sy_state sy"
  from run_gc_once_spec [OF U less(3)] show ?case
  proof (elim disjE exE conjE)
    assume none: "run_gc_once ?g ?st = None" "collected ?g ?st"
    then have "gc_loop ca db_ok iter ?g sy = Some sy" by (simp add: gc_loop.simps)
    moreover have "delivers U sy [] sy" "sync_inv view U sy" using less(2,3) none(2) by (simp_all add: delivers_none sync_inv_def)
    ultimately show ?thesis by blast
  next
    fix r d assume some: "run_gc_once ?g ?st = Some (((r, d), None), ?st)" "r \<le> ?g" "map_of (ss_suspended ?st) d = None"
      "map_of (ss_missing ?st) (r, d) \<noteq> None"
    have t: "tracks U ?g (known sy) {(r, d)} (map_of (ss_suspended ?st)) (map_of (ss_missing ?st))"
      using trackedD(1) [OF less(3)] by (rule tracks_mono) simp
    have ne: "\<forall>k. map_of (ss_missing ?st) k \<noteq> Some []" using trackedD(3) [OF less(3)] by blast
    have key: "d \<in> known sy \<or> r \<le> ?g" using some(2) by simp
    from accept_children_tracked [OF U iter trackedD(2) [OF less(3)] ne t key some(3)]
    obtain new st where new: "accept_children iter r d ?st = Some (new, st)" "releasable U ?g (known sy) new"
      "tracked U ?g (known sy \<union> released new) st" by blast
    let ?sy = "sy\<lparr>sy_state := st\<rparr>"
    have sy: "delivers U sy [] ?sy" "sync_store_ok view U ?sy" using less(2) by (simp_all add: delivers_none sync_store_ok_def)
    from accept_suspended_certificates_ok [OF sy(2) _ db, of new] new(2) obtain sy1 where
      sy1: "accept_suspended_certificates ca db_ok new ?sy = Some sy1" "delivers U ?sy (map sc_certificate new) sy1"
        "sync_store_ok view U sy1" "sy_state sy1 = st" by (auto simp: known_def)
    have k1: "sy_gc_round sy1 = ?g" "known sy1 = known sy \<union> released new"
      using sy1(2) by (auto simp: delivers_def known_def image_image)
    have "length (ss_missing (sy_state sy1)) < length (ss_missing ?st)"
      using accept_children_shrinks [OF new(1) some(4)] sy1(4) by simp
    from less(1) [OF this sy1(3)] new(3) k1 sy1(4) obtain ys sy2 where
      sy2: "gc_loop ca db_ok iter ?g sy1 = Some sy2" "delivers U sy1 ys sy2" "sync_inv view U sy2" by auto
    have "gc_loop ca db_ok iter ?g sy = Some sy2"
      using some(1,2) new(1) sy1(1) sy2(1) by (subst gc_loop.simps) simp
    with delivers_trans [OF delivers_trans [OF sy(1) sy1(2)] sy2(2)] sy2(3) show ?thesis by blast
  qed
qed

lemma gc_iteration_ok:
  assumes U: "headers_ok U" and iter: "\<forall>xs. mset (iter xs) = mset xs" and db: "\<forall>d. db_ok d"
    and inv: "sync_inv view U sy" and g: "sy_gc_round sy \<le> g" "Suc g < 2 ^ 64"
  shows "\<exists>xs sy'. gc_iteration ca db_ok iter g sy = Some sy' \<and> delivers U (gc_store g sy) xs sy' \<and> sync_inv view U sy'"
proof -
  let ?sy = "gc_store g sy"
  have "sync_store_ok view U ?sy" "tracked U (sy_gc_round ?sy) (known ?sy) (sy_state ?sy)" "sy_gc_round ?sy = g"
    using inv g tracked_gc_mono [of U "sy_gc_round sy" "known sy" "sy_state sy" g]
    by (simp_all add: sync_inv_def sync_store_ok_def gc_store_def known_def)
  with gc_loop_ok [OF U iter db this(1,2)] show ?thesis by (simp add: gc_iteration_def)
qed

end

section \<open>Own certificates, and the start\<close>

context cache_contract
begin

lemma process_unsanitized_ok:
  assumes U: "headers_ok U" and iter: "\<forall>xs. mset (iter xs) = mset xs" and db: "\<forall>d. db_ok d"
    and inv: "sync_inv view U sy" and x: "x \<in> U" "verified_state x"
  shows "\<exists>xs res sy'. sync_process_certificate_internal ca bls hash db_ok iter x False False sy = Some (res, sy') \<and>
    delivers U sy xs sy' \<and> sync_inv view U sy'"
proof -
  let ?sy = "sy\<lparr>sy_highest_received_round := max (sy_highest_received_round sy) (c_round x),
                 sy_tx_parents := sy_tx_parents sy @ [([], c_round x - 1)],
                 sy_tx_batch_tasks := sy_tx_batch_tasks sy @ [(c_header x, sy_gc_depth sy - 1)]\<rparr>"
  let ?sy2 = "?sy\<lparr>sy_tx_certificate_fetcher := sy_tx_certificate_fetcher sy @ [Ancestors x]\<rparr>"
  have none: "delivers U sy [] sy" "delivers U sy [] ?sy" "delivers U sy [] ?sy2" by (simp_all add: delivers_none)
  have inv': "sync_inv view U ?sy" "sync_inv view U ?sy2" using inv by simp_all
  from certificate_acceptor_ok [OF U iter db inv'(1), of "[x]" False] x obtain xs res sy' where
    a: "certificate_acceptor ca db_ok iter [x] False ?sy = Some (res, sy')" "delivers U ?sy xs sy'" "sync_inv view U sy'" by auto
  have d: "delivers U sy xs sy'" using delivers_trans [OF none(2) a(2)] by simp
  have "sync_process_certificate_internal ca bls hash db_ok iter x False False sy =
      (if cert_contains ca (c_digest x) (sy_certificate_store sy) then Some (Inr (), sy)
       else if u64_add (sy_highest_processed_round sy) new_certificate_round_limit < c_round x
       then Some (Inl (TooNew (c_digest x) (c_round x) (sy_highest_processed_round sy)), ?sy2)
       else Some (res, sy'))"
    using a(1) by (simp add: sync_process_certificate_internal_def Let_def)
  then consider "sync_process_certificate_internal ca bls hash db_ok iter x False False sy = Some (Inr (), sy)"
    | e where "sync_process_certificate_internal ca bls hash db_ok iter x False False sy = Some (Inl e, ?sy2)"
    | "sync_process_certificate_internal ca bls hash db_ok iter x False False sy = Some (res, sy')"
    by (metis (full_types))
  then show ?thesis using none d inv inv' a(3) by cases blast+
qed

lemma accept_own_certificate_ok:
  assumes U: "headers_ok U" and iter: "\<forall>xs. mset (iter xs) = mset xs" and db: "\<forall>d. db_ok d"
    and inv: "sync_inv view U sy" and x: "x \<in> U" "verified_state x"
    and own: "accept_own_certificate ca bls hash db_ok iter x sy = Some sy'"
  shows "\<exists>xs. delivers U sy xs sy' \<and> sync_inv view U sy'"
proof -
  from process_unsanitized_ok [OF U iter db inv x, of bls hash] obtain xs res sy1 where
    p: "sync_process_certificate_internal ca bls hash db_ok iter x False False sy = Some (res, sy1)"
      "delivers U sy xs sy1" "sync_inv view U sy1" by blast
  with own have sy': "sy' = sy1\<lparr>sy_tx_own_certificate_broadcast := sy_tx_own_certificate_broadcast sy1 @ [x]\<rparr>"
    by (auto simp: accept_own_certificate_def)
  have "delivers U sy1 [] sy'" unfolding sy' by (simp add: delivers_none)
  from delivers_trans [OF p(2) this] p(3) show ?thesis by (auto simp: sy')
qed

text \<open>An own certificate whose parents are stored is accepted.\<close>

lemma accept_own_certificate_total:
  assumes U: "headers_ok U" and iter: "\<forall>xs. mset (iter xs) = mset xs" and db: "\<forall>d. db_ok d"
    and inv: "sync_inv view U sy" and x: "x \<in> U" "verified_state x"
    and parents: "Suc (sy_gc_round sy) < c_round x \<longrightarrow> set (c_parents x) \<subseteq> known sy"
    and new: "c_round x \<le> sy_highest_processed_round sy + 1000" "sy_highest_processed_round sy + 1000 < 2 ^ 64"
  shows "\<exists>sy'. accept_own_certificate ca bls hash db_ok iter x sy = Some sy'"
proof -
  let ?sy = "sy\<lparr>sy_highest_received_round := max (sy_highest_received_round sy) (c_round x),
                 sy_tx_parents := sy_tx_parents sy @ [([], c_round x - 1)],
                 sy_tx_batch_tasks := sy_tx_batch_tasks sy @ [(c_header x, sy_gc_depth sy - 1)]\<rparr>"
  have coh: "coherent view (sy_certificate_store sy)" and g: "u64_add (sy_gc_round sy) 1 = Suc (sy_gc_round sy)"
    using inv by (simp_all add: sync_inv_def sync_store_ok_def u64_add_fits)
  have "u64_add (sy_highest_processed_round sy) 1000 = sy_highest_processed_round sy + 1000"
    using new(2) by (rule u64_add_fits)
  then have fits: "\<not> u64_add (sy_highest_processed_round sy) new_certificate_round_limit < c_round x" using new(1) by simp
  have par: "Suc (sy_gc_round s) < c_round x \<longrightarrow> set (c_parents x) \<subseteq> known s" "sync_inv view U s"
    if "sy_gc_round s = sy_gc_round sy" "sy_certificate_store s = sy_certificate_store sy" "sy_state s = sy_state sy" for s
    using parents that inv sync_inv_cong [of s sy] by (simp_all add: known_def)
  have run: "\<exists>sy2. with_lock_loop ca db_ok iter False [x] (Inr ()) s = Some (Inr (), sy2)"
    if s: "sy_gc_round s = sy_gc_round sy" "sy_certificate_store s = sy_certificate_store sy" "sy_state s = sy_state sy" for s
  proof (cases "Suc (sy_gc_round sy) < c_round x")
    case False
    with accept_with_children_ok [OF U iter db par(2) [OF s] x par(1) [OF s]] show ?thesis
      by (auto simp: s(1) g simp del: One_nat_def)
  next
    case True
    from get_missing_parents_spec [of s x U] coh s True obtain s1 where
      s1: "get_missing_parents ca x s = (Inr (filter (\<lambda>p. p \<notin> known s) (c_parents x)), s1)"
        "sy_certificate_store s1 = sy_certificate_store sy" "sy_state s1 = sy_state sy" "sy_gc_round s1 = sy_gc_round sy" by auto
    have "filter (\<lambda>p. p \<notin> known s) (c_parents x) = []" using par(1) [OF s] True s(1) by (auto simp: filter_empty_conv)
    with accept_with_children_ok [OF U iter db par(2) [OF s1(4,2,3)] x par(1) [OF s1(4,2,3)]] s1(1) True show ?thesis
      by (auto simp: s(1) g simp del: One_nat_def)
  qed
  have "\<exists>sy2. certificate_acceptor ca db_ok iter [x] False ?sy = Some (Inr (), sy2)"
    using run [of ?sy] x(2) by (simp add: multi_contains_through [OF coh] certificate_acceptor_def process_certificates_with_lock_def Let_def del: with_lock_loop.simps)
  then obtain sy2 where "certificate_acceptor ca db_ok iter [x] False ?sy = Some (Inr (), sy2)" by blast
  with fits show ?thesis
    by (simp add: accept_own_certificate_def sync_process_certificate_internal_def Let_def)
qed

lemma synchronizer_new_ok:
  assumes new: "synchronizer_new ca hash i c cache depth g store = Some sy"
    and store: "coherent view store" "store_holds U store" "history_closed U g (dom (map_of (certificates_by_id store)))"
    and g: "Suc g < 2 ^ 64"
  shows "sync_inv view U sy \<and> sy_gc_round sy = g \<and> known sy = dom (map_of (certificates_by_id store)) \<and> sy_tx_new_certificates sy = []"
proof -
  let ?s = "snd (store_last_round ca i store)"
  have s: "certificates_by_id ?s = certificates_by_id store" "coherent view ?s"
    using read_through [OF store(1)] store(1)
    by (auto simp: store_last_round_def cert_read_def coherent_def view_read split: list.splits prod.splits option.splits)
  have frame: "sy_certificate_store (fold append_certificate_in_aggregator xs s) = sy_certificate_store s \<and>
      sy_gc_round (fold append_certificate_in_aggregator xs s) = sy_gc_round s \<and>
      sy_state (fold append_certificate_in_aggregator xs s) = sy_state s \<and>
      sy_tx_new_certificates (fold append_certificate_in_aggregator xs s) = sy_tx_new_certificates s" for xs and s :: "'a synchronizer"
    by (induction xs arbitrary: s) (simp_all add: append_aggregator_frame)
  from new have sy: "sy_certificate_store sy = ?s" "sy_gc_round sy = g" "sy_state sy = sync_state_default" "sy_tx_new_certificates sy = []"
    by (auto simp: synchronizer_new_def frame split: prod.splits sum.splits)
  have "tracked U g (known sy) sync_state_default"
    using store(3) s(1) sy(1) by (simp add: tracked_def tracks_def sync_state_default_def known_def)
  with store(2) s sy g show ?thesis
    by (simp add: sync_inv_def sync_store_ok_def known_def store_holds_def collected_def sync_state_default_def)
qed

end

end
