(* ===== verification/Synchronizer_Properties.thy ===== *)
theory Synchronizer_Properties
  imports Synchronizer_Laws
begin

text \<open>
  Runs of the synchronizer: the step relation with one rule per handler, the window between the two halves
  of garbage collection, an example, and the properties.
\<close>

section \<open>Runs of the synchronizer\<close>

text \<open>One rule per handler: a certificate received from a peer, a batch fetched from a peer (digests are
  computed when a certificate is read from the wire), an own certificate, garbage collection after a
  commit, and the timeout of the garbage collection task.\<close>

inductive sync_step ::
  "'t cache \<Rightarrow> narwhal_bls \<Rightarrow> header_hash \<Rightarrow> (certificate_digest \<Rightarrow> bool) \<Rightarrow> (certificate_digest list \<Rightarrow> certificate_digest list) \<Rightarrow>
   certificate set \<Rightarrow> 't synchronizer \<Rightarrow> 't synchronizer \<Rightarrow> bool"
  for ca bls hash db_ok iter U where
  receive: "validate_received_certificate_version x = Some y \<Longrightarrow>
     try_accept_certificate ca bls hash db_ok iter y sy = Some (res, sy') \<Longrightarrow> sync_step ca bls hash db_ok iter U sy sy'"
| fetch: "map validate_received_certificate_version xs = map Some ys \<Longrightarrow> \<forall>y \<in> set ys. hash (c_header y) = c_digest y \<Longrightarrow>
     try_accept_fetched_certificates ca bls hash db_ok iter ys sy = Some (res, sy') \<Longrightarrow> sync_step ca bls hash db_ok iter U sy sy'"
| own: "x \<in> U \<Longrightarrow> verified_state x \<Longrightarrow> accept_own_certificate ca bls hash db_ok iter x sy = Some sy' \<Longrightarrow>
     sync_step ca bls hash db_ok iter U sy sy'"
| collect: "sy_gc_round sy \<le> g \<Longrightarrow> Suc g < 2 ^ 64 \<Longrightarrow> gc_iteration ca db_ok iter g sy = Some sy' \<Longrightarrow>
     sync_step ca bls hash db_ok iter U sy sy'"
| timeout: "sync_step ca bls hash db_ok iter U sy (gc_timeout sy)"

text \<open>What a run sent to consensus, as seen from its end.\<close>

definition sent :: "certificate set \<Rightarrow> 't synchronizer \<Rightarrow> certificate list \<Rightarrow> 't synchronizer \<Rightarrow> bool" where
  "sent U sy xs sy' \<longleftrightarrow> sy_tx_new_certificates sy' = sy_tx_new_certificates sy @ xs \<and> set xs \<subseteq> U \<and>
     ordered (sy_gc_round sy') (known sy) xs \<and> known sy' = known sy \<union> c_digest ` set xs \<and>
     sy_gc_round sy \<le> sy_gc_round sy' \<and> sync_config sy' = sync_config sy"

lemma ordered_gc_mono: "ordered g V xs \<Longrightarrow> g \<le> g' \<Longrightarrow> ordered g' V xs"
  by (induction xs arbitrary: V) auto

lemma sent_refl: "sent U sy [] sy"
  by (simp add: sent_def)

lemma sent_trans:
  assumes "sent U sy xs sy1" "sent U sy1 ys sy2"
  shows "sent U sy (xs @ ys) sy2"
  using assms ordered_gc_mono by (fastforce simp: sent_def ordered_append)

lemma delivers_sent: "delivers U sy xs sy' \<Longrightarrow> sent U sy xs sy'"
  by (simp add: delivers_def sent_def)

lemma validated_unverified:
  "validate_received_certificate_version x = Some y \<Longrightarrow> \<exists>b. c_signature_verification_state y = Unverified b"
  by (auto simp: validate_received_certificate_version_def)

lemma validated_list_unverified:
  "map validate_received_certificate_version xs = map Some ys \<Longrightarrow> \<forall>y \<in> set ys. \<exists>b. c_signature_verification_state y = Unverified b"
proof (induction ys arbitrary: xs)
  case (Cons y ys)
  then show ?case using validated_unverified by (cases xs) auto
qed simp

context cache_contract
begin

lemma sync_step_sent:
  assumes step: "sync_step ca bls hash db_ok iter U sy sy'" and world: "sync_world bls hash U sy"
    and iter: "\<forall>xs. mset (iter xs) = mset xs" and db: "\<forall>d. db_ok d" and inv: "sync_inv view U sy"
  shows "\<exists>xs. sent U sy xs sy' \<and> sync_inv view U sy'"
proof -
  have U: "headers_ok U" using world by (simp add: sync_world_def)
  from step show ?thesis
  proof cases
    case (receive x y res)
    from validated_unverified [OF receive(1)] obtain b where "c_signature_verification_state y = Unverified b" ..
    from try_accept_certificate_ok [OF world iter db inv this] receive(2) show ?thesis by (auto intro: delivers_sent)
  next
    case (fetch xs ys res)
    from try_accept_fetched_certificates_ok [OF world iter db inv validated_list_unverified [OF fetch(1)] fetch(2)] fetch(3)
    show ?thesis by (auto intro: delivers_sent)
  next
    case (own x)
    from accept_own_certificate_ok [OF U iter db inv own] show ?thesis by (auto intro: delivers_sent)
  next
    case (collect g)
    from gc_iteration_ok [OF U iter db inv collect(1,2)] collect(3) obtain xs where
      xs: "delivers U (gc_store g sy) xs sy'" "sync_inv view U sy'" by auto
    have "sent U sy [] (gc_store g sy)" using collect(1) by (simp add: sent_def gc_store_def known_def sync_config_def)
    from sent_trans [OF this delivers_sent [OF xs(1)]] xs(2) show ?thesis by auto
  next
    case timeout
    have "sent U sy [] (gc_timeout sy)" by (simp add: sent_def gc_timeout_def known_def sync_config_def)
    with inv timeout show ?thesis by (auto simp: gc_timeout_def)
  qed
qed

lemma sync_run_sent:
  assumes "(sync_step ca bls hash db_ok iter U)\<^sup>*\<^sup>* sy sy'" and world: "sync_world bls hash U sy"
    and iter: "\<forall>xs. mset (iter xs) = mset xs" and db: "\<forall>d. db_ok d" and inv: "sync_inv view U sy"
  shows "\<exists>xs. sent U sy xs sy' \<and> sync_inv view U sy'"
  using assms(1)
proof (induction rule: rtranclp_induct)
  case base
  with inv sent_refl show ?case by blast
next
  case (step sy1 sy2)
  then obtain xs where xs: "sent U sy xs sy1" "sync_inv view U sy1" by blast
  have "sync_config sy1 = sync_config sy" using xs(1) by (simp add: sent_def)
  then have "sync_world bls hash U sy1" using world sync_world_config by blast
  from sync_step_sent [OF step(2) this iter db xs(2)] obtain ys where "sent U sy1 ys sy2" "sync_inv view U sy2" by blast
  with sent_trans [OF xs(1)] show ?case by blast
qed

section \<open>The window of the garbage collection task\<close>

text \<open>Between storing the new round and taking the lock, a suspended certificate of that round's
  successor may be processed again.\<close>

lemma suspended_reprocessed_panics:
  assumes inv: "sync_inv view U sy" and s: "map_of (ss_suspended (sy_state sy)) d = Some sc"
    and g: "c_round (sc_certificate sc) \<le> Suc g" "Suc g < 2 ^ 64"
  shows "certificate_acceptor ca db_ok iter [sc_certificate sc] False (gc_store g sy) = None"
proof -
  let ?x = "sc_certificate sc" and ?sy = "gc_store g sy"
  have "suspended_ok U (sy_gc_round sy) (known sy) (map_of (ss_missing (sy_state sy))) d sc"
    using inv s by (auto simp: sync_inv_def tracked_def tracks_def)
  then have x: "verified_state ?x" "c_digest ?x = d" "d \<notin> known sy" by (auto simp: suspended_ok_def)
  have coh: "coherent view (sy_certificate_store ?sy)" using inv by (simp add: sync_inv_def sync_store_ok_def gc_store_def)
  have "accept_children iter (c_round ?x) (c_digest ?x) (sy_state ?sy) = None"
    using s x(2) by (simp add: accept_children_def gc_store_def)
  then have "with_lock_loop ca db_ok iter False [?x] (Inr ()) ?sy = None"
    using g by (simp add: accept_with_children_def gc_store_def u64_add_fits)
  moreover have "map_of (certificates_by_id (sy_certificate_store ?sy)) d = None"
    using x(3) by (auto simp: known_def gc_store_def)
  ultimately show ?thesis using x
    by (simp add: certificate_acceptor_def process_certificates_with_lock_def multi_contains_through [OF coh] Let_def del: with_lock_loop.simps)
qed

end

section \<open>Worlds of finitely many headers\<close>

text \<open>For a list of headers, a hash without collisions on them and signatures that nobody can forge.\<close>

definition world_headers_ok :: "header list \<Rightarrow> bool" where
  "world_headers_ok H \<longleftrightarrow>
     (\<forall>h \<in> set H. 0 < h_round h \<and> h_round h < 2 ^ 64 \<and> distinct (h_parents h) \<and> h_digest h \<le> 1000 \<and>
        (\<forall>p \<in> set (h_parents h). p < h_digest h)) \<and>
     (\<forall>h \<in> set H. \<forall>h' \<in> set H. h_digest h = h_digest h' \<longrightarrow> h = h') \<and>
     (\<forall>h \<in> set H. \<forall>h' \<in> set H. h_digest h' \<in> set (h_parents h) \<longrightarrow> h_round h = Suc (h_round h'))"

definition world_hash :: "header list \<Rightarrow> header_hash" where
  "world_hash H h =
     (case List.find (\<lambda>h'. h'\<lparr>h_digest := 0\<rparr> = h\<lparr>h_digest := 0\<rparr>) H of
        Some h' \<Rightarrow> h_digest h'
      | None \<Rightarrow> 1001 + sum_list (h_parents h))"

definition world_bls :: "header list \<Rightarrow> narwhal_bls" where
  "world_bls H = demo_nbls\<lparr>nb_verify_aggregate := \<lambda>b d pks. d \<in> h_digest ` set H\<rparr>"

definition world_nodes :: "header list \<Rightarrow> certificate set" where
  "world_nodes H = {x. c_header x \<in> set H \<and> verified_state x}"

lemma world_headers_okD:
  assumes "world_headers_ok H" "h \<in> set H"
  shows "0 < h_round h" "h_round h < 2 ^ 64" "distinct (h_parents h)" "h_digest h \<le> 1000"
    "p \<in> set (h_parents h) \<Longrightarrow> p < h_digest h" "h' \<in> set H \<Longrightarrow> h_digest h = h_digest h' \<Longrightarrow> h = h'"
    "h' \<in> set H \<Longrightarrow> h_digest h' \<in> set (h_parents h) \<Longrightarrow> h_round h = Suc (h_round h')"
  using assms unfolding world_headers_ok_def by blast+

lemma world_nodes_headers_ok:
  assumes "world_headers_ok H"
  shows "headers_ok (world_nodes H)"
proof -
  have mem: "c_header x \<in> set H" if "x \<in> world_nodes H" for x using that by (simp add: world_nodes_def)
  note w = world_headers_okD [OF assms mem]
  show ?thesis
    unfolding headers_ok_def c_round_def c_parents_def c_digest_def
    using w(1-3) w(6) [OF _ mem] w(7) [OF _ mem] by blast
qed

lemma header_digest_eq: "h'\<lparr>h_digest := 0\<rparr> = h\<lparr>h_digest := 0\<rparr> \<Longrightarrow> h_digest h' = h_digest h \<Longrightarrow> h' = (h :: header)"
  by (cases h; cases h') simp

lemma world_hash_collision:
  assumes "world_headers_ok H" "world_hash H h = h_digest h" "h_digest h \<in> h_digest ` set H"
  shows "h \<in> set H"
proof (cases "List.find (\<lambda>h'. h'\<lparr>h_digest := 0\<rparr> = h\<lparr>h_digest := 0\<rparr>) H")
  case None
  with assms(2) have "1000 < h_digest h" by (simp add: world_hash_def)
  with assms(3) world_headers_okD(4) [OF assms(1)] show ?thesis by fastforce
next
  case (Some h')
  from find_SomeD [OF this] have h': "h' \<in> set H" "h'\<lparr>h_digest := 0\<rparr> = h\<lparr>h_digest := 0\<rparr>" by auto
  have "h_digest h' = h_digest h" using assms(2) Some by (simp add: world_hash_def)
  from header_digest_eq [OF h'(2) this] h'(1) show ?thesis by simp
qed

lemma world_hash_grows:
  assumes "world_headers_ok H" "world_hash H h = h_digest h" "p \<in> set (h_parents h)"
  shows "p < h_digest h"
proof (cases "List.find (\<lambda>h'. h'\<lparr>h_digest := 0\<rparr> = h\<lparr>h_digest := 0\<rparr>) H")
  case None
  with assms(2,3) member_le_sum_list [of p "h_parents h"] show ?thesis by (simp add: world_hash_def)
next
  case (Some h')
  then have "h_digest h = h_digest h'" "h' \<in> set H" using assms(2) find_SomeD [OF Some] by (simp_all add: world_hash_def)
  then have "h_digest h \<in> h_digest ` set H" by simp
  with world_hash_collision [OF assms(1,2)] world_headers_okD(5) [OF assms(1)] assms(3) show ?thesis by blast
qed

lemma world_hash_acyclic:
  assumes "world_headers_ok H"
  shows "hash_acyclic (world_hash H)"
proof -
  have "{(h, h'). world_hash H h = h_digest h \<and> world_hash H h' = h_digest h' \<and> h_digest h \<in> set (h_parents h')} \<subseteq> measure h_digest"
    using world_hash_grows [OF assms] by auto
  then show ?thesis unfolding hash_acyclic_def by (rule wf_acyclic [OF wf_subset [OF wf_measure]])
qed

lemma world_certifies:
  assumes H: "world_headers_ok H"
  shows "certifies (world_bls H) (world_hash H) c cache (world_nodes H)"
  unfolding certifies_def
proof (intro allI impI)
  fix x y z b assume x: "c_signature_verification_state x = Unverified b"
    and v: "cert_verify (world_bls H) (world_hash H) c cache x = Some (Inr y)" and r: "0 < c_round y"
    and z: "c_header z = c_header y" "verified_state z"
  have "0 < c_round x"
  proof (rule ccontr)
    assume "\<not> 0 < c_round x"
    with v x have "c_header y = c_header x" by (auto simp: cert_verify_def verify_signature_def split: if_splits sum.splits)
    with r \<open>\<not> 0 < c_round x\<close> show False by (simp add: c_round_def)
  qed
  with v x obtain pks where val: "header_validate (world_hash H) c cache (c_header x) = Some (Inr ())"
    and s: "verify_signature (world_bls H) x pks = Inr y"
    by (auto simp: cert_verify_def split: if_splits sum.splits)
  from s x have "h_digest (c_header x) \<in> h_digest ` set H" "c_header y = c_header x"
    by (auto simp: verify_signature_def world_bls_def c_digest_def split: if_splits)
  moreover have "world_hash H (c_header x) = h_digest (c_header x)" using val by (auto simp: header_validate_def split: if_splits)
  ultimately have "c_header z \<in> set H" using world_hash_collision [OF H] z(1) by simp
  with z(2) show "z \<in> world_nodes H" by (simp add: world_nodes_def)
qed

lemma world_ancestors:
  assumes H: "world_headers_ok H" and closed: "\<forall>h \<in> set H. 1 < h_round h \<longrightarrow> set (h_parents h) \<subseteq> h_digest ` set H"
    "\<forall>h \<in> set H. h_round h = 1 \<longrightarrow> h_parents h = []"
  shows "ancestors_certified (world_hash H) (world_nodes H)"
  unfolding ancestors_certified_def
proof (intro ballI allI impI)
  fix x y assume x: "x \<in> world_nodes H" and y: "world_hash H (c_header y) = c_digest y" "c_digest y \<in> set (c_parents x)" "verified_state y"
  have h: "c_header x \<in> set H" using x by (simp add: world_nodes_def)
  have "1 < h_round (c_header x)"
  proof (rule ccontr)
    assume "\<not> 1 < h_round (c_header x)"
    with world_headers_okD(1) [OF H h] closed(2) h have "h_parents (c_header x) = []" by auto
    with y(2) show False by (simp add: c_parents_def)
  qed
  with closed(1) h y(2) have "h_digest (c_header y) \<in> h_digest ` set H" by (auto simp: c_parents_def c_digest_def)
  with world_hash_collision [OF H, of "c_header y"] y show "y \<in> world_nodes H" by (simp add: world_nodes_def c_digest_def)
qed

lemma world_sync_world:
  assumes "world_headers_ok H" "\<forall>h \<in> set H. 1 < h_round h \<longrightarrow> set (h_parents h) \<subseteq> h_digest ` set H"
    "\<forall>h \<in> set H. h_round h = 1 \<longrightarrow> h_parents h = []" "nc_wf (sy_committee sy)"
  shows "sync_world (world_bls H) (world_hash H) (world_nodes H) sy"
  using assms world_nodes_headers_ok world_hash_acyclic world_certifies world_ancestors by (simp add: sync_world_def)

section \<open>An example\<close>

text \<open>Two headers, of round 1 and of round 2, and nobody signed anything else.\<close>

definition sync_header :: "nat \<Rightarrow> header" where
  "sync_header r = \<lparr>h_author = 0, h_round = r, h_epoch = 5, h_created_at = 0, h_payload = [], h_system_messages = [],
     h_parents = (if r = 1 then [] else [101]), h_digest = 100 * r + 1\<rparr>"

abbreviation sync_hash :: header_hash where
  "sync_hash \<equiv> world_hash [sync_header 1, sync_header 2]"

abbreviation sync_bls :: narwhal_bls where
  "sync_bls \<equiv> world_bls [sync_header 1, sync_header 2]"

abbreviation sync_nodes :: "certificate set" where
  "sync_nodes \<equiv> world_nodes [sync_header 1, sync_header 2]"

definition sync_certificate :: "nat \<Rightarrow> certificate" where
  "sync_certificate r = \<lparr>c_header = sync_header r, c_signature_verification_state = Unverified [], c_signed_authorities = [0, 1, 2]\<rparr>"

definition sync_verified :: "nat \<Rightarrow> certificate" where
  "sync_verified r = (sync_certificate r)\<lparr>c_signature_verification_state := VerifiedDirectly []\<rparr>"

definition sync_start :: "unit synchronizer" where
  "sync_start = \<lparr>sy_authority_id = 0, sy_committee = demo_nc, sy_worker_cache = [], sy_gc_depth = 50, sy_gc_round = 0,
     sy_highest_processed_round = 0, sy_highest_received_round = 0, sy_certificate_store = cert_store_new [] [] [] (),
     sy_genesis = [], sy_aggregators = [], sy_state = sync_state_default, sy_tx_new_certificates = [],
     sy_tx_parents = [], sy_tx_certificate_fetcher = [], sy_tx_batch_tasks = [], sy_tx_own_certificate_broadcast = []\<rparr>"

lemmas sync_defs = sync_header_def world_hash_def world_bls_def sync_certificate_def sync_verified_def
  c_round_def c_digest_def c_parents_def c_origin_def c_epoch_def

lemma sync_start_world: "sync_world sync_bls sync_hash sync_nodes sync_start"
  by (rule world_sync_world) (auto simp: world_headers_ok_def sync_header_def sync_start_def demo_nc_wf)

lemma sync_start_inv: "sync_inv (\<lambda>_. Map.empty) U sync_start"
  by (simp add: sync_inv_def sync_store_ok_def sync_start_def coherent_def store_holds_def cert_store_new_def tracked_def
      tracks_def history_closed_def known_def collected_def sync_state_default_def)

lemma sync_verifies:
  "r = 1 \<or> r = 2 \<Longrightarrow> cert_verify sync_bls sync_hash demo_nc [] (sync_certificate r) = Some (Inr (sync_verified r))"
  by (auto simp: cert_verify_def header_validate_def sync_defs demo_nc_stake signed_by_def verify_signature_def)
    (simp_all add: demo_nc_def authorities_def demo_authority_def authority_stake_def
      authority_protocol_key_def panic_unless_def verify_signature_def demo_nbls_def c_digest_def)

text \<open>The certificate of round 2 arrives first and waits for its parent.\<close>

definition sync_waiting :: "unit synchronizer" where
  "sync_waiting = sync_start\<lparr>sy_highest_received_round := 2, sy_tx_parents := [([], 1)],
     sy_tx_batch_tasks := [(sync_header 2, 49)], sy_tx_certificate_fetcher := [Ancestors (sync_verified 2)],
     sy_state := \<lparr>ss_suspended = [(201, \<lparr>sc_certificate = sync_verified 2, sc_missing_parents = [101]\<rparr>)],
                   ss_missing = [((1, 101), [201])]\<rparr>\<rparr>"

lemmas sync_eval = try_accept_certificate_def sync_process_certificate_internal_def inner_sanitize_certificate_def
  certificate_acceptor_def process_certificates_with_lock_def get_missing_parents_def sync_state_insert_def
  cert_contains_def cert_multi_contains_def no_cache_def cert_store_new_def check_suspended_def sync_state_default_def
  u64_add_def u64_sub_def verified_state_def

lemma sync_fields [simp]:
  "c_round (sync_certificate r) = r" "c_round (sync_verified r) = r" "c_digest (sync_certificate r) = 100 * r + 1"
  "c_digest (sync_verified r) = 100 * r + 1" "c_epoch (sync_certificate r) = 5" "c_epoch (sync_verified r) = 5"
  "c_parents (sync_verified r) = (if r = 1 then [] else [101])" "c_header (sync_verified r) = sync_header r"
  "c_signature_verification_state (sync_verified r) = VerifiedDirectly []" "c_origin (sync_verified r) = 0"
  by (simp_all add: sync_defs)

lemma sync_receive_child:
  "try_accept_certificate no_cache sync_bls sync_hash (\<lambda>_. True) id (sync_certificate 2) sync_start = Some (Inl DagSuspended, sync_waiting)"
proof -
  have epoch: "nc_epoch demo_nc = 5" by (simp add: demo_nc_def)
  show ?thesis using sync_verifies [of 2]
    by (simp add: sync_eval sync_start_def sync_waiting_def Let_def epoch)
qed

lemma sync_receive_parent:
  "\<exists>sy. try_accept_certificate no_cache sync_bls sync_hash (\<lambda>_. True) id (sync_certificate 1) sync_waiting = Some (Inr (), sy) \<and>
     sy_tx_new_certificates sy = [sync_verified 1, sync_verified 2]"
proof -
  have epoch: "nc_epoch demo_nc = 5" by (simp add: demo_nc_def)
  show ?thesis using sync_verifies [of 1]
    by (simp add: sync_eval sync_start_def sync_waiting_def Let_def epoch accept_with_children_def accept_children_def
        accept_certificate_internal_def verified_or_genesis_def cert_write_def insert_rows_def append_certificate_in_aggregator_def
        ca_append_def ca_new_def demo_nc_stake demo_nc_thresholds word_le_nat_alt)
qed

section \<open>Properties\<close>

lemma ordered_nth:
  assumes "ordered g V xs" "i < length xs" "Suc g < c_round (xs ! i)"
  shows "set (c_parents (xs ! i)) \<subseteq> V \<union> c_digest ` set (take i xs)"
  using assms
proof (induction xs arbitrary: V i)
  case (Cons x xs)
  show ?case
  proof (cases i)
    case (Suc j)
    with Cons(1) [of "insert (c_digest x) V" j] Cons(2-4) show ?thesis by auto
  qed (use Cons in auto)
qed simp

text \<open>
  C4. Whatever certificates a primary receives, fetches or creates, and whenever garbage collection runs,
  the synchronizer hands consensus only certificates of verified headers and in causal order: above the
  garbage collection round, every parent of a certificate is in the store the run started from or was
  handed over earlier. Nothing enters the store that is not handed over.
\<close>

theorem sync_causal_order:
  assumes "cache_contract ca view" "sync_world bls hash U sy" "sync_inv view U sy"
    and "\<forall>xs. mset (iter xs) = mset xs" "\<forall>d. db_ok d" "(sync_step ca bls hash db_ok iter U)\<^sup>*\<^sup>* sy sy'"
  shows "\<exists>xs. sy_tx_new_certificates sy' = sy_tx_new_certificates sy @ xs \<and> set xs \<subseteq> U \<and>
    known sy' = known sy \<union> c_digest ` set xs \<and>
    (\<forall>i < length xs. Suc (sy_gc_round sy') < c_round (xs ! i) \<longrightarrow>
       set (c_parents (xs ! i)) \<subseteq> known sy \<union> c_digest ` set (take i xs))"
proof -
  from cache_contract.sync_run_sent [OF assms(1,6,2,4,5,3)] obtain xs where xs: "sent U sy xs sy'" by blast
  then have ord: "ordered (sy_gc_round sy') (known sy) xs" by (simp add: sent_def)
  from xs ordered_nth [OF ord] show ?thesis by (intro exI [of _ xs]) (simp add: sent_def)
qed

theorem sync_causal_order_witness:
  "\<exists>sy xs. (sync_step no_cache sync_bls sync_hash (\<lambda>_. True) id sync_nodes)\<^sup>*\<^sup>* sync_start sy \<and>
     sy_tx_new_certificates sy = [sync_verified 1, sync_verified 2] \<and> known sy = {101, 201}"
proof -
  have val: "validate_received_certificate_version (sync_certificate r) = Some (sync_certificate r)" for r
    by (simp add: validate_received_certificate_version_def aggregated_signature_def sync_certificate_def)
  obtain sy where sy: "try_accept_certificate no_cache sync_bls sync_hash (\<lambda>_. True) id (sync_certificate 1) sync_waiting = Some (Inr (), sy)"
    "sy_tx_new_certificates sy = [sync_verified 1, sync_verified 2]" using sync_receive_parent by blast
  have run: "(sync_step no_cache sync_bls sync_hash (\<lambda>_. True) id sync_nodes)\<^sup>*\<^sup>* sync_start sy"
    by (rule rtranclp.rtrancl_into_rtrancl [OF r_into_rtranclp [of "sync_step no_cache sync_bls sync_hash (\<lambda>_. True) id sync_nodes",
          OF sync_step.receive [OF val sync_receive_child]] sync_step.receive [OF val sy(1)]])
  have start: "known sync_start = {}" "sy_tx_new_certificates sync_start = []"
    by (simp_all add: known_def sync_start_def cert_store_new_def)
  from sync_causal_order [OF no_cache_store.cache_contract_axioms sync_start_world sync_start_inv _ _ run] obtain xs where
    "sy_tx_new_certificates sy = xs" "known sy = c_digest ` set xs" using start by auto
  with sy(2) have "known sy = {101, 201}" by auto
  with run sy(2) show ?thesis by blast
qed



text \<open>
  C16. The garbage collection task stores the new round before it takes the lock on the suspended
  certificates. If a fetched batch is processed in between and holds a suspended certificate of the round
  after the new one (or an older one), the primary panics in \<^verbatim>\<open>accept_children\<close>; had the task finished first, the
  batch would have been processed.
\<close>

theorem gc_window_panics:
  assumes "cache_contract ca view" "sync_world bls hash U sy" "sync_inv view U sy"
    and "\<forall>xs. mset (iter xs) = mset xs" "\<forall>d. db_ok d" "map_of (ss_suspended (sy_state sy)) d = Some sc"
    and "sy_gc_round sy \<le> g" "c_round (sc_certificate sc) \<le> Suc g" "Suc g < 2 ^ 64"
  shows "certificate_acceptor ca db_ok iter [sc_certificate sc] False (gc_store g sy) = None \<and>
    (\<exists>sy1 r. gc_iteration ca db_ok iter g sy = Some sy1 \<and> certificate_acceptor ca db_ok iter [sc_certificate sc] False sy1 = Some r)"
proof (intro conjI)
  show "certificate_acceptor ca db_ok iter [sc_certificate sc] False (gc_store g sy) = None"
    by (rule cache_contract.suspended_reprocessed_panics [OF assms(1,3,6,8,9)])
  have U: "headers_ok U" using assms(2) by (simp add: sync_world_def)
  have "suspended_ok U (sy_gc_round sy) (known sy) (map_of (ss_missing (sy_state sy))) d sc"
    using assms(3,6) by (auto simp: sync_inv_def tracked_def tracks_def)
  then have x: "\<forall>x \<in> set [sc_certificate sc]. x \<in> U \<and> verified_state x" by (simp add: suspended_ok_def)
  from cache_contract.gc_iteration_ok [OF assms(1) U assms(4,5,3,7,9)] obtain sy1 where
    sy1: "gc_iteration ca db_ok iter g sy = Some sy1" "sync_inv view U sy1" by blast
  from cache_contract.certificate_acceptor_ok [OF assms(1) U assms(4,5) sy1(2) x] sy1(1)
  show "\<exists>sy1 r. gc_iteration ca db_ok iter g sy = Some sy1 \<and> certificate_acceptor ca db_ok iter [sc_certificate sc] False sy1 = Some r"
    by blast
qed

theorem gc_window_panics_witness:
  "certificate_acceptor no_cache (\<lambda>_. True) id [sync_verified 2] False (gc_store 1 sync_waiting) = None"
proof -
  have un: "c_signature_verification_state (sync_certificate 2) = Unverified []" by (simp add: sync_certificate_def)
  from no_cache_store.try_accept_certificate_ok [OF sync_start_world _ _ sync_start_inv un, where iter = id and db_ok = "\<lambda>_. True"] sync_receive_child
  have inv: "sync_inv (\<lambda>_. Map.empty) sync_nodes sync_waiting" by auto
  have world: "sync_world sync_bls sync_hash sync_nodes sync_waiting"
    using sync_start_world by (simp add: sync_world_def sync_waiting_def)
  have "map_of (ss_suspended (sy_state sync_waiting)) 201 = Some \<lparr>sc_certificate = sync_verified 2, sc_missing_parents = [101]\<rparr>"
    "sy_gc_round sync_waiting \<le> 1"
    by (simp_all add: sync_waiting_def sync_start_def)
  from gc_window_panics [OF no_cache_store.cache_contract_axioms world inv _ _ this, where iter = id and db_ok = "\<lambda>_. True"] show ?thesis by simp
qed

text \<open>
  C15. Indirect verification is sound: when \<^verbatim>\<open>sanitize_fetched_certificates\<close> accepts a batch, every certificate of
  it is connected by parent links within the batch to one whose signature was verified, and its header is
  the one that was received.
\<close>

theorem fetched_batch_sound:
  assumes "sanitize_fetched_certificates bls hash xs sy = Some (Inr ys)"
    and "\<forall>x \<in> set xs. \<exists>b. c_signature_verification_state x = Unverified b"
    and "\<forall>x \<in> set xs. hash (c_header x) = c_digest x" "hash_acyclic hash"
  shows "map c_header ys = map c_header xs \<and> (\<forall>x \<in> set xs. \<exists>z \<in> set xs. \<exists>z' \<in> set ys.
    cert_verify bls hash (sy_committee sy) (sy_worker_cache sy) z = Some (Inr z') \<and>
    (x, z) \<in> {(a, b). a \<in> set xs \<and> b \<in> set xs \<and> c_digest a \<in> set (c_parents b)}\<^sup>*)"
proof -
  let ?R = "{(a, b). a \<in> set xs \<and> b \<in> set xs \<and> c_digest a \<in> set (c_parents b)}"
  let ?P = "\<lambda>x. \<exists>z \<in> set xs. \<exists>z' \<in> set ys. cert_verify bls hash (sy_committee sy) (sy_worker_cache sy) z = Some (Inr z') \<and> (x, z) \<in> ?R\<^sup>*"
  note spec = sanitize_fetched_spec [OF assms(1,2)]
  have direct: "?P x" if x: "x \<in> set xs" "direct_verification (concat (map c_parents xs)) x" for x
  proof -
    from x(1) obtain i where i: "i < length xs" "x = xs ! i" by (auto simp: in_set_conv_nth)
    with list_all2_nthD [OF spec i(1)] list_all2_lengthD [OF spec] x
    have "ys ! i \<in> set ys" "cert_verify bls hash (sy_committee sy) (sy_worker_cache sy) x = Some (Inr (ys ! i))" by auto
    with x(1) show ?thesis by blast
  qed
  have "\<forall>x \<in> set xs. ?P x"
  proof (rule fetched_chain [OF assms(4,3)])
    show "\<forall>x \<in> set xs. direct_verification (concat (map c_parents xs)) x \<longrightarrow> ?P x" using direct by blast
    show "\<forall>x \<in> set xs. \<forall>y \<in> set xs. ?P x \<longrightarrow> c_digest y \<in> set (c_parents x) \<longrightarrow>
        \<not> direct_verification (concat (map c_parents xs)) y \<longrightarrow> ?P y"
    proof (intro ballI impI)
      fix x y assume xy: "x \<in> set xs" "y \<in> set xs" "c_digest y \<in> set (c_parents x)" and "?P x"
      then obtain z z' where z: "z \<in> set xs" "z' \<in> set ys" "cert_verify bls hash (sy_committee sy) (sy_worker_cache sy) z = Some (Inr z')"
        "(x, z) \<in> ?R\<^sup>*" by blast
      from xy have "(y, x) \<in> ?R" by simp
      from converse_rtrancl_into_rtrancl [OF this z(4)] z(1-3) show "?P y" by blast
    qed
  qed
  moreover have "map c_header ys = map c_header xs"
    using spec by (auto simp: list_all2_conv_all_nth intro: nth_equalityI)
  ultimately show ?thesis by blast
qed

theorem fetched_batch_sound_witness:
  "\<exists>ys. sanitize_fetched_certificates sync_bls sync_hash [sync_certificate 1, sync_certificate 2] sync_start = Some (Inr ys) \<and>
     map c_header ys = [sync_header 1, sync_header 2]"
proof -
  let ?xs = "[sync_certificate 1, sync_certificate 2]"
  have epoch: "nc_epoch demo_nc = 5" by (simp add: demo_nc_def)
  let ?x = "(sync_certificate 1)\<lparr>c_signature_verification_state := VerifiedIndirectly []\<rparr>"
  have parents: "c_parents (sync_certificate 1) = []" "c_parents (sync_certificate 2) = [101]" by (simp_all add: sync_defs)
  have direct: "direct_verification [101] (sync_certificate 2)" "\<not> direct_verification [101] (sync_certificate 1)"
    "\<not> direct_verification [101] ?x" by (simp_all add: direct_verification_def sync_defs)
  have agg: "aggregated_signature (sync_certificate 1) = Some []" by (simp add: aggregated_signature_def sync_certificate_def)
  have "inner_sanitize_certificate sync_bls sync_hash (sync_certificate 2) sync_start = Some (Inr (sync_verified 2))"
    using sync_verifies [of 2] epoch by (simp add: inner_sanitize_certificate_def sync_start_def)
  then have run: "sanitize_fetched_certificates sync_bls sync_hash ?xs sync_start = Some (Inr [?x, sync_verified 2])"
    using agg direct parents by (simp add: sanitize_fetched_certificates_def)
  have "\<forall>x \<in> set ?xs. \<exists>b. c_signature_verification_state x = Unverified b" by (simp add: sync_certificate_def)
  moreover have "\<forall>x \<in> set ?xs. sync_hash (c_header x) = c_digest x" by (simp add: sync_defs)
  ultimately have "map c_header [?x, sync_verified 2] = map c_header ?xs"
    using fetched_batch_sound [OF run] sync_start_world by (simp add: sync_world_def)
  with run show ?thesis by (auto simp: sync_certificate_def)
qed

end
