(* ===== verification/Primary_Node.thy ===== *)
theory Primary_Node
  imports Synchronizer_Properties Consensus_Example
begin

text \<open>
  A validator's primary: the synchronizer and the consensus task joined by the channel of accepted
  certificates. The output of the synchronizer meets what consensus expects, so that neither panics, and
  the nodes of a committee commit the same sequence.
\<close>

section \<open>The composition\<close>

text \<open>A synchronizer, the number of certificates of its output that consensus has taken, and the consensus
  task. The synchronizer never runs ahead of the garbage collection round that consensus has published.\<close>

type_synonym 't node = "'t synchronizer \<times> nat \<times> bullshark \<times> consensus_state"

inductive node_step ::
  "'t cache \<Rightarrow> narwhal_bls \<Rightarrow> header_hash \<Rightarrow> (certificate_digest \<Rightarrow> bool) \<Rightarrow> (certificate_digest list \<Rightarrow> certificate_digest list) \<Rightarrow>
   certificate set \<Rightarrow> certificate set \<Rightarrow> choices \<Rightarrow> (sequence_number \<Rightarrow> bool) \<Rightarrow> 't node \<Rightarrow> committed_sub_dag list \<Rightarrow> 't node \<Rightarrow> bool"
  for ca bls hash db_ok iter U W ch cons_db_ok where
  synchronize: "sync_step ca bls hash db_ok iter U sy sy' \<Longrightarrow> sy_gc_round sy' \<le> gc_round (last_round s) \<Longrightarrow>
     set (sy_tx_new_certificates sy') \<subseteq> W \<Longrightarrow> node_step ca bls hash db_ok iter U W ch cons_db_ok (sy, k, b, s) [] (sy', k, b, s)"
| order: "k < length (sy_tx_new_certificates sy) \<Longrightarrow>
     run_step ch cons_db_ok (sy_tx_new_certificates sy ! k) b s = Some (Inr (sds, msg), b', s') \<Longrightarrow>
     node_step ca bls hash db_ok iter U W ch cons_db_ok (sy, k, b, s) sds (sy, Suc k, b', s')"

text \<open>A run, with everything it sequenced.\<close>

inductive node_run ::
  "'t cache \<Rightarrow> narwhal_bls \<Rightarrow> header_hash \<Rightarrow> (certificate_digest \<Rightarrow> bool) \<Rightarrow> (certificate_digest list \<Rightarrow> certificate_digest list) \<Rightarrow>
   certificate set \<Rightarrow> certificate set \<Rightarrow> choices \<Rightarrow> (sequence_number \<Rightarrow> bool) \<Rightarrow> 't node \<Rightarrow> committed_sub_dag list \<Rightarrow> 't node \<Rightarrow> bool"
  for ca bls hash db_ok iter U W ch cons_db_ok n where
  node_run_start: "node_run ca bls hash db_ok iter U W ch cons_db_ok n [] n"
| node_run_step: "node_run ca bls hash db_ok iter U W ch cons_db_ok n sds n1 \<Longrightarrow>
     node_step ca bls hash db_ok iter U W ch cons_db_ok n1 out n2 \<Longrightarrow> node_run ca bls hash db_ok iter U W ch cons_db_ok n (sds @ out) n2"

text \<open>\<open>D\<close> are the certificates the node started with.\<close>

definition node_inv ::
  "('t \<Rightarrow> certificate_digest \<Rightarrow> certificate option) \<Rightarrow> narwhal_bls \<Rightarrow> header_hash \<Rightarrow> certificate set \<Rightarrow> certificate set \<Rightarrow>
   certificate set \<Rightarrow> choices \<Rightarrow> 't node \<Rightarrow> bool" where
  "node_inv view bls hash U W D ch = (\<lambda>(sy, k, b, s).
     sync_world bls hash U sy \<and> sync_inv view U sy \<and> machine_ok ch W (b, s) \<and> k \<le> length (sy_tx_new_certificates sy) \<and>
     set (sy_tx_new_certificates sy) \<subseteq> W \<and> known sy = c_digest ` (D \<union> set (sy_tx_new_certificates sy)) \<and>
     ordered (sy_gc_round sy) (c_digest ` D) (sy_tx_new_certificates sy) \<and> sy_gc_round sy \<le> gc_round (last_round s) \<and>
     holds (D \<union> set (take k (sy_tx_new_certificates sy))) s \<and> (\<forall>x \<in> W. c_epoch x = nc_epoch (bs_committee b)))"

lemma node_supplied:
  assumes U: "headers_ok U" "W \<subseteq> U" "D \<subseteq> W" and inv: "node_inv view bls hash U W D ch (sy, k, b, s)"
    and k: "k < length (sy_tx_new_certificates sy)"
  shows "supplied (sy_tx_new_certificates sy ! k) s"
  unfolding supplied_def
proof (intro impI ballI)
  let ?log = "sy_tx_new_certificates sy"
  let ?x = "?log ! k"
  fix p assume r: "gc_round (last_round s) + 1 < c_round ?x" and p: "p \<in> set (c_parents ?x)"
  have log: "set ?log \<subseteq> W" "ordered (sy_gc_round sy) (c_digest ` D) ?log" "holds (D \<union> set (take k ?log)) s"
    "sy_gc_round sy \<le> gc_round (last_round s)" using inv by (simp_all add: node_inv_def)
  have "Suc (sy_gc_round sy) < c_round ?x" using r log(4) by simp
  from ordered_nth [OF log(2) k this] p obtain y where y: "y \<in> D \<union> set (take k ?log)" "c_digest y = p" by blast
  have "y \<in> W" using y(1) U(3) log(1) set_take_subset [of k ?log] by blast
  moreover have "?x \<in> W" using log(1) k by (meson nth_mem subsetD)
  ultimately have "c_round ?x = Suc (c_round y)" using headers_okD(5) [OF U(1), of ?x y] U(2) p y(2) by blast
  with log(3) y r show "\<exists>y \<in> certs (state_dag s). c_digest y = p \<and> c_round y + 1 = c_round ?x"
    by (intro bexI [of _ y]) (auto simp: holds_def)
qed

lemma node_order_total:
  assumes U: "headers_ok U" "W \<subseteq> U" "D \<subseteq> W" "universe W" and inv: "node_inv view bls hash U W D ch (sy, k, b, s)"
    and k: "k < length (sy_tx_new_certificates sy)"
  shows "\<exists>r b' s'. run_step ch cons_db_ok (sy_tx_new_certificates sy ! k) b s = Some (r, b', s') \<and>
    (\<forall>e. r = Inl e \<longrightarrow> (\<exists>i. \<not> cons_db_ok i)) \<and> (\<forall>out. r = Inr out \<longrightarrow> node_inv view bls hash U W D ch (sy, Suc k, b', s'))"
proof -
  let ?log = "sy_tx_new_certificates sy"
  have n: "machine_ok ch W (b, s)" "set ?log \<subseteq> W" "holds (D \<union> set (take k ?log)) s" "\<forall>x \<in> W. c_epoch x = nc_epoch (bs_committee b)"
    using inv by (simp_all add: node_inv_def)
  have x: "?log ! k \<in> W" using n(2) k by (meson nth_mem subsetD)
  then have ep: "c_epoch (?log ! k) = nc_epoch (bs_committee b)" using n(4) by blast
  from run_step_supplied [OF U(4) n(1) x ep n(3) node_supplied [OF U(1-3) inv k], of cons_db_ok] obtain r b' s' where
    r: "run_step ch cons_db_ok (?log ! k) b s = Some (r, b', s')" "machine_ok ch W (b', s')" "\<forall>e. r = Inl e \<longrightarrow> (\<exists>i. \<not> cons_db_ok i)"
      "\<forall>out. r = Inr out \<longrightarrow> holds (insert (?log ! k) (D \<union> set (take k ?log))) s' \<and> bs_committee b' = bs_committee b \<and>
        gc_round (last_round s) \<le> gc_round (last_round s')" by blast
  have "insert (?log ! k) (D \<union> set (take k ?log)) = D \<union> set (take (Suc k) ?log)" using k by (simp add: take_Suc_conv_app_nth)
  with r inv k have "\<forall>out. r = Inr out \<longrightarrow> node_inv view bls hash U W D ch (sy, Suc k, b', s')"
    by (auto simp: node_inv_def)
  with r show ?thesis by blast
qed

text \<open>The consensus task of a run is a trace of the abstract machine.\<close>

lemma node_step_trace:
  assumes "node_step ca bls hash db_ok iter U W ch cons_db_ok n out n'" and inv: "node_inv view bls hash U W D ch n" and W: "universe W"
  shows "trace ch W (snd (snd n)) out (snd (snd n'))"
  using assms(1)
proof cases
  case (synchronize sy sy' s k b)
  then show ?thesis by (simp add: trace_start)
next
  case (order k sy b s msg b' s')
  have "set (sy_tx_new_certificates sy) \<subseteq> W" "machine_ok ch W (b, s)" using inv order(1) by (simp_all add: node_inv_def)
  then have "sy_tx_new_certificates sy ! k \<in> W" "state_ok W s" using order(3) by (auto simp: machine_ok_def)
  from run_step_refines [OF W this(2,1) order(4)] order(1,2) show ?thesis by simp
qed

context cache_contract
begin

lemma node_step_inv:
  assumes "node_step ca bls hash db_ok iter U W ch cons_db_ok n out n'" and inv: "node_inv view bls hash U W D ch n"
    and iter: "\<forall>xs. mset (iter xs) = mset xs" and db: "\<forall>d. db_ok d" and U: "headers_ok U" "W \<subseteq> U" "D \<subseteq> W" "universe W"
  shows "node_inv view bls hash U W D ch n'"
  using assms(1)
proof cases
  case (synchronize sy sy' s k b)
  have n: "sync_world bls hash U sy" "sync_inv view U sy" using inv synchronize(1) by (simp_all add: node_inv_def)
  from sync_step_sent [OF synchronize(4) n(1) iter db n(2)] obtain xs where xs: "sent U sy xs sy'" "sync_inv view U sy'" by blast
  let ?log = "sy_tx_new_certificates sy"
  have log: "sy_tx_new_certificates sy' = ?log @ xs" "known sy' = known sy \<union> c_digest ` set xs"
    "sync_config sy' = sync_config sy" "sy_gc_round sy \<le> sy_gc_round sy'" "ordered (sy_gc_round sy') (known sy) xs"
    using xs(1) by (simp_all add: sent_def)
  have old: "known sy = c_digest ` (D \<union> set ?log)" "ordered (sy_gc_round sy) (c_digest ` D) ?log" "k \<le> length ?log"
    using inv synchronize(1) by (simp_all add: node_inv_def)
  have ord: "ordered (sy_gc_round sy') (c_digest ` D) (?log @ xs)"
    using log(5) old(1) ordered_gc_mono [OF old(2) log(4)] by (simp add: ordered_append image_Un)
  have "sync_world bls hash U sy'" using n(1) sync_world_config [OF log(3)] by blast
  with inv synchronize xs(2) log old ord show ?thesis by (auto simp: node_inv_def image_Un)
next
  case (order k sy b s msg b' s')
  from node_order_total [OF U inv [unfolded order(1)] order(3), of cons_db_ok] order(2,4) show ?thesis by auto
qed

lemma node_run_inv:
  assumes "node_run ca bls hash db_ok iter U W ch cons_db_ok n sds n'" and inv: "node_inv view bls hash U W D ch n"
    and iter: "\<forall>xs. mset (iter xs) = mset xs" and db: "\<forall>d. db_ok d" and U: "headers_ok U" "W \<subseteq> U" "D \<subseteq> W" "universe W"
  shows "node_inv view bls hash U W D ch n' \<and> trace ch W (snd (snd n)) sds (snd (snd n'))"
  using assms(1)
proof (induction rule: node_run.induct)
  case node_run_start
  show ?case using inv by (simp add: trace_start)
next
  case (node_run_step sds n1 out n2)
  then have n1: "node_inv view bls hash U W D ch n1" "trace ch W (snd (snd n)) sds (snd (snd n1))" by blast+
  from node_step_inv [OF node_run_step(2) n1(1) iter db U] trace_trans [OF node_step_trace [OF node_run_step(2) n1(1) U(4)] n1(2)]
  show ?case by blast
qed

text \<open>An own certificate with stored parents goes straight to consensus when nothing is suspended.\<close>

lemma accept_nothing_suspended:
  assumes "sy_state sy = sync_state_default"
  shows "accept_with_children ca db_ok iter x sy = accept_certificate_internal ca db_ok x sy"
proof -
  have same: "sy\<lparr>sy_state := sync_state_default\<rparr> = sy" using assms by (cases sy) simp
  have "accept_children iter r d sync_state_default = Some ([], sync_state_default)" for r d
    by (simp add: accept_children_def sync_state_default_def panic_unless_def)
  then have "accept_with_children ca db_ok iter x sy = Option.bind (accept_certificate_internal ca db_ok x sy) Some"
    using assms by (simp add: accept_with_children_def same cong: bind_option_cong)
  then show ?thesis by simp
qed

lemma accept_highest_processed:
  "accept_certificate_internal ca db_ok x sy = Some sy' \<Longrightarrow>
   sy_highest_processed_round sy' = max (sy_highest_processed_round sy) (c_round x)"
  by (auto simp: accept_certificate_internal_def append_certificate_in_aggregator_def Let_def bind_eq_Some_conv
      split: prod.splits option.splits)

lemma own_accepted:
  assumes U: "headers_ok U" and inv: "sync_inv view U sy" "sy_state sy = sync_state_default"
    and x: "x \<in> U" "verified_state x" "c_digest x \<notin> known sy"
    and parents: "Suc (sy_gc_round sy) < c_round x \<longrightarrow> set (c_parents x) \<subseteq> known sy"
    and new: "c_round x \<le> 1000" "sy_highest_processed_round sy \<le> 1000"
    and iter: "\<forall>xs. mset (iter xs) = mset xs" and db: "\<forall>d. db_ok d"
  shows "\<exists>sy'. accept_own_certificate ca bls hash db_ok iter x sy = Some sy' \<and> delivers U sy [x] sy' \<and> sync_inv view U sy' \<and>
    sy_state sy' = sync_state_default \<and> sy_highest_processed_round sy' \<le> 1000"
proof -
  let ?sy = "sy\<lparr>sy_highest_received_round := max (sy_highest_received_round sy) (c_round x),
                 sy_tx_parents := sy_tx_parents sy @ [([], c_round x - 1)],
                 sy_tx_batch_tasks := sy_tx_batch_tasks sy @ [(c_header x, sy_gc_depth sy - 1)]\<rparr>"
  have coh: "coherent view (sy_certificate_store sy)" and g: "u64_add (sy_gc_round sy) 1 = Suc (sy_gc_round sy)"
    using inv by (simp_all add: sync_inv_def sync_store_ok_def u64_add_fits)
  have "u64_add (sy_highest_processed_round sy) 1000 = sy_highest_processed_round sy + 1000"
    using new(2) by (intro u64_add_fits) simp
  then have fits: "\<not> u64_add (sy_highest_processed_round sy) new_certificate_round_limit < c_round x" using new(1) by simp
  have inv': "sync_inv view U ?sy" and par: "Suc (sy_gc_round ?sy) < c_round x \<longrightarrow> set (c_parents x) \<subseteq> known ?sy"
    and st: "sy_state ?sy = sync_state_default" using inv parents by (simp_all add: known_def)
  then have "sync_store_ok view U ?sy" by (simp add: sync_inv_def)
  from accept_certificate_internal_ok [OF this x(1,2) db par] obtain s2 where
    s2: "accept_certificate_internal ca db_ok x ?sy = Some s2" "delivers U ?sy [x] s2" "sy_state s2 = sync_state_default"
    using st by auto
  have run: "accept_with_children ca db_ok iter x ?sy = Some s2" using accept_nothing_suspended [OF st] s2(1) by simp
  from accept_with_children_ok [OF U iter db inv' x(1,2) par] obtain s3 where
    "accept_with_children ca db_ok iter x ?sy = Some s3" "sync_inv view U s3" by blast
  with run have s2': "sync_inv view U s2" "sy_highest_processed_round s2 \<le> 1000"
    using accept_highest_processed [OF s2(1)] new by simp_all
  have "get_missing_parents ca x ?sy = (Inr [], ?sy)" if "Suc (sy_gc_round sy) < c_round x"
  proof -
    have "filter (\<lambda>(_, exists). \<not> exists) (zip ps (map (\<lambda>d. d \<in> known sy) ps)) = []" if "set ps \<subseteq> known sy" for ps
      using that by (induction ps) auto
    then show ?thesis using that parents multi_contains_through [OF coh, of "c_parents x"] by (simp add: get_missing_parents_def known_def dom_def)
  qed
  then have "with_lock_loop ca db_ok iter False [x] (Inr ()) ?sy = Some (Inr (), s2)"
    using run by (simp add: g del: One_nat_def)
  then have "certificate_acceptor ca db_ok iter [x] False ?sy = Some (Inr (), s2)"
    using x(2,3) multi_contains_through [OF coh, of "[c_digest x]"]
    by (simp add: certificate_acceptor_def process_certificates_with_lock_def known_def dom_def Let_def del: with_lock_loop.simps)
  moreover have "\<not> cert_contains ca (c_digest x) (sy_certificate_store sy)" using x(3) contains_through [OF coh] by (auto simp: known_def)
  ultimately have own: "accept_own_certificate ca bls hash db_ok iter x sy =
      Some (s2\<lparr>sy_tx_own_certificate_broadcast := sy_tx_own_certificate_broadcast s2 @ [x]\<rparr>)"
    using fits by (simp add: accept_own_certificate_def sync_process_certificate_internal_def Let_def panic_unless_def)
  have "delivers U sy [x] s2" using s2(2) by (simp add: delivers_def known_def sync_config_def)
  then show ?thesis using own s2(3) s2' by (simp add: delivers_def known_def sync_config_def)
qed

lemma own_run:
  assumes U: "headers_ok U" and iter: "\<forall>xs. mset (iter xs) = mset xs" and db: "\<forall>d. db_ok d"
    and xs: "set xs \<subseteq> W" "W \<subseteq> U" "\<forall>x \<in> set xs. verified_state x \<and> c_round x \<le> 1000" "distinct (map c_digest xs)"
  shows "sync_inv view U sy \<Longrightarrow> sy_state sy = sync_state_default \<Longrightarrow> sy_highest_processed_round sy \<le> 1000 \<Longrightarrow>
    sy_gc_round sy \<le> gc_round (last_round s) \<Longrightarrow> set (sy_tx_new_certificates sy) \<subseteq> W \<Longrightarrow> known sy \<inter> c_digest ` set xs = {} \<Longrightarrow>
    ordered (sy_gc_round sy) (known sy) xs \<Longrightarrow>
    \<exists>sy'. (\<forall>n. node_run ca bls hash db_ok iter U W ch cons_db_ok n [] (sy, k, b, s) \<longrightarrow>
        node_run ca bls hash db_ok iter U W ch cons_db_ok n [] (sy', k, b, s)) \<and>
      sy_tx_new_certificates sy' = sy_tx_new_certificates sy @ xs"
  using xs
proof (induction xs arbitrary: sy)
  case Nil
  then show ?case by auto
next
  case (Cons x xs)
  have x: "x \<in> U" "verified_state x" "c_digest x \<notin> known sy" "c_round x \<le> 1000"
    "Suc (sy_gc_round sy) < c_round x \<longrightarrow> set (c_parents x) \<subseteq> known sy" using Cons.prems by auto
  from own_accepted [OF U Cons.prems(1,2) x(1,2,3,5,4) Cons.prems(3) iter db, of bls hash] obtain sy1 where
    sy1: "accept_own_certificate ca bls hash db_ok iter x sy = Some sy1" "delivers U sy [x] sy1" "sync_inv view U sy1"
      "sy_state sy1 = sync_state_default" "sy_highest_processed_round sy1 \<le> 1000" by blast
  have d: "sy_tx_new_certificates sy1 = sy_tx_new_certificates sy @ [x]" "known sy1 = insert (c_digest x) (known sy)"
    "sy_gc_round sy1 = sy_gc_round sy" using sy1(2) by (simp_all add: delivers_def)
  have "node_step ca bls hash db_ok iter U W ch cons_db_ok (sy, k, b, s) [] (sy1, k, b, s)"
    using Cons.prems d by (intro node_step.synchronize [OF sync_step.own [OF x(1,2) sy1(1)]]) auto
  from node_run_step [OF _ this, where sds = "[]"] have one: "node_run ca bls hash db_ok iter U W ch cons_db_ok n [] (sy, k, b, s) \<Longrightarrow>
    node_run ca bls hash db_ok iter U W ch cons_db_ok n [] (sy1, k, b, s)" for n by simp
  from Cons.IH [OF sy1(3,4,5)] Cons.prems d obtain sy' where
    sy': "\<forall>n. node_run ca bls hash db_ok iter U W ch cons_db_ok n [] (sy1, k, b, s) \<longrightarrow>
        node_run ca bls hash db_ok iter U W ch cons_db_ok n [] (sy', k, b, s)"
      "sy_tx_new_certificates sy' = sy_tx_new_certificates sy1 @ xs" by auto
  show ?case using one sy' d(1) by (intro exI [of _ sy'] conjI) (blast, simp)
qed

end

section \<open>The start of a node\<close>

text \<open>A node that starts an epoch: empty stores, and nothing ordered.\<close>

lemma node_start:
  assumes "sync_world bls hash U sy" "sync_inv view U sy" "known sy = {}" "sy_tx_new_certificates sy = []" "sy_gc_round sy = 0"
    and "machine_ok ch W (b, state_new depth)" "\<forall>x \<in> W. c_epoch x = nc_epoch (bs_committee b)"
  shows "node_inv view bls hash U W {} ch (sy, 0, b, state_new depth)"
  using assms by (simp add: node_inv_def holds_def)

text \<open>Consensus takes the whole output of the synchronizer.\<close>

lemma order_run:
  assumes "node_run ca bls hash db_ok iter U W ch cons_db_ok n sds0 (sy, k, b, s)"
    and "run_inner ch cons_db_ok (drop k (sy_tx_new_certificates sy)) b s = Some (None, sds, b', s')"
  shows "\<exists>k'. node_run ca bls hash db_ok iter U W ch cons_db_ok n (sds0 @ sds) (sy, k', b', s')"
  using assms
proof (induction "drop k (sy_tx_new_certificates sy)" arbitrary: k b s sds0 sds)
  case Nil
  then show ?case by auto
next
  case (Cons x xs)
  have k: "k < length (sy_tx_new_certificates sy)" "xs = drop (Suc k) (sy_tx_new_certificates sy)" "sy_tx_new_certificates sy ! k = x"
    using Cons.hyps(2) by (metis drop_all linorder_not_le list.distinct(1), metis drop_Suc list.sel(3) tl_drop, metis nth_via_drop)
  from Cons.prems(2) [folded Cons.hyps(2)] obtain r b1 s1 where step: "run_step ch cons_db_ok x b s = Some (r, b1, s1)"
    by (auto simp: bind_eq_Some_conv)
  with Cons.prems(2) [folded Cons.hyps(2)] obtain out msg rest where r: "r = Inr (out, msg)" "sds = out @ rest"
    "run_inner ch cons_db_ok xs b1 s1 = Some (None, rest, b', s')"
    by (auto simp: bind_eq_Some_conv split: sum.splits prod.splits)
  have "node_step ca bls hash db_ok iter U W ch cons_db_ok (sy, k, b, s) out (sy, Suc k, b1, s1)"
    using step r(1) k by (intro node_step.order) simp_all
  from Cons.hyps(1) [OF k(2) node_run_step [OF Cons.prems(1) this] r(3) [unfolded k(2)]] r(2) show ?case by simp
qed

section \<open>The example\<close>

definition node_headers :: "header list" where
  "node_headers = concat (map (\<lambda>r. map (\<lambda>i. c_header (demo_node r i)) [0, 1, 2, 3]) [1, 2, 3])"

lemma node_headers_ok:
  "world_headers_ok node_headers" "\<forall>h \<in> set node_headers. 1 < h_round h \<longrightarrow> set (h_parents h) \<subseteq> h_digest ` set node_headers"
  "\<forall>h \<in> set node_headers. h_round h = 1 \<longrightarrow> h_parents h = []"
  by (simp_all add: world_headers_ok_def node_headers_def demo_node_def)

lemma node_universe: "demo_universe \<subseteq> world_nodes node_headers"
  by (auto simp: demo_universe_def world_nodes_def node_headers_def demo_node_def verified_state_def)

lemma node_world: "sync_world (world_bls node_headers) (world_hash node_headers) (world_nodes node_headers) sync_start"
  by (rule world_sync_world [OF node_headers_ok]) (simp add: sync_start_def demo_nc_wf)

lemma node_world_ok: "headers_ok (world_nodes node_headers)"
  using node_world by (simp add: sync_world_def)

lemma node_start_inv:
  "node_inv (\<lambda>_. Map.empty) (world_bls node_headers) (world_hash node_headers) (world_nodes node_headers) demo_universe {}
     demo_choices (sync_start, 0, demo_bullshark, state_new 50)"
  by (rule node_start [OF node_world sync_start_inv _ _ _ demo_machine_ok])
    (auto simp: known_def sync_start_def cert_store_new_def demo_universe_def demo_nc_def)

text \<open>The node accepts a sequence of certificates, parents first, and orders all of it.\<close>

lemma node_example:
  assumes "set xs \<subseteq> demo_universe" "distinct (map c_digest xs)" "ordered 0 {} xs"
    and "run_inner demo_choices (\<lambda>_. True) xs demo_bullshark (state_new 50) = Some (None, sds, b', s')"
  shows "\<exists>n. node_run no_cache (world_bls node_headers) (world_hash node_headers) (\<lambda>_. True) id (world_nodes node_headers) demo_universe
    demo_choices (\<lambda>_. True) (sync_start, 0, demo_bullshark, state_new 50) sds n"
proof -
  have ok: "\<forall>x \<in> set xs. verified_state x \<and> c_round x \<le> 1000"
  proof
    fix x assume "x \<in> set xs"
    then obtain r i where "r \<in> {1, 2, 3}" "x = demo_node r i" using assms(1) demo_universe_iff by blast
    then show "verified_state x \<and> c_round x \<le> 1000" by (auto simp: verified_state_def demo_node_def c_round_def)
  qed
  have start: "known sync_start = {}" "sy_tx_new_certificates sync_start = []" "sy_gc_round sync_start = 0"
    "sy_highest_processed_round sync_start = 0" "sy_state sync_start = sync_state_default"
    by (simp_all add: known_def sync_start_def cert_store_new_def)
  let ?run = "node_run no_cache (world_bls node_headers) (world_hash node_headers) (\<lambda>_. True) id (world_nodes node_headers) demo_universe
    demo_choices (\<lambda>_. True) (sync_start, 0, demo_bullshark, state_new 50)"
  note own = no_cache_store.own_run [OF node_world_ok _ _ assms(1) node_universe ok assms(2) sync_start_inv, where iter = id and db_ok = "\<lambda>_. True"
      and bls = "world_bls node_headers" and hash = "world_hash node_headers" and s = "state_new 50" and ch = demo_choices
      and cons_db_ok = "\<lambda>_. True" and k = 0 and b = demo_bullshark]
  have "\<exists>sy. (\<forall>n. node_run no_cache (world_bls node_headers) (world_hash node_headers) (\<lambda>_. True) id (world_nodes node_headers) demo_universe
        demo_choices (\<lambda>_. True) n [] (sync_start, 0, demo_bullshark, state_new 50) \<longrightarrow>
      node_run no_cache (world_bls node_headers) (world_hash node_headers) (\<lambda>_. True) id (world_nodes node_headers) demo_universe
        demo_choices (\<lambda>_. True) n [] (sy, 0, demo_bullshark, state_new 50)) \<and> sy_tx_new_certificates sy = xs"
    using own start assms(3) by simp
  then obtain sy where run: "?run [] (sync_start, 0, demo_bullshark, state_new 50) \<longrightarrow> ?run [] (sy, 0, demo_bullshark, state_new 50)"
    and sy: "sy_tx_new_certificates sy = xs" by blast
  from run have "?run [] (sy, 0, demo_bullshark, state_new 50)" using node_run_start by blast
  from order_run [OF this, of sds b' s'] sy assms(4) show ?thesis by auto
qed

section \<open>The properties\<close>





end
