(* ===== verification/Spec2Isabelle.thy ===== *)
theory Spec2Isabelle
  imports Stake_Aggregator Consensus_Properties Primary_Node
begin

text \<open>
  The agreement core of a Sui validator. A validator votes with the weight its committee gives it;
  Narwhal builds a graph of certificates, each signed by a quorum and naming a quorum of parents;
  Bullshark orders that graph, and the ordered sub-dags go to execution. This development models the
  committees, the signatures and their aggregation, the certificates, the store they are kept in, the
  synchronizer that accepts them in causal order, the leader schedule and the commit rule, and proves what
  they promise each other, up to the agreement of whole primaries.

  \<^bold>\<open>Parts and theories.\<close>
  \<^item> \<open>Prelude\<close>, \<open>Quorums\<close>: panics, results, machine integers, ordered maps, binary search; the locale of a
    weighted quorum system and of a vote counter, with quorum intersection proved once.
  \<^item> \<open>Sui_Committee\<close> (\<^verbatim>\<open>crates/sui-types/src/committee.rs\<close>), \<open>Quorum_Sign_Info\<close>
    (\<^verbatim>\<open>crates/sui-types/src/crypto.rs\<close>: \<^verbatim>\<open>AuthoritySignInfo\<close>, \<^verbatim>\<open>AuthorityQuorumSignInfo\<close>,
    \<^verbatim>\<open>VerificationObligation\<close>), \<open>Stake_Aggregator\<close> (\<^verbatim>\<open>crates/sui-core/src/stake_aggregator.rs\<close>).
  \<^item> \<open>Narwhal_Committee\<close> (\<^verbatim>\<open>narwhal/config/src/committee.rs\<close>), \<open>Narwhal_Certificates\<close>
    (\<^verbatim>\<open>narwhal/types/src/primary.rs\<close>), \<open>Narwhal_Aggregators\<close> (\<^verbatim>\<open>narwhal/primary/src/aggregators.rs\<close>).
  \<^item> \<open>Certificate_Store\<close>, \<open>Certificate_Store_Laws\<close> (\<^verbatim>\<open>narwhal/storage/src/certificate_store.rs\<close>): the store,
    its indexes and its cache, over the contract \<open>cache_contract\<close> of a cache.
  \<^item> \<open>Consensus_Types\<close> (\<^verbatim>\<open>narwhal/types/src/consensus.rs\<close>), \<open>Consensus_Store\<close>
    (\<^verbatim>\<open>narwhal/storage/src/consensus_store.rs\<close>), \<open>Leader_Schedule\<close> and its laws
    (\<^verbatim>\<open>narwhal/primary/src/consensus/leader_schedule.rs\<close>).
  \<^item> \<open>Consensus_State\<close> (\<^verbatim>\<open>consensus/state.rs\<close>, \<^verbatim>\<open>consensus/utils.rs\<close>), \<open>Bullshark\<close> (\<^verbatim>\<open>consensus/bullshark.rs\<close> and the
    event loop of \<^verbatim>\<open>Consensus\<close>). \<open>Dag_Invariants\<close>, \<open>Dag_Paths\<close>: the dag as a set of certificates, reachability,
    chains of leaders. \<open>Commit_Steps\<close>: the abstract machine that inserts certificates and commits one
    elected leader at a time. \<open>Bullshark_Safety\<close>: the code refines it. \<open>Bullshark_Agreement\<close>: two machines
    commit the same chain. \<open>Bullshark_Progress\<close>: no handler panics, and supported leaders are committed.
    \<open>Consensus_Example\<close>: a run of three rounds of four authorities. \<open>Consensus_Properties\<close>: the theorems.
  \<^item> \<open>Synchronizer\<close> (\<^verbatim>\<open>narwhal/primary/src/synchronizer.rs\<close>): suspended certificates, the handlers of received,
    fetched and own certificates, and garbage collection. \<open>Suspended_Laws\<close>: the tables of suspended certificates
    and missing parents mirror each other and release exactly what can be accepted. \<open>Synchronizer_Laws\<close>: what
    each handler sends and keeps. \<open>Synchronizer_Properties\<close>: runs over all handlers, and their theorems.
  \<^item> \<open>Primary_Node\<close>: the synchronizer and consensus joined by their channel. The causal order of the one is what
    the parent checks of the other rest on; neither panics, and two nodes commit the same sequence.

  \<^bold>\<open>State and operations.\<close> A struct is a record with the fields of the source, an enum a datatype, a method
  a function that takes and returns the record. \<open>None\<close> of an option is a panic, \<open>Inl\<close> the error of a
  \<^verbatim>\<open>Result\<close>. Stakes and weights are machine words, which wrap; rounds, sequence numbers and timestamps
  are natural numbers below \<open>2 ^ 64\<close> and their arithmetic is written modulo \<open>2 ^ 64\<close>. Hash functions, BLS
  operations, random choices, caches, the order in which a hash set is traversed and the success of a
  database write are parameters. A channel is the list of the messages sent on it. A task that holds a lock
  runs as one step; where a task works before it takes the lock, the two parts are separate definitions
  (\<open>gc_store\<close> and \<open>gc_loop\<close>).

  \<^bold>\<open>Bounds and fuel.\<close> The retry loop of \<^verbatim>\<open>process_certificate\<close> runs with the fuel \<open>Suc r\<close> for a leader of
  round \<open>r\<close>: every retry moves the committed round by at least two, so it ends before the fuel does
  (\<open>retry_loop_terminates\<close>). All other loops are structural or have a termination proof.

  \<^bold>\<open>Assumptions.\<close> That the certificates of a committee hold one certificate per author and round, each with
  a quorum of parents (\<open>universe\<close>, \<open>well_connected\<close>), follows for correct majorities from
  \<open>narwhal_certificates_share_correct_signer\<close> and is a hypothesis of the consensus theorems; that a
  certified header has certified parents (\<open>sync_world\<close>) is one of the synchronizer's.

  \<^bold>\<open>Not modelled.\<close> Execution of transactions and everything above it (authority state, checkpoints, Move),
  networking, workers and batches, and all services and tools. They rest on the semantics of the Move
  virtual machine, on RocksDB, or on timers and sockets, which the sources only call.
\<close>

end
